(* ===== verification/SC_Prelude.thy ===== *)
theory SC_Prelude
  imports Main "HOL-Library.Word"
begin

unbundle bit_operations_syntax

text \<open>
  The types, result codes, byte-buffer operations and generic lemmas the components share.
  A C buffer is a list of bytes; \<open>memcpy_at\<close> is a store into the middle of one, and the
  lemmas of this theory say what such a store leaves unchanged. Unsigned C integers are
  words of their width; signed C integers are \<open>int\<close>.
\<close>

section \<open>Types and result codes\<close>

type_synonym byte = "8 word"
type_synonym bytes = "byte list"
type_synonym u32 = "32 word"
type_synonym u64 = "64 word"
type_synonym rc = int

abbreviation SQLITE_OK :: rc where "SQLITE_OK \<equiv> 0"
abbreviation SQLITE_ERROR :: rc where "SQLITE_ERROR \<equiv> 1"
abbreviation SQLITE_NOMEM :: rc where "SQLITE_NOMEM \<equiv> 7"
abbreviation SQLITE_MISUSE :: rc where "SQLITE_MISUSE \<equiv> 21"
abbreviation SQLITE_NOTADB :: rc where "SQLITE_NOTADB \<equiv> 26"

named_theorems buf_simps \<open>what a store into a byte buffer keeps\<close>
named_theorems bits_simps \<open>bits of the shift and mask idioms of the code\<close>

section \<open>Byte buffers\<close>

definition memcpy_at :: "'a list \<Rightarrow> nat \<Rightarrow> 'a list \<Rightarrow> 'a list" where
  "memcpy_at dst off src = take off dst @ src @ drop (off + length src) dst"

definition slice :: "'a list \<Rightarrow> nat \<Rightarrow> nat \<Rightarrow> 'a list" where
  "slice xs off n = take n (drop off xs)"

lemma length_memcpy_at [simp, buf_simps]:
  "off + length src \<le> length dst \<Longrightarrow> length (memcpy_at dst off src) = length dst"
  by (simp add: memcpy_at_def)

lemma memcpy_at_nth_in:
  "off + length src \<le> length dst \<Longrightarrow> i < length src \<Longrightarrow> memcpy_at dst off src ! (off + i) = src ! i"
  by (simp add: memcpy_at_def nth_append)

lemma memcpy_at_nth:
  assumes "off + length src \<le> length dst" and "i < length dst"
  shows "memcpy_at dst off src ! i = (if off \<le> i \<and> i < off + length src then src ! (i - off) else dst ! i)"
  using assms by (auto simp: memcpy_at_def nth_append)

lemma memcpy_at_Nil [simp]: "memcpy_at dst off [] = dst"
  by (simp add: memcpy_at_def)

lemma memcpy_at_zero_full [simp]: "length src = length dst \<Longrightarrow> memcpy_at dst 0 src = src"
  by (simp add: memcpy_at_def)

lemma length_slice [simp, buf_simps]: "off + n \<le> length xs \<Longrightarrow> length (slice xs off n) = n"
  by (simp add: slice_def)

lemma slice_nth: "i < n \<Longrightarrow> off + n \<le> length xs \<Longrightarrow> slice xs off n ! i = xs ! (off + i)"
  by (simp add: slice_def)

lemma slice_memcpy_same [simp, buf_simps]:
  "off + length src \<le> length dst \<Longrightarrow> n = length src \<Longrightarrow> slice (memcpy_at dst off src) off n = src"
  by (simp add: slice_def memcpy_at_def)

lemma slice_memcpy_before [buf_simps]:
  "o2 + n \<le> off \<Longrightarrow> off \<le> length dst \<Longrightarrow> slice (memcpy_at dst off src) o2 n = slice dst o2 n"
  by (rule nth_equalityI) (auto simp: slice_def memcpy_at_def nth_append)

lemma slice_memcpy_after [buf_simps]:
  assumes "off + length src \<le> o2" and "off + length src \<le> length dst"
  shows "slice (memcpy_at dst off src) o2 n = slice dst o2 n"
proof -
  have "drop o2 (memcpy_at dst off src) = drop o2 dst"
    using assms by (simp add: memcpy_at_def drop_append)
  then show ?thesis by (simp add: slice_def)
qed

lemma slice_full [simp]: "n = length xs \<Longrightarrow> slice xs 0 n = xs"
  by (simp add: slice_def)

lemma slice_append_left [simp]: "n = length xs \<Longrightarrow> slice (xs @ ys) 0 n = xs"
  by (simp add: slice_def)

section \<open>Words\<close>

lemma word_xor_cancel [simp]: fixes x y :: "'a::len word" shows "(x XOR y) XOR y = x"
  by (simp add: xor.assoc)

lemma word_xor_eq_0 [simp]: fixes x y :: "'a::len word" shows "x XOR y = 0 \<longleftrightarrow> x = y"
proof
  assume "x XOR y = 0"
  then have "(x XOR y) XOR y = 0 XOR y" by (rule arg_cong)
  then show "x = y" by (simp only: word_xor_cancel xor.left_neutral)
qed simp

lemma word_or_eq_0 [simp]: fixes x y :: "'a::len word" shows "x OR y = 0 \<longleftrightarrow> x = 0 \<and> y = 0"
  by (auto simp: bit_eq_iff bit_or_iff)

text \<open>A word that equals its own shift by a positive distance is zero.\<close>

lemma drop_bit_fixpoint:
  fixes z :: "'a::len word"
  assumes "z = drop_bit k z" and "0 < k"
  shows "z = 0"
proof (rule bit_word_eqI)
  have step: "bit z n \<Longrightarrow> bit z (n + k * m)" for n m
  proof (induction m)
    case (Suc m)
    then have "bit z (k + (n + k * m))"
      using assms(1) by (metis bit_drop_bit_eq comp_apply)
    then show ?case by (simp add: algebra_simps)
  qed simp
  fix n
  have "\<not> bit z n"
  proof
    assume "bit z n"
    then have "bit z (n + k * LENGTH('a))" by (rule step)
    then have "n + k * LENGTH('a) < LENGTH('a)"
      by (simp add: bit_imp_le_length)
    moreover have "1 * LENGTH('a) \<le> k * LENGTH('a)"
      using assms(2) by (intro mult_le_mono1) simp
    ultimately show False by simp
  qed
  then show "bit z n \<longleftrightarrow> bit 0 n" by simp
qed

lemma push_bit_fixpoint:
  fixes z :: "'a::len word"
  assumes "z = push_bit k z" and "0 < k"
  shows "z = 0"
proof (rule bit_word_eqI)
  fix n
  have "\<not> bit z n"
  proof (induction n rule: less_induct)
    case (less n)
    have "bit z n \<longleftrightarrow> bit (push_bit k z) n" using assms(1) by simp
    also have "\<dots> \<longleftrightarrow> k \<le> n \<and> n < LENGTH('a) \<and> bit z (n - k)"
      by (auto simp: bit_push_bit_iff dest: bit_imp_le_length)
    finally show ?case using less assms(2) by auto
  qed
  then show "bit z n \<longleftrightarrow> bit 0 n" by simp
qed

text \<open>The xor-shift step of a mixing function is injective.\<close>

lemma xorshift_inj:
  fixes x y :: "'a::len word"
  assumes "x XOR drop_bit k x = y XOR drop_bit k y" and "0 < k"
  shows "x = y"
proof -
  have "(x XOR y) XOR drop_bit k (x XOR y) = (x XOR drop_bit k x) XOR (y XOR drop_bit k y)"
    by (simp add: drop_bit_xor ac_simps)
  also have "\<dots> = 0" using assms(1) by simp
  finally have "x XOR y = drop_bit k (x XOR y)" by (simp only: word_xor_eq_0)
  then have "x XOR y = 0" using assms(2) by (rule drop_bit_fixpoint)
  then show ?thesis by simp
qed

end
