(* ===== verification/SC_Xoshiro.thy ===== *)
theory SC_Xoshiro
  imports SC_Prelude
begin

text \<open>
  The xoshiro256++ generator of src/src/sqlcipher.c that overwrites released memory. The
  thread-local array \<open>xoshiro_s[4]\<close> is the record \<open>xoshiro\<close>; \<open>xoshiro_next\<close> takes the
  address of that array, which seeds an all-zero state through splitmix64. The words are
  stored into buffers in the byte order of a little-endian host.
\<close>

record xoshiro =
  xs0 :: u64
  xs1 :: u64
  xs2 :: u64
  xs3 :: u64

definition splitmix64_mix :: "u64 \<Rightarrow> u64" where
  "splitmix64_mix z0 =
     (let z1 = (z0 XOR drop_bit 30 z0) * 0xbf58476d1ce4e5b9;
          z2 = (z1 XOR drop_bit 27 z1) * 0x94d049bb133111eb
      in z2 XOR drop_bit 31 z2)"

text \<open>The pair of the value returned and the updated \<open>*x\<close>.\<close>

definition splitmix64 :: "u64 \<Rightarrow> u64 \<times> u64" where
  "splitmix64 x = (let z = x + 0x9e3779b97f4a7c15 in (splitmix64_mix z, z))"

definition xoshiro_rotl :: "u64 \<Rightarrow> nat \<Rightarrow> u64" where
  "xoshiro_rotl x k = push_bit k x OR drop_bit (64 - k) x"

definition xoshiro_zero :: "xoshiro \<Rightarrow> bool" where
  "xoshiro_zero s \<longleftrightarrow> (xs0 s OR xs1 s OR xs2 s OR xs3 s) = 0"

definition xoshiro_seed :: "u64 \<Rightarrow> xoshiro" where
  "xoshiro_seed a0 =
     (let (v0, a1) = splitmix64 a0; (v1, a2) = splitmix64 a1;
          (v2, a3) = splitmix64 a2; (v3, a4) = splitmix64 a3
      in \<lparr>xs0 = v0, xs1 = v1, xs2 = v2, xs3 = v3\<rparr>)"

definition xoshiro_step :: "xoshiro \<Rightarrow> xoshiro" where
  "xoshiro_step s =
     (let t = push_bit 17 (xs1 s);
          s2 = xs2 s XOR xs0 s;
          s3 = xs3 s XOR xs1 s;
          s1 = xs1 s XOR s2;
          s0 = xs0 s XOR s3
      in \<lparr>xs0 = s0, xs1 = s1, xs2 = s2 XOR t, xs3 = xoshiro_rotl s3 45\<rparr>)"

definition xoshiro_next :: "u64 \<Rightarrow> xoshiro \<Rightarrow> u64 \<times> xoshiro" where
  "xoshiro_next addr s0 =
     (let s = (if xoshiro_zero s0 then xoshiro_seed addr else s0);
          result = xoshiro_rotl (xs0 s + xs3 s) 23 + xs0 s
      in (result, xoshiro_step s))"

definition u64_native :: "u64 \<Rightarrow> bytes" where
  "u64_native v = map (\<lambda>i. ucast (drop_bit (8 * i) v)) [0..<8]"

text \<open>The loop stores at most eight bytes per draw and stops when \<open>sz\<close> is used up.\<close>

function xoshiro_randomness :: "u64 \<Rightarrow> xoshiro \<Rightarrow> nat \<Rightarrow> bytes \<times> xoshiro" where
  "xoshiro_randomness addr s sz =
     (if sz > 0 then
        let (val, s') = xoshiro_next addr s;
            to_copy = (if sz \<ge> 8 then 8 else sz);
            (rest, s'') = xoshiro_randomness addr s' (sz - to_copy)
        in (take to_copy (u64_native val) @ rest, s'')
      else ([], s))"
  by pat_completeness auto
termination
  by (relation "measure (\<lambda>(addr, s, sz). sz)") auto

declare xoshiro_randomness.simps [simp del]

section \<open>The state never returns to zero\<close>

lemma mult_unit_inj:
  fixes a b c c' :: "'a::len word"
  assumes "c * c' = 1" and "a * c = b * c"
  shows "a = b"
proof -
  have "a * (c * c') = b * (c * c')"
    using assms(2) by (simp only: mult.assoc [symmetric])
  with assms(1) show ?thesis by simp
qed

lemma splitmix64_unit1: "(0xbf58476d1ce4e5b9 :: u64) * 0x96de1b173f119089 = 1"
  by simp

lemma splitmix64_unit2: "(0x94d049bb133111eb :: u64) * 0x319642b2d24d8ec3 = 1"
  by simp

lemma splitmix64_mix_inj:
  assumes "splitmix64_mix x = splitmix64_mix y"
  shows "x = y"
proof -
  define f where "f z = (z XOR drop_bit 30 z) * 0xbf58476d1ce4e5b9" for z :: u64
  define g where "g z = (z XOR drop_bit 27 z) * 0x94d049bb133111eb" for z :: u64
  have "g (f x) XOR drop_bit 31 (g (f x)) = g (f y) XOR drop_bit 31 (g (f y))"
    using assms by (simp only: splitmix64_mix_def Let_def f_def g_def)
  then have "g (f x) = g (f y)" by (rule xorshift_inj) simp
  then have "f x XOR drop_bit 27 (f x) = f y XOR drop_bit 27 (f y)"
    unfolding g_def by (rule mult_unit_inj [OF splitmix64_unit2])
  then have "f x = f y" by (rule xorshift_inj) simp
  then have "x XOR drop_bit 30 x = y XOR drop_bit 30 y"
    unfolding f_def by (rule mult_unit_inj [OF splitmix64_unit1])
  then show ?thesis by (rule xorshift_inj) simp
qed

lemma rotl_eq_0: "xoshiro_rotl x 45 = 0 \<Longrightarrow> x = 0"
proof (rule bit_word_eqI)
  fix n assume z: "xoshiro_rotl x 45 = 0" and n: "n < LENGTH(64)"
  have p: "push_bit 45 x = 0" and d: "drop_bit 19 x = 0"
    using z by (simp_all add: xoshiro_rotl_def)
  show "bit x n = bit 0 n"
  proof (cases "n < 19")
    case True
    have "bit (push_bit 45 x) (n + 45) = bit x n"
      using True by (simp add: bit_push_bit_iff)
    with p show ?thesis by simp
  next
    case False
    then have "bit (drop_bit 19 x) (n - 19) = bit x n"
      by (simp add: bit_drop_bit_eq)
    with d show ?thesis by simp
  qed
qed

lemma xoshiro_zero_step:
  "xoshiro_zero (xoshiro_step s) \<longleftrightarrow>
     xs0 s = xs3 s XOR xs1 s \<and> xs1 s = xs2 s XOR xs0 s \<and>
     xs2 s XOR xs0 s = push_bit 17 (xs1 s) \<and> xoshiro_rotl (xs3 s XOR xs1 s) 45 = 0"
  by (simp add: xoshiro_zero_def xoshiro_step_def Let_def)

lemma xoshiro_step_nonzero: "\<not> xoshiro_zero s \<Longrightarrow> \<not> xoshiro_zero (xoshiro_step s)"
proof
  assume nz: "\<not> xoshiro_zero s" and "xoshiro_zero (xoshiro_step s)"
  then have e0: "xs0 s = xs3 s XOR xs1 s" and e1: "xs1 s = xs2 s XOR xs0 s"
    and e2: "xs2 s XOR xs0 s = push_bit 17 (xs1 s)" and e3: "xoshiro_rotl (xs3 s XOR xs1 s) 45 = 0"
    unfolding xoshiro_zero_step by blast+
  from e3 have s31: "xs3 s XOR xs1 s = 0" by (rule rotl_eq_0)
  with e0 have s0: "xs0 s = 0" by (rule trans)
  from e1 e2 have "xs1 s = push_bit 17 (xs1 s)" by (rule trans)
  then have s1: "xs1 s = 0" by (rule push_bit_fixpoint) simp
  from s31 s1 have s3: "xs3 s = 0" by simp
  from e1 s0 s1 have s2: "xs2 s = 0" by simp
  from nz s0 s1 s2 s3 show False by (simp add: xoshiro_zero_def)
qed

lemma xoshiro_seed_nonzero: "\<not> xoshiro_zero (xoshiro_seed a)"
proof
  assume "xoshiro_zero (xoshiro_seed a)"
  then have "splitmix64_mix (a + 0x9e3779b97f4a7c15)
             = splitmix64_mix (a + 0x9e3779b97f4a7c15 + 0x9e3779b97f4a7c15)"
    by (simp add: xoshiro_zero_def xoshiro_seed_def splitmix64_def Let_def)
  then have "a + 0x9e3779b97f4a7c15 = a + 0x9e3779b97f4a7c15 + 0x9e3779b97f4a7c15"
    by (rule splitmix64_mix_inj)
  then show False by simp
qed

lemma xoshiro_randomness_0 [simp]: "xoshiro_randomness addr s 0 = ([], s)"
  by (simp add: xoshiro_randomness.simps)

lemma length_u64_native [simp]: "length (u64_native v) = 8"
  by (simp add: u64_native_def)

lemma xoshiro_randomness_length [simp]: "length (fst (xoshiro_randomness addr s sz)) = sz"
proof (induction addr s sz rule: xoshiro_randomness.induct)
  case (1 addr s sz)
  show ?case
  proof (cases "sz > 0")
    case True
    obtain val s' where nx: "xoshiro_next addr s = (val, s')" by fastforce
    with 1 True show ?thesis
      by (subst xoshiro_randomness.simps) (auto simp: split_beta Let_def)
  qed simp
qed

text \<open>
  C21: the generator never runs on an all-zero state: whatever the state before the call,
  also an uninitialised one, the state \<open>xoshiro_next\<close> leaves is not all zero.
\<close>

theorem xoshiro_next_state_nonzero: "\<not> xoshiro_zero (snd (xoshiro_next addr s))"
  using xoshiro_step_nonzero xoshiro_seed_nonzero by (simp add: xoshiro_next_def Let_def)

end
