(* ===== verification/SC_Bytes.thy ===== *)
theory SC_Bytes
  imports SC_Prelude
begin

text \<open>
  The byte-level helpers of src/src/sqlcipher.c: hexadecimal conversion of key material,
  the shield mask over keys in memory, the volatile memory routines, and the little- and
  big-endian page numbers that enter a page's HMAC. Loops over an index are folds over
  \<open>[0..<n]\<close>, in the order of the code.
\<close>

section \<open>Hexadecimal conversion\<close>

definition cipher_hex2int :: "byte \<Rightarrow> byte" where
  "cipher_hex2int c =
     (if 0x30 \<le> c \<and> c \<le> 0x39 then c - 0x30
      else if 0x41 \<le> c \<and> c \<le> 0x46 then c - 0x41 + 10
      else if 0x61 \<le> c \<and> c \<le> 0x66 then c - 0x61 + 10
      else 0)"

definition cipher_hex2bin :: "bytes \<Rightarrow> nat \<Rightarrow> bytes" where
  "cipher_hex2bin hex sz =
     map (\<lambda>j. push_bit 4 (cipher_hex2int (hex ! (2 * j))) OR cipher_hex2int (hex ! (2 * j + 1)))
         [0..<(sz + 1) div 2]"

text \<open>One digit of \<open>%02x\<close>, and the three bytes \<open>sqlite3_snprintf(3, ...)\<close> stores.\<close>

definition hex_digit :: "byte \<Rightarrow> byte" where
  "hex_digit n = (if n < 10 then 0x30 + n else 0x61 + (n - 10))"

definition snprintf_02x :: "byte \<Rightarrow> bytes" where
  "snprintf_02x b = [hex_digit (drop_bit 4 b), hex_digit (b AND 15), 0]"

definition cipher_bin2hex :: "bytes \<Rightarrow> nat \<Rightarrow> bytes \<Rightarrow> nat \<Rightarrow> bytes" where
  "cipher_bin2hex inp sz buf out =
     fold (\<lambda>i b. memcpy_at b (out + i * 2) (snprintf_02x (inp ! i))) [0..<sz] buf"

definition is_hex_char :: "byte \<Rightarrow> bool" where
  "is_hex_char c \<longleftrightarrow> \<not> ((c < 0x30 \<or> 0x39 < c) \<and> (c < 0x41 \<or> 0x46 < c) \<and> (c < 0x61 \<or> 0x66 < c))"

fun cipher_isHex :: "bytes \<Rightarrow> nat \<Rightarrow> bool" where
  "cipher_isHex hex 0 = True"
| "cipher_isHex [] (Suc n) = False"
| "cipher_isHex (c # cs) (Suc n) = (if is_hex_char c then cipher_isHex cs n else False)"

section \<open>Shield, memset, constant-time comparison\<close>

definition sqlcipher_shield :: "bytes \<Rightarrow> bytes \<Rightarrow> nat \<Rightarrow> bytes" where
  "sqlcipher_shield msk inp sz =
     fold (\<lambda>i b. b[i := b ! i XOR msk ! (i mod length msk)]) [0..<sz] inp"

definition sqlcipher_memset :: "bytes \<Rightarrow> byte \<Rightarrow> nat \<Rightarrow> bytes" where
  "sqlcipher_memset a v len = fold (\<lambda>i b. b[i := v]) [0..<len] a"

definition sqlcipher_ismemset :: "bytes \<Rightarrow> byte \<Rightarrow> nat \<Rightarrow> int" where
  "sqlcipher_ismemset a v len =
     (let result = fold (\<lambda>i r. r OR ucast (a ! i XOR v)) [0..<len] (0 :: u64)
      in if result \<noteq> 0 then 1 else 0)"

definition sqlcipher_memcmp :: "bytes \<Rightarrow> bytes \<Rightarrow> nat \<Rightarrow> int" where
  "sqlcipher_memcmp a0 a1 len =
     (let result = fold (\<lambda>i r. r OR ucast (a0 ! i XOR a1 ! i)) [0..<len] (0 :: u32)
      in if result \<noteq> 0 then 1 else 0)"

section \<open>Byte orders\<close>

definition sqlcipher_put4byte_le :: "u32 \<Rightarrow> bytes" where
  "sqlcipher_put4byte_le v = [ucast v, ucast (drop_bit 8 v), ucast (drop_bit 16 v), ucast (drop_bit 24 v)]"

definition sqlite3Put4byte :: "u32 \<Rightarrow> bytes" where
  "sqlite3Put4byte v = [ucast (drop_bit 24 v), ucast (drop_bit 16 v), ucast (drop_bit 8 v), ucast v]"

definition sqlite3Get4byte :: "bytes \<Rightarrow> u32" where
  "sqlite3Get4byte p =
     push_bit 24 (ucast (p ! 0)) OR push_bit 16 (ucast (p ! 1)) OR push_bit 8 (ucast (p ! 2)) OR ucast (p ! 3)"

section \<open>What the loops compute\<close>

lemma fold_list_update_prefix:
  assumes "n \<le> length xs"
  shows "length (fold (\<lambda>i b. b[i := f i (b ! i)]) [0..<n] xs) = length xs"
    and "\<forall>i < length xs. fold (\<lambda>i b. b[i := f i (b ! i)]) [0..<n] xs ! i = (if i < n then f i (xs ! i) else xs ! i)"
  using assms by (induction n) (auto simp: nth_list_update less_Suc_eq)

lemma sqlcipher_shield_nth:
  "sz \<le> length xs \<Longrightarrow> i < length xs \<Longrightarrow>
     sqlcipher_shield msk xs sz ! i = (if i < sz then xs ! i XOR msk ! (i mod length msk) else xs ! i)"
  using fold_list_update_prefix(2) [of sz xs "\<lambda>i x. x XOR msk ! (i mod length msk)"]
  by (simp add: sqlcipher_shield_def)

lemma length_sqlcipher_shield [simp]: "length (sqlcipher_shield msk xs sz) = length xs"
proof -
  have "length (fold (\<lambda>i b. b[i := f i b]) is xs) = length xs" for f :: "nat \<Rightarrow> bytes \<Rightarrow> byte" and "is"
    by (induction "is" arbitrary: xs) auto
  then show ?thesis by (simp add: sqlcipher_shield_def)
qed

lemma sqlcipher_shield_involution [simp]:
  "sz \<le> length xs \<Longrightarrow> sqlcipher_shield msk (sqlcipher_shield msk xs sz) sz = xs"
  by (rule nth_equalityI) (auto simp: sqlcipher_shield_nth)

lemma sqlcipher_memset_eq:
  assumes "len \<le> length a"
  shows "sqlcipher_memset a v len = replicate len v @ drop len a"
proof (rule nth_equalityI)
  have *: "sqlcipher_memset a v len = fold (\<lambda>i b. b[i := (\<lambda>_ _. v) i (b ! i)]) [0..<len] a"
    by (simp add: sqlcipher_memset_def)
  show "length (sqlcipher_memset a v len) = length (replicate len v @ drop len a)"
    using assms fold_list_update_prefix(1) [OF assms, of "\<lambda>_ _. v"] by (simp add: *)
  fix i assume "i < length (sqlcipher_memset a v len)"
  then have "i < length a"
    using assms fold_list_update_prefix(1) [OF assms, of "\<lambda>_ _. v"] by (simp add: *)
  then show "sqlcipher_memset a v len ! i = (replicate len v @ drop len a) ! i"
    using fold_list_update_prefix(2) [OF assms, of "\<lambda>_ _. v"] assms by (auto simp: * nth_append)
qed

lemma fold_or_zero_iff:
  fixes z :: "'b::len word"
  shows "fold (\<lambda>i r. r OR f i) is z = 0 \<longleftrightarrow> z = 0 \<and> (\<forall>i \<in> set is. f i = 0)"
  by (induction "is" arbitrary: z) auto

lemma ucast_byte_eq_0 [simp]:
  "(ucast (x :: byte) :: u32) = 0 \<longleftrightarrow> x = 0" "(ucast (x :: byte) :: u64) = 0 \<longleftrightarrow> x = 0"
  by (auto simp: bit_eq_iff bit_ucast_iff) (use bit_imp_le_length in fastforce)+

lemma sqlcipher_memcmp_eq_0_iff:
  assumes "len \<le> length a" and "len \<le> length b"
  shows "sqlcipher_memcmp a b len = 0 \<longleftrightarrow> take len a = take len b"
  using assms
  by (auto simp: sqlcipher_memcmp_def Let_def fold_or_zero_iff list_eq_iff_nth_eq)

lemma sqlcipher_ismemset_eq_0_iff:
  assumes "len \<le> length a"
  shows "sqlcipher_ismemset a v len = 0 \<longleftrightarrow> take len a = replicate len v"
  using assms
  by (auto simp: sqlcipher_ismemset_def Let_def fold_or_zero_iff list_eq_iff_nth_eq)

section \<open>Hexadecimal round trips\<close>

lemma word_less_of_nat_cases:
  fixes n :: "'a::len word"
  assumes "n < of_nat k"
  shows "n \<in> set (map of_nat [0..<k])"
proof -
  have "unat n < k mod 2 ^ LENGTH('a)"
    using assms by (simp add: word_less_nat_alt unat_of_nat)
  then have "unat n < k" using mod_less_eq_dividend order_less_le_trans by blast
  moreover have "n = of_nat (unat n)" by simp
  ultimately show ?thesis by (simp only: set_map set_upt) (metis atLeastLessThan_iff imageI le0)
qed

lemma nibble_cases:
  "(n :: byte) < 16 \<Longrightarrow> n \<in> {0, 1, 2, 3, 4, 5, 6, 7, 8, 9, 10, 11, 12, 13, 14, 15}"
  using word_less_of_nat_cases [of n 16] by (simp add: upt_rec)

lemma hex2int_hex_digit [simp]: "n < 16 \<Longrightarrow> cipher_hex2int (hex_digit n) = n"
  by (drule nibble_cases, elim insertE emptyE; simp add: cipher_hex2int_def hex_digit_def)

lemma is_hex_hex_digit [simp]: "n < 16 \<Longrightarrow> is_hex_char (hex_digit n)"
  by (drule nibble_cases, elim insertE emptyE; simp add: is_hex_char_def hex_digit_def)

lemma drop_bit_4_nibble [simp]: "drop_bit 4 (b :: byte) < 16"
proof -
  have "unat b < 2 ^ LENGTH(8)" by (rule unsigned_less)
  then show ?thesis by (simp add: word_less_nat_alt drop_bit_eq_div unat_div_distrib)
qed

lemma and_15_take_bit: "(b :: byte) AND 15 = take_bit 4 b"
  by (simp add: take_bit_eq_mask mask_eq_exp_minus_1)

lemma and_15_nibble [simp]: "(b :: byte) AND 15 < 16"
  using word_and_le1 [of b 15] by (simp add: word_le_nat_alt word_less_nat_alt)

lemma nibbles_join [simp]: "push_bit 4 (drop_bit 4 (b :: byte)) OR (b AND 15) = b"
  unfolding and_15_take_bit by (rule bit_word_eqI) (auto simp: bit_simps)

definition hex_pair :: "byte \<Rightarrow> bytes" where
  "hex_pair b = [hex_digit (drop_bit 4 b), hex_digit (b AND 15)]"

definition hex_string :: "bytes \<Rightarrow> bytes" where
  "hex_string xs = concat (map hex_pair xs)"

lemma length_hex_string [simp]: "length (hex_string xs) = 2 * length xs"
  by (induction xs) (auto simp: hex_string_def hex_pair_def)

lemma hex_string_append [simp]: "hex_string (xs @ ys) = hex_string xs @ hex_string ys"
  by (simp add: hex_string_def)

lemma hex_string_nth:
  "j < length xs \<Longrightarrow> hex_string xs ! (2 * j) = hex_digit (drop_bit 4 (xs ! j))"
  "j < length xs \<Longrightarrow> hex_string xs ! (2 * j + 1) = hex_digit (xs ! j AND 15)"
proof (induction xs arbitrary: j)
  case (Cons x xs)
  { case 1 then show ?case using Cons.IH(1)
      by (cases j) (auto simp: hex_string_def hex_pair_def) }
  { case 2 then show ?case using Cons.IH(2)
      by (cases j) (auto simp: hex_string_def hex_pair_def) }
qed auto

lemma memcpy_at_extend:
  assumes "length t \<le> length b" and "off + length a + length b \<le> length d" and "o2 = off + length a"
  shows "memcpy_at (memcpy_at d off (a @ t)) o2 b = memcpy_at d off (a @ b)"
  using assms by (simp add: memcpy_at_def drop_append ac_simps)

lemma cipher_bin2hex_eq:
  assumes "sz \<le> length inp" and "out + 2 * sz + 1 \<le> length buf"
  shows "cipher_bin2hex inp sz buf out = memcpy_at buf out (hex_string (take sz inp) @ (if sz = 0 then [] else [0]))"
  using assms
proof (induction sz)
  case 0
  then show ?case by (simp add: cipher_bin2hex_def hex_string_def)
next
  case (Suc n)
  let ?H = "hex_string (take n inp)"
  have "cipher_bin2hex inp (Suc n) buf out
        = memcpy_at (cipher_bin2hex inp n buf out) (out + n * 2) (snprintf_02x (inp ! n))"
    by (simp add: cipher_bin2hex_def)
  also have "\<dots> = memcpy_at (memcpy_at buf out (?H @ (if n = 0 then [] else [0]))) (out + n * 2) (hex_pair (inp ! n) @ [0])"
    using Suc by (simp add: snprintf_02x_def hex_pair_def)
  also have "\<dots> = memcpy_at buf out (?H @ hex_pair (inp ! n) @ [0])"
    using Suc.prems by (intro memcpy_at_extend) (auto simp: hex_pair_def)
  finally show ?case using Suc.prems
    by (simp add: take_Suc_conv_app_nth hex_string_def)
qed

lemma cipher_hex2bin_hex_string:
  "sz = 2 * length xs \<Longrightarrow> cipher_hex2bin (hex_string xs @ rest) sz = xs"
  by (rule nth_equalityI)
     (auto simp: cipher_hex2bin_def nth_append hex_string_nth hex_string_nth(2) [simplified])

lemma cipher_isHex_append [simp]:
  "cipher_isHex (xs @ ys) (length xs) = (\<forall>c \<in> set xs. is_hex_char c)"
  by (induction xs) auto

lemma hex_string_is_hex: "c \<in> set (hex_string xs) \<Longrightarrow> is_hex_char c"
  by (auto simp: hex_string_def hex_pair_def)

lemma cipher_isHex_hex_string: "sz = 2 * length xs \<Longrightarrow> cipher_isHex (hex_string xs @ rest) sz"
  using cipher_isHex_append [of "hex_string xs" rest] hex_string_is_hex by auto

section \<open>Byte orders\<close>

lemma length_put4byte [simp]:
  "length (sqlcipher_put4byte_le v) = 4" "length (sqlite3Put4byte v) = 4"
  by (simp_all add: sqlcipher_put4byte_le_def sqlite3Put4byte_def)

lemma sqlite3Get4byte_Put4byte: "sqlite3Get4byte (sqlite3Put4byte v @ rest) = v"
proof (rule bit_word_eqI)
  fix n assume "n < LENGTH(32)"
  then show "bit (sqlite3Get4byte (sqlite3Put4byte v @ rest)) n = bit v n"
    unfolding sqlite3Get4byte_def sqlite3Put4byte_def
    by (cases "n < 8"; cases "n < 16"; cases "n < 24") (auto simp: bit_simps)
qed

lemma sqlite3Put4byte_inj: "sqlite3Put4byte v = sqlite3Put4byte w \<longleftrightarrow> v = w"
  by (metis sqlite3Get4byte_Put4byte)

lemma put4byte_le_rev: "sqlcipher_put4byte_le v = rev (sqlite3Put4byte v)"
  by (simp add: sqlcipher_put4byte_le_def sqlite3Put4byte_def)

lemma put4byte_le_inj: "sqlcipher_put4byte_le v = sqlcipher_put4byte_le w \<longleftrightarrow> v = w"
  by (simp add: put4byte_le_rev sqlite3Put4byte_inj)

end
