(* ===== verification/SC_Heap.thy ===== *)
theory SC_Heap
  imports SC_Prelude SC_Xoshiro
begin

text \<open>
  The private heap of src/src/sqlcipher.c: one region obtained from SQLite's allocator,
  tiled by blocks that each start with a \<open>private_block\<close> header of 16 bytes (a 64-bit
  pointer and two 32-bit fields) and are linked by \<open>next\<close> in address order. Addresses are
  natural numbers, NULL is \<open>None\<close>; the headers are a partial map from addresses, the bytes
  a function of the address. Following a pointer that is no header has no result, and
  neither has a loop that does not end: such a run is \<open>None\<close> of the outer option.

  The system allocator under \<open>sqlite3_malloc64\<close> is a parameter, \<open>sys_malloc\<close>: its answer to
  the n-th call, given the blocks that are live and the size. It may fail at any call, and
  what is assumed of it (\<open>sys_malloc_ok\<close>) is what malloc documents: a block it returns is
  aligned and overlaps no live one. The mutex \<open>SQLCIPHER_MUTEX_MEM\<close> makes each operation one
  step. Sizes are kept as natural numbers
  and truncated to 32 bits where the code stores them in a \<open>u32\<close>; the counters wrap.
\<close>

section \<open>State\<close>

record private_block =
  pb_next :: "nat option"
  pb_size :: nat
  pb_used :: bool

type_synonym blocks = "nat \<Rightarrow> private_block option"

record heap =
  private_heap :: "nat option"
  private_heap_sz :: nat
  hp_blocks :: blocks
  hp_mem :: "nat \<Rightarrow> byte"
  private_heap_used :: u64
  private_heap_hwm :: u64
  private_heap_alloc :: u64
  private_heap_allocs :: u32
  private_heap_overflow :: u64
  private_heap_overflows :: u32
  hp_rng :: xoshiro
  hp_rng_addr :: u64
  sys_malloc :: "nat \<Rightarrow> (nat \<Rightarrow> nat option) \<Rightarrow> nat \<Rightarrow> nat option"
  sys_calls :: nat
  sys_live :: "nat \<Rightarrow> nat option"

definition SQLITE_MAX_LENGTH :: nat where "SQLITE_MAX_LENGTH = 1000000000"
definition sizeof_private_block :: nat where "sizeof_private_block = 16"
definition SQLCIPHER_PRIVATE_HEAP_MIN_SPLIT_SIZE :: nat where "SQLCIPHER_PRIVATE_HEAP_MIN_SPLIT_SIZE = 32"
definition SQLCIPHER_PRIVATE_HEAP_ALIGNMENT :: nat where "SQLCIPHER_PRIVATE_HEAP_ALIGNMENT = 8"
definition SQLCIPHER_PRIVATE_HEAP_SIZE_DEFAULT :: nat where "SQLCIPHER_PRIVATE_HEAP_SIZE_DEFAULT = 49152"
definition SQLCIPHER_PRIVATE_HEAP_SIZE_STEP :: nat where "SQLCIPHER_PRIVATE_HEAP_SIZE_STEP = 16384"

definition SQLCIPHER_PRIVATE_HEAP_ROUNDUP :: "nat \<Rightarrow> nat" where
  "SQLCIPHER_PRIVATE_HEAP_ROUNDUP x =
     (if x mod SQLCIPHER_PRIVATE_HEAP_ALIGNMENT \<noteq> 0
      then (x div SQLCIPHER_PRIVATE_HEAP_ALIGNMENT + 1) * SQLCIPHER_PRIVATE_HEAP_ALIGNMENT else x)"

definition trunc32 :: "nat \<Rightarrow> nat" where "trunc32 x = x mod 2 ^ 32"

definition mem_write :: "nat \<Rightarrow> bytes \<Rightarrow> (nat \<Rightarrow> byte) \<Rightarrow> nat \<Rightarrow> byte" where
  "mem_write p bs m = (\<lambda>a. if p \<le> a \<and> a < p + length bs then bs ! (a - p) else m a)"

text \<open>\<open>xoshiro_randomness(ptr, sz)\<close> on the memory.\<close>

definition heap_randomness :: "nat \<Rightarrow> nat \<Rightarrow> heap \<Rightarrow> heap" where
  "heap_randomness p sz h =
     (let (bs, s) = xoshiro_randomness (hp_rng_addr h) (hp_rng h) sz
      in h\<lparr>hp_mem := mem_write p bs (hp_mem h), hp_rng := s\<rparr>)"

section \<open>The wrapped system allocator\<close>

definition sqlite3_malloc64 :: "nat \<Rightarrow> heap \<Rightarrow> nat option \<times> heap" where
  "sqlite3_malloc64 sz h =
     (case sys_malloc h (sys_calls h) (sys_live h) sz of
        None \<Rightarrow> (None, h\<lparr>sys_calls := sys_calls h + 1\<rparr>)
      | Some p \<Rightarrow> (Some p, h\<lparr>sys_calls := sys_calls h + 1, sys_live := (sys_live h)(p \<mapsto> sz)\<rparr>))"

definition sqlite3_free :: "nat \<Rightarrow> heap \<Rightarrow> heap" where
  "sqlite3_free p h = h\<lparr>sys_live := (sys_live h)(p := None)\<rparr>"

definition sqlcipher_internal_free :: "nat \<Rightarrow> nat \<Rightarrow> heap \<Rightarrow> heap" where
  "sqlcipher_internal_free p sz h = sqlite3_free p (heap_randomness p sz h)"

definition sqlcipher_internal_malloc :: "nat \<Rightarrow> heap \<Rightarrow> nat option \<times> heap" where
  "sqlcipher_internal_malloc sz h =
     (case sqlite3_malloc64 sz h of
        (None, h1) \<Rightarrow> (None, h1)
      | (Some p, h1) \<Rightarrow> (Some p, h1\<lparr>hp_mem := mem_write p (replicate sz 0) (hp_mem h1)\<rparr>))"

section \<open>Allocation\<close>

text \<open>The search of \<open>sqlcipher_malloc\<close>: the first unused block that is large enough.\<close>

partial_function (option) malloc_find :: "blocks \<Rightarrow> nat \<Rightarrow> nat option \<Rightarrow> nat option option" where
  "malloc_find B sz block =
     (case block of
        None \<Rightarrow> Some None
      | Some b \<Rightarrow>
          (case B b of
             None \<Rightarrow> None
           | Some blk \<Rightarrow>
               (if \<not> pb_used blk \<and> sz \<le> pb_size blk then Some (Some b)
                else malloc_find B sz (pb_next blk))))"

text \<open>The headers after the block at \<open>b\<close> is taken, split when enough is left over.\<close>

definition malloc_take :: "nat \<Rightarrow> nat \<Rightarrow> private_block \<Rightarrow> blocks \<Rightarrow> blocks" where
  "malloc_take sz b blk B =
     (if sz + sizeof_private_block + SQLCIPHER_PRIVATE_HEAP_MIN_SPLIT_SIZE \<le> pb_size blk then
        let split = b + sz + sizeof_private_block
        in B(split \<mapsto> \<lparr>pb_next = pb_next blk,
                         pb_size = trunc32 (pb_size blk - sz - sizeof_private_block),
                         pb_used = False\<rparr>,
             b \<mapsto> \<lparr>pb_next = Some split, pb_size = trunc32 sz, pb_used = True\<rparr>)
      else B(b \<mapsto> blk\<lparr>pb_used := True\<rparr>))"

definition sqlcipher_malloc :: "nat \<Rightarrow> heap \<Rightarrow> (nat option \<times> heap) option" where
  "sqlcipher_malloc req h =
     (if req < 1 \<or> SQLITE_MAX_LENGTH < req then Some (None, h)
      else
        let sz = SQLCIPHER_PRIVATE_HEAP_ROUNDUP req in
        case malloc_find (hp_blocks h) sz (private_heap h) of
          None \<Rightarrow> None
        | Some None \<Rightarrow>
            Some (sqlcipher_internal_malloc sz
                    (h\<lparr>private_heap_overflow := private_heap_overflow h + of_nat sz,
                       private_heap_overflows := private_heap_overflows h + 1\<rparr>))
        | Some (Some b) \<Rightarrow>
            (case hp_blocks h b of
               None \<Rightarrow> None
             | Some blk \<Rightarrow>
                 let alloc = b + sizeof_private_block;
                     B = malloc_take sz b blk (hp_blocks h);
                     alloc_sz = (case B b of None \<Rightarrow> 0 | Some blk' \<Rightarrow> pb_size blk');
                     used = private_heap_used h + of_nat alloc_sz
                 in Some (Some alloc,
                      h\<lparr>hp_mem := mem_write alloc (replicate sz 0) (hp_mem h),
                        hp_blocks := B,
                        private_heap_used := used,
                        private_heap_hwm := (if used > private_heap_hwm h then used else private_heap_hwm h),
                        private_heap_alloc := private_heap_alloc h + of_nat alloc_sz,
                        private_heap_allocs := private_heap_allocs h + 1\<rparr>)))"

section \<open>Release\<close>

text \<open>
  The search of \<open>sqlcipher_free\<close> over the pair \<open>(prev, block)\<close>: the block whose payload
  starts at \<open>mem\<close>, and the one before it.
\<close>

partial_function (option) free_find ::
    "blocks \<Rightarrow> nat \<Rightarrow> nat option \<times> nat option \<Rightarrow> (nat option \<times> nat) option option" where
  "free_find B mem cur =
     (case snd cur of
        None \<Rightarrow> Some None
      | Some b \<Rightarrow>
          (case B b of
             None \<Rightarrow> None
           | Some blk \<Rightarrow>
               (if mem = b + sizeof_private_block then Some (Some (fst cur, b))
                else free_find B mem (Some b, pb_next blk))))"

text \<open>Merging with a free predecessor, then with a free successor.\<close>

definition free_merge_prev :: "nat option \<Rightarrow> nat \<Rightarrow> blocks \<Rightarrow> (nat \<times> blocks) option" where
  "free_merge_prev prev b B =
     (case prev of
        None \<Rightarrow> Some (b, B)
      | Some p \<Rightarrow>
          (case (B p, B b) of
             (Some pblk, Some blk) \<Rightarrow>
               (if \<not> pb_used pblk
                then Some (p, B(p \<mapsto> pblk\<lparr>pb_size := trunc32 (pb_size pblk + sizeof_private_block + pb_size blk),
                                          pb_next := pb_next blk\<rparr>))
                else Some (b, B))
           | _ \<Rightarrow> None))"

definition free_merge_next :: "nat \<Rightarrow> blocks \<Rightarrow> blocks option" where
  "free_merge_next b B =
     (case B b of
        None \<Rightarrow> None
      | Some blk \<Rightarrow>
          (case pb_next blk of
             None \<Rightarrow> Some B
           | Some n \<Rightarrow>
               (case B n of
                  None \<Rightarrow> None
                | Some nblk \<Rightarrow>
                    (if \<not> pb_used nblk
                     then Some (B(b \<mapsto> blk\<lparr>pb_size := trunc32 (pb_size blk + sizeof_private_block + pb_size nblk),
                                            pb_next := pb_next nblk\<rparr>))
                     else Some B))))"

definition sqlcipher_free :: "nat \<Rightarrow> nat \<Rightarrow> heap \<Rightarrow> heap option" where
  "sqlcipher_free mem sz h =
     (case free_find (hp_blocks h) mem (None, private_heap h) of
        None \<Rightarrow> None
      | Some None \<Rightarrow> Some (sqlcipher_internal_free mem sz h)
      | Some (Some (prev, b)) \<Rightarrow>
          (case hp_blocks h b of
             None \<Rightarrow> None
           | Some blk \<Rightarrow>
               let block_size = pb_size blk;
                   h1 = heap_randomness (b + sizeof_private_block) block_size
                          (h\<lparr>hp_blocks := (hp_blocks h)(b \<mapsto> blk\<lparr>pb_used := False\<rparr>)\<rparr>)
               in (case free_merge_prev prev b (hp_blocks h1) of
                     None \<Rightarrow> None
                   | Some (b', B) \<Rightarrow>
                       (case free_merge_next b' B of
                          None \<Rightarrow> None
                        | Some B' \<Rightarrow>
                            Some (h1\<lparr>hp_blocks := B',
                                     private_heap_used := private_heap_used h1 - of_nat block_size\<rparr>)))))"

end
