(* ===== verification/SC_HeapList.thy ===== *)
theory SC_HeapList
  imports SC_Heap
begin

text \<open>
  The private heap seen as a list of blocks (address, size, in use), and the refinement of
  the pointer code to first-fit allocation and coalescing release on that list.
\<close>

section \<open>The block list\<close>

type_synonym lblock = "nat \<times> nat \<times> bool"

fun chain :: "blocks \<Rightarrow> nat option \<Rightarrow> lblock list \<Rightarrow> bool" where
  "chain B st [] = (st = None)"
| "chain B st ((b, s, u) # bs) =
     (st = Some b \<and> (\<exists>nxt. B b = Some \<lparr>pb_next = nxt, pb_size = s, pb_used = u\<rparr> \<and> chain B nxt bs))"

fun tiles :: "nat \<Rightarrow> lblock list \<Rightarrow> nat \<Rightarrow> bool" where
  "tiles a [] e = (a = e)"
| "tiles a ((b, s, u) # bs) e = (b = a \<and> 0 < s \<and> tiles (a + 16 + s) bs e)"

fun coalesced :: "lblock list \<Rightarrow> bool" where
  "coalesced ((b, s, u) # (b', s', u') # bs) = ((u \<or> u') \<and> coalesced ((b', s', u') # bs))"
| "coalesced bs = True"

definition addrs :: "lblock list \<Rightarrow> nat set" where
  "addrs bs = fst ` set bs"

definition used_sum :: "lblock list \<Rightarrow> nat" where
  "used_sum bs = sum_list (map (\<lambda>(b, s, u). if u then s else 0) bs)"

definition used_blocks :: "lblock list \<Rightarrow> (nat \<times> nat) set" where
  "used_blocks bs = {(b + 16, s) | b s. (b, s, True) \<in> set bs}"

section \<open>Allocation and release on the list\<close>

fun lmalloc :: "nat \<Rightarrow> lblock list \<Rightarrow> (nat \<times> nat \<times> lblock list) option" where
  "lmalloc n [] = None"
| "lmalloc n ((b, s, u) # bs) =
     (if \<not> u \<and> n \<le> s then
        (if n + 48 \<le> s then Some (b, n, (b, n, True) # (b + n + 16, s - n - 16, False) # bs)
         else Some (b, s, (b, s, True) # bs))
      else (case lmalloc n bs of None \<Rightarrow> None | Some (a, z, bs') \<Rightarrow> Some (a, z, (b, s, u) # bs')))"

fun lmerge :: "lblock list \<Rightarrow> lblock list" where
  "lmerge ((b, s, u) # (b', s', u') # bs) =
     (if u' then (b, s, u) # (b', s', u') # bs else (b, s + 16 + s', u) # bs)"
| "lmerge bs = bs"

fun lfree :: "nat \<Rightarrow> lblock list \<Rightarrow> (nat \<times> lblock list) option" where
  "lfree m ((b, s, u) # (b', s', u') # bs) =
     (if m = b + 16 then Some (s, lmerge ((b, s, False) # (b', s', u') # bs))
      else if m = b' + 16 \<and> \<not> u then Some (s', lmerge ((b, s + 16 + s', False) # bs))
      else (case lfree m ((b', s', u') # bs) of None \<Rightarrow> None | Some (z, bs') \<Rightarrow> Some (z, (b, s, u) # bs')))"
| "lfree m [(b, s, u)] = (if m = b + 16 then Some (s, [(b, s, False)]) else None)"
| "lfree m [] = None"

lemma addrs_simps [simp]: "addrs [] = {}" "addrs ((b, s, u) # bs) = insert b (addrs bs)"
  by (simp_all add: addrs_def)

lemma used_sum_simps [simp]:
  "used_sum [] = 0" "used_sum ((b, s, u) # bs) = (if u then s else 0) + used_sum bs"
  by (simp_all add: used_sum_def)

lemma used_blocks_simps [simp]:
  "used_blocks [] = {}"
  "used_blocks ((b, s, u) # bs) = (if u then insert (b + 16, s) (used_blocks bs) else used_blocks bs)"
  by (auto simp: used_blocks_def)

lemma tiles_le: "tiles a bs e \<Longrightarrow> a \<le> e"
  by (induction bs arbitrary: a) fastforce+

lemma tiles_addrs: "tiles a bs e \<Longrightarrow> x \<in> addrs bs \<Longrightarrow> a \<le> x \<and> x + 16 < e"
proof (induction bs arbitrary: a)
  case (Cons t bs)
  obtain b s u where t: "t = (b, s, u)" by (cases t)
  with Cons.prems have "tiles (a + 16 + s) bs e" "0 < s" "b = a" by auto
  with Cons.IH [of "a + 16 + s"] Cons.prems tiles_le [of "a + 16 + s" bs e] t show ?case by auto
qed simp

lemma tiles_notin: "tiles a bs e \<Longrightarrow> x < a \<Longrightarrow> x \<notin> addrs bs"
  using tiles_addrs by fastforce

lemma chain_frame: "chain B st bs \<Longrightarrow> (\<And>x. x \<in> addrs bs \<Longrightarrow> B' x = B x) \<Longrightarrow> chain B' st bs"
  by (induction bs arbitrary: st) fastforce+

lemma chain_update [simp]: "b \<notin> addrs bs \<Longrightarrow> chain (B(b \<mapsto> x)) st bs = chain B st bs"
  by (auto elim!: chain_frame)

lemma chain_lookup: "chain B st bs \<Longrightarrow> (b, s, u) \<in> set bs \<Longrightarrow> \<exists>nxt. B b = Some \<lparr>pb_next = nxt, pb_size = s, pb_used = u\<rparr>"
  by (induction bs arbitrary: st) auto

section \<open>Allocation refines the list\<close>

lemma malloc_find_lmalloc:
  "chain B st bs \<Longrightarrow> malloc_find B n st = Some (map_option fst (lmalloc n bs))"
proof (induction bs arbitrary: st)
  case Nil
  then show ?case by (simp add: malloc_find.simps)
next
  case (Cons t bs)
  obtain b s u where t: "t = (b, s, u)" by (cases t)
  with Cons show ?case by (subst malloc_find.simps) (auto split: option.split)
qed

lemma trunc32_id [simp]: "x < 2 ^ 32 \<Longrightarrow> trunc32 x = x"
  by (simp add: trunc32_def)

lemma tiles_head_bound: "tiles a ((b, s, u) # bs) e \<Longrightarrow> e - a < 2 ^ 32 \<Longrightarrow> s < 2 ^ 32"
  using tiles_le by fastforce

lemma malloc_take_lmalloc:
  assumes "chain B st bs" "tiles a bs e" "e - a < 2 ^ 32" "lmalloc n bs = Some (b, z, bs')" "0 < n"
  shows "\<exists>blk nxt. B b = Some blk \<and> chain (malloc_take n b blk B) st bs'
           \<and> malloc_take n b blk B b = Some \<lparr>pb_next = nxt, pb_size = z, pb_used = True\<rparr>
           \<and> (\<forall>x < a. malloc_take n b blk B x = B x)"
  using assms
proof (induction bs arbitrary: st a bs')
  case (Cons t bs)
  obtain c s u where t: "t = (c, s, u)" by (cases t)
  from Cons.prems t obtain nxt where ch: "chain B nxt bs" "st = Some c" "c = a" "0 < s"
    "tiles (a + 16 + s) bs e" "B a = Some \<lparr>pb_next = nxt, pb_size = s, pb_used = u\<rparr>" by auto
  have s: "s < 2 ^ 32" using tiles_head_bound Cons.prems t by blast
  have ni: "x \<notin> addrs bs" if "x < a + 16 + s" for x using tiles_notin that ch by blast
  show ?case
  proof (cases "\<not> u \<and> n \<le> s")
    case True
    then show ?thesis using Cons.prems t ch s ni
      by (auto simp: malloc_take_def sizeof_private_block_def SQLCIPHER_PRIVATE_HEAP_MIN_SPLIT_SIZE_def Let_def
               split: if_splits)
  next
    case False
    then obtain bs'' where r: "lmalloc n bs = Some (b, z, bs'')" "bs' = (c, s, u) # bs''"
      using Cons.prems t by (auto split: if_splits option.splits)
    have "e - (a + 16 + s) < 2 ^ 32" using Cons.prems by simp
    with Cons.IH [OF ch(1,5) _ r(1) \<open>0 < n\<close>] obtain blk nxt' where
      "B b = Some blk" "chain (malloc_take n b blk B) nxt bs''"
      "malloc_take n b blk B b = Some \<lparr>pb_next = nxt', pb_size = z, pb_used = True\<rparr>"
      "\<forall>x < a + 16 + s. malloc_take n b blk B x = B x" by blast
    then show ?thesis using r ch by auto
  qed
qed simp

lemma lmalloc_tiles:
  "lmalloc n bs = Some (b, z, bs') \<Longrightarrow> tiles a bs e \<Longrightarrow> 0 < n \<Longrightarrow> tiles a bs' e"
  by (induction bs arbitrary: a bs') (auto split: if_splits option.splits simp: algebra_simps)

lemma lmalloc_hd_used: "lmalloc n bs = Some (b, z, bs') \<Longrightarrow> bs = (c, s, True) # cs \<Longrightarrow> \<exists>cs'. bs' = (c, s, True) # cs'"
  by (auto split: option.splits)

lemma lmalloc_cons: "lmalloc n bs = Some (b, z, bs') \<Longrightarrow> bs' \<noteq> []"
  by (cases bs) (auto split: if_splits option.splits)

lemma coalesced_Cons:
  "coalesced ((b, s, u) # bs) \<longleftrightarrow> (case bs of [] \<Rightarrow> True | (b', s', u') # _ \<Rightarrow> u \<or> u') \<and> coalesced bs"
  by (cases bs) (auto split: prod.splits)

lemma lmalloc_coalesced:
  "lmalloc n bs = Some (b, z, bs') \<Longrightarrow> coalesced bs \<Longrightarrow> coalesced bs'"
proof (induction bs arbitrary: bs')
  case (Cons t bs)
  obtain c s u where t: "t = (c, s, u)" by (cases t)
  show ?case
  proof (cases "\<not> u \<and> n \<le> s")
    case True
    with Cons.prems t show ?thesis
      by (cases bs) (auto split: if_splits prod.splits)
  next
    case False
    then obtain bs'' where r: "lmalloc n bs = Some (b, z, bs'')" "bs' = (c, s, u) # bs''"
      using Cons.prems t by (auto split: if_splits option.splits)
    have "coalesced bs''" using Cons.IH r Cons.prems t by (simp add: coalesced_Cons)
    moreover obtain c' s' u' cs where bs: "bs = (c', s', u') # cs" using r by (cases bs) auto
    moreover have "u \<or> u'" using Cons.prems t bs by simp
    moreover obtain c2 s2 u2 cs2 where "bs'' = (c2, s2, u2) # cs2"
      using lmalloc_cons r by (metis list.exhaust prod_cases3)
    ultimately show ?thesis using r lmalloc_hd_used [of n bs b z bs'' c' s' cs]
      by (cases u) (auto simp: coalesced_Cons split: list.splits)
  qed
qed simp

lemma lmalloc_used:
  "lmalloc n bs = Some (b, z, bs') \<Longrightarrow>
     used_sum bs' = used_sum bs + z \<and> used_blocks bs' = insert (b + 16, z) (used_blocks bs) \<and> n \<le> z"
  by (induction bs arbitrary: bs') (auto split: if_splits option.splits)

lemma lmalloc_free_space:
  "lmalloc n bs = Some (b, z, bs') \<Longrightarrow> \<exists>s. (b, s, False) \<in> set bs \<and> z \<le> s"
  by (induction bs arbitrary: bs') (fastforce split: if_splits option.splits)+

lemma lmalloc_None_iff: "lmalloc n bs = None \<longleftrightarrow> (\<forall>(b, s, u) \<in> set bs. u \<or> s < n)"
  by (induction bs) (auto split: if_splits option.splits)


section \<open>Release refines the list\<close>

lemma chain_hd: "chain B st ((b, s, u) # bs) \<Longrightarrow> st = Some b \<and> (\<exists>nxt. B b = Some \<lparr>pb_next = nxt, pb_size = s, pb_used = u\<rparr> \<and> chain B nxt bs)"
  by simp

lemma free_merge_next_lmerge:
  assumes "chain B st ((b, s, u) # bs)" "tiles a ((b, s, u) # bs) e" "e - a < 2 ^ 32"
  shows "\<exists>B'. free_merge_next b B = Some B' \<and> chain B' st (lmerge ((b, s, u) # bs)) \<and> (\<forall>x < a. B' x = B x)"
proof (cases bs)
  case Nil
  with assms show ?thesis by (auto simp: free_merge_next_def)
next
  case (Cons t cs)
  obtain c s' u' where t: "t = (c, s', u')" by (cases t)
  have *: "b = a" "c = a + 16 + s" "tiles (a + 32 + s + s') cs e" using assms Cons t by (auto simp: algebra_simps)
  have "s + 16 + s' < 2 ^ 32" using tiles_le [OF *(3)] assms(3) by simp
  moreover have "x \<notin> addrs cs" if "x \<le> c" for x using that *(2) by (intro tiles_notin [OF *(3)]) simp
  ultimately show ?thesis using assms(1) * Cons t by (auto simp: free_merge_next_def sizeof_private_block_def)
qed


definition release :: "blocks \<Rightarrow> nat \<Rightarrow> nat option \<Rightarrow> nat \<Rightarrow> nat option \<Rightarrow> lblock list \<Rightarrow> nat \<Rightarrow> nat option \<Rightarrow> bool" where
  "release B m p0 z st bs' a cur \<longleftrightarrow>
     (\<exists>prev b blk b' B1 B2. free_find B m (p0, cur) = Some (Some (prev, b)) \<and> B b = Some blk \<and> pb_size blk = z
        \<and> m = b + 16
        \<and> free_merge_prev prev b (B(b \<mapsto> blk\<lparr>pb_used := False\<rparr>)) = Some (b', B1)
        \<and> free_merge_next b' B1 = Some B2 \<and> chain B2 st bs' \<and> (\<forall>x < a. B2 x = B x))"

lemma release_here:
  assumes "chain B st ((b, s, u) # bs)" "tiles a ((b, s, u) # bs) e" "e - a < 2 ^ 32"
    and "case p0 of None \<Rightarrow> True | Some p \<Rightarrow> p < a \<and> (\<exists>pb. B p = Some pb \<and> pb_used pb)"
  shows "release B (b + 16) p0 s st (lmerge ((b, s, False) # bs)) a st"
proof -
  from assms(1,2) obtain nxt where h: "st = Some b" "B b = Some \<lparr>pb_next = nxt, pb_size = s, pb_used = u\<rparr>"
    "chain B nxt bs" "b = a" by auto
  let ?B = "B(b \<mapsto> \<lparr>pb_next = nxt, pb_size = s, pb_used = False\<rparr>)"
  have "b \<notin> addrs bs" using assms(2) tiles_notin [of "a + 16 + s" bs e b] by simp
  then have c: "chain ?B st ((b, s, False) # bs)" using h by simp
  have t: "tiles a ((b, s, False) # bs) e" using assms(2) by simp
  from free_merge_next_lmerge [OF c t assms(3)] obtain B2 where
    B2: "free_merge_next b ?B = Some B2" "chain B2 st (lmerge ((b, s, False) # bs))" "\<forall>x < a. B2 x = ?B x" by blast
  moreover have "free_merge_prev p0 b ?B = Some (b, ?B)"
    using assms(4) h by (auto simp: free_merge_prev_def split: option.splits)
  moreover have "free_find B (b + 16) (p0, st) = Some (Some (p0, b))"
    using h by (subst free_find.simps) (simp add: sizeof_private_block_def)
  ultimately show ?thesis using h by (auto simp: release_def)
qed

lemma release_merged:
  assumes "chain B st ((b, s, False) # (c, s', u') # bs)" "tiles a ((b, s, False) # (c, s', u') # bs) e" "e - a < 2 ^ 32"
  shows "release B (c + 16) p0 s' st (lmerge ((b, s + 16 + s', False) # bs)) a st"
proof -
  from assms(1,2) obtain nxt where h: "st = Some b" "B b = Some \<lparr>pb_next = Some c, pb_size = s, pb_used = False\<rparr>"
    "B c = Some \<lparr>pb_next = nxt, pb_size = s', pb_used = u'\<rparr>" "chain B nxt bs" "b = a" "c = a + 16 + s" by auto
  let ?B = "B(c \<mapsto> \<lparr>pb_next = nxt, pb_size = s', pb_used = False\<rparr>)"
  let ?B1 = "?B(b \<mapsto> \<lparr>pb_next = nxt, pb_size = s + 16 + s', pb_used = False\<rparr>)"
  have t: "tiles a ((b, s + 16 + s', False) # bs) e" using assms(2) by (simp add: algebra_simps)
  have "b \<notin> addrs bs" "c \<notin> addrs bs" using t h tiles_notin [of "a + 16 + (s + 16 + s')" bs e] by simp_all
  then have c: "chain ?B1 st ((b, s + 16 + s', False) # bs)" using h by simp
  from free_merge_next_lmerge [OF c t assms(3)] obtain B2 where
    B2: "free_merge_next b ?B1 = Some B2" "chain B2 st (lmerge ((b, s + 16 + s', False) # bs))" "\<forall>x < a. B2 x = ?B1 x" by blast
  moreover have "s + 16 + s' < 2 ^ 32" using tiles_head_bound [OF t assms(3)] .
  then have "free_merge_prev (Some b) c ?B = Some (b, ?B1)"
    using h by (simp add: free_merge_prev_def sizeof_private_block_def)
  moreover have "free_find B (c + 16) (p0, st) = Some (Some (Some b, c))"
    using h by (subst free_find.simps, simp add: sizeof_private_block_def)
      (subst free_find.simps, simp add: sizeof_private_block_def)
  ultimately show ?thesis using h by (auto simp: release_def)
qed

lemma release_Cons:
  assumes "release B m (Some b) z nxt bs' a' nxt" "B b = Some \<lparr>pb_next = nxt, pb_size = s, pb_used = u\<rparr>"
    "m \<noteq> b + 16" "b < a'" "a \<le> b"
  shows "release B m p0 z (Some b) ((b, s, u) # bs') a (Some b)"
proof -
  have "free_find B m (p0, Some b) = free_find B m (Some b, nxt)"
    using assms(2,3) by (subst free_find.simps) (simp add: sizeof_private_block_def)
  with assms show ?thesis unfolding release_def by fastforce
qed

lemma lfree_release:
  assumes "lfree m bs = Some (z, bs')" "chain B st bs" "tiles a bs e" "e - a < 2 ^ 32"
    and "case p0 of None \<Rightarrow> True | Some p \<Rightarrow> p < a \<and> (m = a + 16 \<longrightarrow> (\<exists>pb. B p = Some pb \<and> pb_used pb))"
  shows "release B m p0 z st bs' a st"
  using assms
proof (induction m bs arbitrary: bs' st a p0 rule: lfree.induct)
  case (1 m b s u c s' u' bs)
  show ?case
  proof (cases "m = b + 16 \<or> (m = c + 16 \<and> \<not> u)")
    case True
    with 1 release_here [of B st b s u "(c, s', u') # bs" a e p0] release_merged [of B st b s c s' u' bs a e p0]
    show ?thesis by (auto split: if_splits option.splits simp del: chain.simps)
  next
    case False
    with "1.prems"(1) obtain cs where r: "lfree m ((c, s', u') # bs) = Some (z, cs)" "bs' = (b, s, u) # cs"
      by (auto split: if_splits option.splits)
    from "1.prems" obtain nxt where h: "st = Some b" "B b = Some \<lparr>pb_next = nxt, pb_size = s, pb_used = u\<rparr>"
      "chain B nxt ((c, s', u') # bs)" "tiles (a + 16 + s) ((c, s', u') # bs) e" "b = a" "0 < s" by auto
    have "release B m (Some b) z nxt cs (a + 16 + s) nxt"
      using "1.IH" [OF _ _ r(1) h(3,4)] False h "1.prems"(4) by (auto simp: h(2))
    from release_Cons [OF this h(2)] False h r show ?thesis by simp
  qed
next
  case (2 m b s u)
  then show ?case using release_here [of B st b s u "[]" a e p0] by (auto split: if_splits option.splits)
qed simp

section \<open>Release keeps the list well formed\<close>

lemma lmerge_tiles: "tiles a bs e \<Longrightarrow> tiles a (lmerge bs) e"
  by (induction bs rule: lmerge.induct) (auto simp: algebra_simps)

lemma lfree_tiles: "lfree m bs = Some (z, bs') \<Longrightarrow> tiles a bs e \<Longrightarrow> tiles a bs' e"
proof (induction m bs arbitrary: bs' a rule: lfree.induct)
  case (1 m b s u c s' u' bs)
  then show ?case
    using lmerge_tiles [of a "(b, s, False) # (c, s', u') # bs" e] lmerge_tiles [of a "(b, s + 16 + s', False) # bs" e]
    by (auto split: if_splits option.splits simp: algebra_simps)
qed (auto split: if_splits)

lemma lfree_hd_used:
  "lfree m ((c, s, True) # bs) = Some (z, bs') \<Longrightarrow> m \<noteq> c + 16 \<Longrightarrow> \<exists>cs. bs' = (c, s, True) # cs"
  by (cases bs) (auto split: option.splits)

lemma lfree_coalesced: "lfree m bs = Some (z, bs') \<Longrightarrow> coalesced bs \<Longrightarrow> coalesced bs'"
proof (induction m bs arbitrary: bs' rule: lfree.induct)
  case (1 m b s u c s' u' bs)
  show ?case
  proof (cases "m = b + 16 \<or> (m = c + 16 \<and> \<not> u)")
    case True
    with 1 show ?thesis by (cases bs) (auto split: if_splits list.splits simp: coalesced_Cons)
  next
    case False
    with "1.prems"(1) obtain cs where r: "lfree m ((c, s', u') # bs) = Some (z, cs)" "bs' = (b, s, u) # cs"
      by (auto split: if_splits option.splits)
    with "1.IH" "1.prems" False have "coalesced cs" by auto
    with r False "1.prems"(2) lfree_hd_used [of m c s' bs z cs] show ?thesis
      by (auto simp: coalesced_Cons split: list.splits)
  qed
qed (auto split: if_splits)


lemma lmerge_used:
  "bs \<noteq> [] \<Longrightarrow> \<not> snd (snd (hd bs)) \<Longrightarrow> used_sum (lmerge bs) = used_sum bs \<and> used_blocks (lmerge bs) = used_blocks bs"
  by (induction bs rule: lmerge.induct) auto

lemma used_blocks_tiles: "tiles a bs e \<Longrightarrow> (p, s) \<in> used_blocks bs \<Longrightarrow> a + 16 \<le> p \<and> p + s \<le> e"
proof (induction bs arbitrary: a)
  case (Cons t bs)
  obtain c z u where t: "t = (c, z, u)" by (cases t)
  with Cons.prems have *: "tiles (a + 16 + z) bs e" by auto
  show ?case using Cons.IH [OF *] Cons.prems t tiles_le [OF *] by (auto split: if_splits)
qed simp

lemma lfree_used:
  assumes "tiles a bs e" "(m, s) \<in> used_blocks bs"
  shows "\<exists>bs'. lfree m bs = Some (s, bs') \<and> used_sum bs' + s = used_sum bs \<and> used_blocks bs' = used_blocks bs - {(m, s)}"
  using assms
proof (induction m bs arbitrary: a rule: lfree.induct)
  case (1 m b z u c z' u' bs)
  have t: "tiles (a + 16 + z) ((c, z', u') # bs) e" "b = a" "c = a + 16 + z" "tiles (c + 16 + z') bs e" "0 < z" "0 < z'"
    using "1.prems"(1) by auto
  have out: "(x, y) \<notin> used_blocks bs" if "x < c + 32" for x y
    using used_blocks_tiles [OF t(4), of x y] that by auto
  show ?case
  proof (cases "m = b + 16 \<or> (m = c + 16 \<and> \<not> u)")
    case True
    with "1.prems"(2) t out lmerge_used [of "(b, z, False) # (c, z', u') # bs"] lmerge_used [of "(b, z + 16 + z', False) # bs"]
    show ?thesis by (auto split: if_splits simp del: lmerge.simps)
  next
    case False
    with "1.prems" have "(m, s) \<in> used_blocks ((c, z', u') # bs)" by (auto split: if_splits)
    with "1.IH" [OF _ _ t(1)] False obtain cs where
      "lfree m ((c, z', u') # bs) = Some (s, cs)" "used_sum cs + s = used_sum ((c, z', u') # bs)"
      "used_blocks cs = used_blocks ((c, z', u') # bs) - {(m, s)}" by auto
    with False show ?thesis by auto
  qed
qed (auto split: if_splits)

lemma used_blocks_disjoint:
  "tiles a bs e \<Longrightarrow> (p, s) \<in> used_blocks bs \<Longrightarrow> (q, t) \<in> used_blocks bs \<Longrightarrow> (p, s) \<noteq> (q, t) \<Longrightarrow> p + s \<le> q \<or> q + t \<le> p"
proof (induction bs arbitrary: a)
  case (Cons x bs)
  obtain c z u where x: "x = (c, z, u)" by (cases x)
  with Cons.prems have t: "tiles (a + 16 + z) bs e" "c = a" by auto
  with Cons x used_blocks_tiles [OF t(1), of p s] used_blocks_tiles [OF t(1), of q t]
  show ?case by (auto split: if_splits)
qed simp

definition aligned :: "lblock list \<Rightarrow> bool" where
  "aligned bs \<longleftrightarrow> (\<forall>(b, s, u) \<in> set bs. 8 dvd b \<and> 8 dvd s)"

lemma aligned_simps [simp]: "aligned []" "aligned ((b, s, u) # bs) \<longleftrightarrow> 8 dvd b \<and> 8 dvd s \<and> aligned bs"
  by (auto simp: aligned_def)

lemma lmalloc_aligned: "lmalloc n bs = Some (b, z, bs') \<Longrightarrow> aligned bs \<Longrightarrow> 8 dvd n \<Longrightarrow> aligned bs' \<and> 8 dvd b"
  by (induction bs arbitrary: bs') (auto split: if_splits option.splits)

lemma lmerge_aligned: "aligned bs \<Longrightarrow> aligned (lmerge bs)"
  by (induction bs rule: lmerge.induct) auto

lemma lfree_aligned: "lfree m bs = Some (z, bs') \<Longrightarrow> aligned bs \<Longrightarrow> aligned bs'"
proof (induction m bs arbitrary: bs' rule: lfree.induct)
  case (1 m b s u c s' u' bs)
  then show ?case
    using lmerge_aligned [of "(b, s, False) # (c, s', u') # bs"] lmerge_aligned [of "(b, s + 16 + s', False) # bs"]
    by (auto split: if_splits option.splits simp del: lmerge.simps)
qed (auto split: if_splits)

lemma free_find_None: "chain B st bs \<Longrightarrow> (\<And>b. b \<in> addrs bs \<Longrightarrow> m \<noteq> b + 16) \<Longrightarrow> free_find B m (p0, st) = Some None"
proof (induction bs arbitrary: st p0)
  case Nil
  then show ?case by (simp add: free_find.simps)
next
  case (Cons t bs)
  obtain b s u where t: "t = (b, s, u)" by (cases t)
  from Cons.prems(1) t obtain nxt where h: "st = Some b" "B b = Some \<lparr>pb_next = nxt, pb_size = s, pb_used = u\<rparr>"
    "chain B nxt bs" by auto
  have "free_find B m (Some b, nxt) = Some None" using Cons.IH [OF h(3)] Cons.prems(2) t by simp
  then show ?case using h Cons.prems(2) t by (subst free_find.simps) (simp add: sizeof_private_block_def)
qed

text \<open>With nothing in use the heap is one free block: releases lose no space to fragmentation.\<close>

lemma all_free_single:
  "tiles a bs e \<Longrightarrow> coalesced bs \<Longrightarrow> used_blocks bs = {} \<Longrightarrow> a < e \<Longrightarrow> bs = [(a, e - a - 16, False)]"
  by (induction bs rule: coalesced.induct) (auto split: if_splits)

end
