(* ===== verification/SC_Allocator.thy ===== *)
theory SC_Allocator
  imports SC_HeapList "HOL-Library.Multiset"
begin

text \<open>
  The private heap as an allocator: its invariant, the set of live blocks a client sees, the
  contract of allocation and release, and the heap's proof that it keeps the contract.
\<close>

section \<open>The view of a heap\<close>

fun walk :: "nat \<Rightarrow> blocks \<Rightarrow> nat option \<Rightarrow> lblock list" where
  "walk 0 B st = []"
| "walk (Suc n) B None = []"
| "walk (Suc n) B (Some b) =
     (case B b of None \<Rightarrow> [] | Some blk \<Rightarrow> (b, pb_size blk, pb_used blk) # walk n B (pb_next blk))"

definition heap_view :: "heap \<Rightarrow> lblock list" where
  "heap_view h = walk (private_heap_sz h) (hp_blocks h) (private_heap h)"

definition apart :: "nat \<times> nat \<Rightarrow> nat \<times> nat \<Rightarrow> bool" where
  "apart x y \<longleftrightarrow> fst x + snd x \<le> fst y \<or> fst y + snd y \<le> fst x"

text \<open>What is assumed of the system allocator: blocks are aligned and overlap no live one.\<close>

definition sys_malloc_ok :: "(nat \<Rightarrow> (nat \<Rightarrow> nat option) \<Rightarrow> nat \<Rightarrow> nat option) \<Rightarrow> bool" where
  "sys_malloc_ok f \<longleftrightarrow>
     (\<forall>n L sz p. f n L sz = Some p \<longrightarrow> 8 dvd p \<and> (\<forall>q t. L q = Some t \<longrightarrow> apart (p, sz) (q, t)))"

definition sys_inv :: "(nat \<Rightarrow> nat option) \<Rightarrow> bool" where
  "sys_inv L \<longleftrightarrow> (\<forall>p t. L p = Some t \<longrightarrow> 0 < t)
     \<and> (\<forall>p t q r. L p = Some t \<longrightarrow> L q = Some r \<longrightarrow> p \<noteq> q \<longrightarrow> apart (p, t) (q, r))"

definition region_inv :: "heap \<Rightarrow> lblock list \<Rightarrow> bool" where
  "region_inv h bs \<longleftrightarrow>
     (private_heap h = None \<longrightarrow> bs = [])
     \<and> (\<forall>a. private_heap h = Some a \<longrightarrow>
           bs \<noteq> [] \<and> tiles a bs (a + private_heap_sz h) \<and> sys_live h a = Some (private_heap_sz h))"

definition heap_inv_of :: "heap \<Rightarrow> lblock list \<Rightarrow> bool" where
  "heap_inv_of h bs \<longleftrightarrow> sys_malloc_ok (sys_malloc h) \<and> sys_inv (sys_live h)
     \<and> chain (hp_blocks h) (private_heap h) bs \<and> region_inv h bs \<and> private_heap_sz h < 2 ^ 32
     \<and> coalesced bs \<and> aligned bs
     \<and> unat (private_heap_used h) = used_sum bs \<and> private_heap_used h \<le> private_heap_hwm h"

definition heap_inv :: "heap \<Rightarrow> bool" where
  "heap_inv h \<longleftrightarrow> heap_inv_of h (heap_view h)"

definition live :: "heap \<Rightarrow> (nat \<times> nat) set" where
  "live h = used_blocks (heap_view h) \<union> {(p, t). sys_live h p = Some t \<and> private_heap h \<noteq> Some p}"

lemma walk_chain: "chain B st bs \<Longrightarrow> length bs \<le> n \<Longrightarrow> walk n B st = bs"
proof (induction bs arbitrary: st n)
  case Nil
  then show ?case by (cases n) auto
next
  case (Cons t bs)
  obtain b s u where t: "t = (b, s, u)" by (cases t)
  with Cons show ?case by (cases n) auto
qed

lemma tiles_length: "tiles a bs e \<Longrightarrow> a + length bs \<le> e"
  by (induction bs arbitrary: a) fastforce+

lemma heap_view_unique: "chain (hp_blocks h) (private_heap h) bs \<Longrightarrow> region_inv h bs \<Longrightarrow> heap_view h = bs"
  unfolding heap_view_def region_inv_def
  by (rule walk_chain) (cases "private_heap h"; auto dest: tiles_length)+

lemma heap_inv_intro: "heap_inv_of h bs \<Longrightarrow> heap_inv h \<and> heap_view h = bs"
  unfolding heap_inv_def using heap_view_unique [of h bs] by (auto simp: heap_inv_of_def)

lemma apart_commute: "apart x y \<longleftrightarrow> apart y x"
  by (auto simp: apart_def)

lemma apart_sub: "apart (a, n) y \<Longrightarrow> a \<le> q \<Longrightarrow> q + s \<le> a + n \<Longrightarrow> apart (q, s) y"
  by (auto simp: apart_def)

lemma used_sum_tiles: "tiles a bs e \<Longrightarrow> used_sum bs \<le> e - a"
proof (induction bs arbitrary: a)
  case (Cons t bs)
  obtain b s u where t: "t = (b, s, u)" by (cases t)
  with Cons.prems have "tiles (a + 16 + s) bs e" by auto
  with Cons.IH [OF this] tiles_le [OF this] t show ?case by auto
qed simp

lemma region_used_sum: "region_inv h bs \<Longrightarrow> used_sum bs \<le> private_heap_sz h"
  by (cases "private_heap h") (auto simp: region_inv_def dest: used_sum_tiles)

lemma region_blocks_inside:
  "region_inv h bs \<Longrightarrow> (p, s) \<in> used_blocks bs \<Longrightarrow>
     \<exists>a. private_heap h = Some a \<and> sys_live h a = Some (private_heap_sz h) \<and> a + 16 \<le> p \<and> p + s \<le> a + private_heap_sz h"
  by (cases "private_heap h") (auto simp: region_inv_def dest: used_blocks_tiles)

lemma roundup_bounds: "n \<le> SQLCIPHER_PRIVATE_HEAP_ROUNDUP n \<and> SQLCIPHER_PRIVATE_HEAP_ROUNDUP n < n + 8 \<and> 8 dvd SQLCIPHER_PRIVATE_HEAP_ROUNDUP n"
  unfolding SQLCIPHER_PRIVATE_HEAP_ROUNDUP_def SQLCIPHER_PRIVATE_HEAP_ALIGNMENT_def
  by (cases "n mod 8 = 0") (simp_all add: mod_eq_0_iff_dvd, presburger)

lemma mem_write_outside: "x < p \<or> p + length bs \<le> x \<Longrightarrow> mem_write p bs m x = m x"
  by (auto simp: mem_write_def)

lemma mem_write_zero: "p \<le> x \<Longrightarrow> x < p + n \<Longrightarrow> mem_write p (replicate n 0) m x = 0"
  by (auto simp: mem_write_def)

lemma heap_randomness_frame:
  "heap_randomness p n h = h\<lparr>hp_mem := hp_mem (heap_randomness p n h), hp_rng := hp_rng (heap_randomness p n h)\<rparr>"
  by (simp add: heap_randomness_def case_prod_unfold Let_def)

lemma heap_randomness_outside: "x < p \<or> p + n \<le> x \<Longrightarrow> hp_mem (heap_randomness p n h) x = hp_mem h x"
  by (simp add: heap_randomness_def case_prod_unfold Let_def mem_write_outside xoshiro_randomness_length)


text \<open>Every live block lies in a block of the system allocator.\<close>

lemma live_cases:
  assumes "heap_inv_of h (heap_view h)" "y \<in> live h"
  shows "\<exists>q t. sys_live h q = Some t \<and> q \<le> fst y \<and> fst y + snd y \<le> q + t"
proof (cases "y \<in> used_blocks (heap_view h)")
  case True
  with assms(1) region_blocks_inside [of h "heap_view h" "fst y" "snd y"] show ?thesis
    by (auto simp: heap_inv_of_def intro: add_leD1)
next
  case False
  with assms(2) show ?thesis by (intro exI [of _ "fst y"] exI [of _ "snd y"]) (auto simp: live_def)
qed

section \<open>Allocation\<close>

text \<open>What a client sees of one allocation: \<open>alloc_post n h p h'\<close>.\<close>

definition alloc_post :: "nat \<Rightarrow> heap \<Rightarrow> nat \<Rightarrow> heap \<Rightarrow> bool" where
  "alloc_post n h p h' \<longleftrightarrow>
     (\<exists>z. n \<le> z \<and> live h' = insert (p, z) (live h) \<and> (\<forall>y \<in> live h. apart (p, z) y) \<and> 8 dvd p
        \<and> (\<forall>x. p \<le> x \<and> x < p + n \<longrightarrow> hp_mem h' x = 0)
        \<and> (\<forall>x. x < p \<or> p + z \<le> x \<longrightarrow> hp_mem h' x = hp_mem h x))"

lemma alloc_post_mono: "alloc_post z h p h' \<Longrightarrow> n \<le> z \<Longrightarrow> alloc_post n h p h'"
proof -
  assume "alloc_post z h p h'" "n \<le> z"
  then obtain y where "z \<le> y" "live h' = insert (p, y) (live h)" "\<forall>q \<in> live h. apart (p, y) q" "8 dvd p"
    "\<forall>x. p \<le> x \<and> x < p + z \<longrightarrow> hp_mem h' x = 0" "\<forall>x. x < p \<or> p + y \<le> x \<longrightarrow> hp_mem h' x = hp_mem h x"
    unfolding alloc_post_def by blast
  with \<open>n \<le> z\<close> show "alloc_post n h p h'" unfolding alloc_post_def by (intro exI [of _ y]) auto
qed

lemma sys_inv_insert:
  "sys_inv L \<Longrightarrow> 0 < sz \<Longrightarrow> (\<And>q t. L q = Some t \<Longrightarrow> apart (p, sz) (q, t)) \<Longrightarrow> L p = None \<and> sys_inv (L(p \<mapsto> sz))"
proof -
  assume a: "sys_inv L" "0 < sz" and d: "\<And>q t. L q = Some t \<Longrightarrow> apart (p, sz) (q, t)"
  have "L p = None" using a d [of p] by (cases "L p") (auto simp: sys_inv_def apart_def)
  moreover have "apart (q, t) (p, sz)" if "L q = Some t" for q t using d [OF that] by (auto simp: apart_def)
  ultimately show ?thesis using a d by (auto simp: sys_inv_def)
qed

lemma internal_malloc_inv:
  assumes "heap_inv h" "0 < sz" "sqlcipher_internal_malloc sz h = (r, h')"
  shows "heap_inv h' \<and> heap_view h' = heap_view h
    \<and> (\<forall>p. r = Some p \<longrightarrow> sys_live h' p = Some sz \<and> private_heap h' \<noteq> Some p) \<and> (case r of None \<Rightarrow> live h' = live h | Some p \<Rightarrow> alloc_post sz h p h')"
proof (cases "sys_malloc h (sys_calls h) (sys_live h) sz")
  case None
  then have h': "r = None" "h' = h\<lparr>sys_calls := sys_calls h + 1\<rparr>"
    using assms(3) by (auto simp: sqlcipher_internal_malloc_def sqlite3_malloc64_def)
  have "heap_inv_of h' (heap_view h)"
    using assms(1) unfolding heap_inv_def h' by (simp add: heap_inv_of_def region_inv_def)
  from heap_inv_intro [OF this] show ?thesis by (simp add: h' live_def)
next
  case (Some p)
  then have h': "r = Some p" "h' = h\<lparr>sys_calls := sys_calls h + 1, sys_live := (sys_live h)(p \<mapsto> sz),
      hp_mem := mem_write p (replicate sz 0) (hp_mem h)\<rparr>"
    using assms(3) by (auto simp: sqlcipher_internal_malloc_def sqlite3_malloc64_def)
  have i: "heap_inv_of h (heap_view h)" using assms(1) by (simp add: heap_inv_def)
  have ok: "8 dvd p" "\<And>q t. sys_live h q = Some t \<Longrightarrow> apart (p, sz) (q, t)"
    using i Some unfolding heap_inv_of_def sys_malloc_ok_def by blast+
  have new: "sys_live h p = None" "sys_inv ((sys_live h)(p \<mapsto> sz))"
    using sys_inv_insert [OF _ assms(2) ok(2)] i by (auto simp: heap_inv_of_def)
  have np: "private_heap h \<noteq> Some p" using i new by (auto simp: heap_inv_of_def region_inv_def)
  have "heap_inv_of h' (heap_view h)"
    using i new np unfolding h' by (auto simp: heap_inv_of_def region_inv_def)
  note v = heap_inv_intro [OF this]
  have "live h' = insert (p, sz) (live h)" using v new np by (auto simp: live_def h' split: if_splits)
  moreover have "apart (p, sz) y" if "y \<in> live h" for y
    using live_cases [OF i that] ok(2) apart_sub apart_commute by (metis prod.collapse)
  ultimately show ?thesis using v ok h' np mem_write_zero mem_write_outside [where bs = "replicate sz 0"]
    by (auto simp: alloc_post_def)
qed

lemma tiles_distinct: "tiles a bs e \<Longrightarrow> distinct (map fst bs)"
proof (induction bs arbitrary: a)
  case (Cons t bs)
  obtain b s u where t: "t = (b, s, u)" by (cases t)
  with Cons tiles_notin [of "a + 16 + s" bs e b] show ?case by (auto simp: addrs_def)
qed simp

lemma lmalloc_disjoint:
  assumes "lmalloc n bs = Some (b, z, bs')" "tiles a bs e" "0 < n" "y \<in> used_blocks bs"
  shows "apart (b + 16, z) y"
proof -
  obtain s where "(b, s, False) \<in> set bs" using lmalloc_free_space [OF assms(1)] by blast
  then have "(b, z, True) \<notin> set bs" using tiles_distinct [OF assms(2)] by (metis Pair_inject eq_key_imp_eq_value)
  then have "y \<noteq> (b + 16, z)" using assms(4) by (auto simp: used_blocks_def)
  then show ?thesis
    using used_blocks_disjoint [OF lmalloc_tiles [OF assms(1-3)], of "b + 16" z "fst y" "snd y"]
      lmalloc_used [OF assms(1)] assms(4) by (auto simp: apart_def)
qed

lemma malloc_block_inv:
  assumes "heap_inv h" "0 < n" "8 dvd n" "lmalloc n (heap_view h) = Some (b, z, bs')"
    and "chain B (private_heap h) bs'" "m = mem_write (b + 16) (replicate n 0) (hp_mem h)"
    and "h' = h\<lparr>hp_mem := m, hp_blocks := B, private_heap_used := private_heap_used h + of_nat z,
                private_heap_hwm := max (private_heap_used h + of_nat z) (private_heap_hwm h),
                private_heap_alloc := x, private_heap_allocs := y\<rparr>"
  shows "heap_inv h' \<and> heap_view h' = bs' \<and> alloc_post n h (b + 16) h'"
proof -
  have i: "heap_inv_of h (heap_view h)" using assms(1) by (simp add: heap_inv_def)
  note u = lmalloc_used [OF assms(4)]
  have r: "region_inv h bs'"
    using i assms(2,4) lmalloc_tiles lmalloc_cons [OF assms(4)]
    by (auto simp: heap_inv_of_def region_inv_def)
  then have r': "region_inv h' bs'" by (simp add: region_inv_def assms(7))
  have le: "used_sum (heap_view h) + z < 2 ^ 32" using region_used_sum [OF r] u i by (simp add: heap_inv_of_def)
  then have "unat (private_heap_used h + of_nat z) = used_sum bs'"
    using u i unat_add_lem [of "private_heap_used h" "of_nat z"] by (simp add: heap_inv_of_def unat_of_nat)
  then have "heap_inv_of h' bs'"
    using i r' assms(5) lmalloc_coalesced [OF assms(4)] lmalloc_aligned [OF assms(4) _ assms(3)]
    by (simp add: heap_inv_of_def assms(7))
  note v = heap_inv_intro [OF this]
  have l: "live h' = insert (b + 16, z) (live h)" using v u by (auto simp: live_def assms(7))
  have "apart (b + 16, z) y" if "y \<in> live h" for y
  proof (cases "y \<in> used_blocks (heap_view h)")
    case True
    then show ?thesis using i lmalloc_disjoint [OF assms(4) _ assms(2) True]
      by (cases "private_heap h") (auto simp: heap_inv_of_def region_inv_def)
  next
    case False
    then have "sys_live h (fst y) = Some (snd y)" "private_heap h \<noteq> Some (fst y)" using that by (auto simp: live_def)
    moreover obtain a where a: "private_heap h = Some a" "sys_live h a = Some (private_heap_sz h)"
      "a \<le> b + 16" "b + 16 + z \<le> a + private_heap_sz h"
      using region_blocks_inside [OF r, of "b + 16" z] u by auto
    ultimately have "apart (a, private_heap_sz h) y" using i unfolding heap_inv_of_def sys_inv_def by (metis prod.collapse)
    then show ?thesis using a apart_sub by blast
  qed
  moreover have "8 dvd b + 16" using lmalloc_aligned [OF assms(4) _ assms(3)] i by (auto simp: heap_inv_of_def)
  ultimately show ?thesis using v l u mem_write_zero mem_write_outside [where bs = "replicate n 0"]
    by (auto simp: alloc_post_def assms(6,7))
qed


text \<open>
  The block list after an allocation: first fit on the list when a block fits, unchanged when
  the request goes to the system allocator or is refused.
\<close>

definition malloc_view :: "nat \<Rightarrow> heap \<Rightarrow> nat option \<Rightarrow> heap \<Rightarrow> bool" where
  "malloc_view n h r h' \<longleftrightarrow>
     (if n < 1 \<or> SQLITE_MAX_LENGTH < n then r = None \<and> h' = h
      else case lmalloc (SQLCIPHER_PRIVATE_HEAP_ROUNDUP n) (heap_view h) of
          None \<Rightarrow> heap_view h' = heap_view h
            \<and> (\<forall>p. r = Some p \<longrightarrow> sys_live h' p = Some (SQLCIPHER_PRIVATE_HEAP_ROUNDUP n) \<and> private_heap h' \<noteq> Some p)
        | Some (b, z, bs') \<Rightarrow> heap_view h' = bs' \<and> r = Some (b + 16)
            \<and> sys_live h' = sys_live h \<and> private_heap_overflows h' = private_heap_overflows h)"

lemma sqlcipher_malloc_post:
  assumes "heap_inv h"
  shows "\<exists>r h'. sqlcipher_malloc n h = Some (r, h') \<and> heap_inv h'
           \<and> (case r of None \<Rightarrow> live h' = live h | Some p \<Rightarrow> 0 < n \<and> alloc_post n h p h')
           \<and> malloc_view n h r h'"
proof (cases "n < 1 \<or> SQLITE_MAX_LENGTH < n")
  case True
  then show ?thesis using assms by (auto simp: sqlcipher_malloc_def malloc_view_def)
next
  case False
  define z where "z = SQLCIPHER_PRIVATE_HEAP_ROUNDUP n"
  have z: "n \<le> z" "0 < z" "8 dvd z" using roundup_bounds [of n] False by (auto simp: z_def)
  have mono: "alloc_post n h p h'" if "alloc_post z h p h'" for p h'
    using that z(1) alloc_post_mono by blast
  have i: "heap_inv_of h (heap_view h)" using assms by (simp add: heap_inv_def)
  then have ch: "chain (hp_blocks h) (private_heap h) (heap_view h)" by (simp add: heap_inv_of_def)
  show ?thesis
  proof (cases "lmalloc z (heap_view h)")
    case None
    let ?h = "h\<lparr>private_heap_overflow := private_heap_overflow h + of_nat z, private_heap_overflows := private_heap_overflows h + 1\<rparr>"
    obtain r h' where r: "sqlcipher_internal_malloc z ?h = (r, h')" by (cases "sqlcipher_internal_malloc z ?h")
    have "heap_inv_of ?h (heap_view h)" using i by (simp add: heap_inv_of_def region_inv_def)
    note v = heap_inv_intro [OF this]
    have l: "live ?h = live h" "alloc_post z ?h p h' = alloc_post z h p h'" for p
      using v by (auto simp: live_def alloc_post_def)
    have "sqlcipher_malloc n h = Some (r, h')"
      using False None malloc_find_lmalloc [OF ch, of z] r by (simp add: sqlcipher_malloc_def z_def [symmetric] Let_def)
    then show ?thesis using internal_malloc_inv [OF conjunct1 [OF v] z(2) r] mono l v False None
      by (cases r) (auto simp: malloc_view_def z_def [symmetric])
  next
    case (Some t)
    obtain b s bs' where t: "lmalloc z (heap_view h) = Some (b, s, bs')" using Some by (cases t) auto
    obtain a where a: "tiles a (heap_view h) (a + private_heap_sz h)"
      using i t by (cases "private_heap h") (auto simp: heap_inv_of_def region_inv_def)
    obtain blk nxt where m: "hp_blocks h b = Some blk" "chain (malloc_take z b blk (hp_blocks h)) (private_heap h) bs'"
      "malloc_take z b blk (hp_blocks h) b = Some \<lparr>pb_next = nxt, pb_size = s, pb_used = True\<rparr>"
      using malloc_take_lmalloc [OF ch a _ t z(2)] i by (auto simp: heap_inv_of_def)
    have mx: "(if y < x then x else y) = max x y" for x y :: u64 by (auto simp: max_def)
    show ?thesis using malloc_block_inv [OF assms z(2,3) t m(2) refl refl] m mono t False malloc_find_lmalloc [OF ch, of z]
      by (simp add: sqlcipher_malloc_def malloc_view_def z_def [symmetric] sizeof_private_block_def Let_def mx)
  qed
qed


section \<open>Release\<close>

text \<open>A released block is overwritten with pseudo-random bytes and nothing else changes.\<close>

definition wiped :: "nat \<Rightarrow> nat \<Rightarrow> heap \<Rightarrow> heap \<Rightarrow> bool" where
  "wiped p n h h' \<longleftrightarrow> hp_mem h' = mem_write p (fst (xoshiro_randomness (hp_rng_addr h) (hp_rng h) n)) (hp_mem h)"

lemma wiped_outside: "wiped p n h h' \<Longrightarrow> x < p \<or> p + n \<le> x \<Longrightarrow> hp_mem h' x = hp_mem h x"
  unfolding wiped_def by (simp add: mem_write_outside xoshiro_randomness_length)

lemma internal_free_inv:
  assumes "heap_inv h" "sys_live h p = Some z" "private_heap h \<noteq> Some p"
  shows "heap_inv (sqlcipher_internal_free p n h)
    \<and> heap_view (sqlcipher_internal_free p n h) = heap_view h
    \<and> live (sqlcipher_internal_free p n h) = live h - {(p, z)} \<and> wiped p n h (sqlcipher_internal_free p n h)"
proof -
  let ?h = "sqlcipher_internal_free p n h"
  have i: "heap_inv_of h (heap_view h)" using assms(1) by (simp add: heap_inv_def)
  have h: "?h = h\<lparr>hp_mem := hp_mem ?h, hp_rng := hp_rng ?h, sys_live := (sys_live h)(p := None)\<rparr>"
    by (simp add: sqlcipher_internal_free_def sqlite3_free_def heap_randomness_def case_prod_unfold Let_def)
  have "sys_inv ((sys_live h)(p := None))" using i by (auto simp: heap_inv_of_def sys_inv_def)
  then have "heap_inv_of ?h (heap_view h)"
    using i assms(3) by (subst h) (auto simp: heap_inv_of_def region_inv_def)
  note v = heap_inv_intro [OF this]
  have "(p, z) \<notin> used_blocks (heap_view h)"
    using i assms region_blocks_inside [of h "heap_view h" p z]
    by (fastforce simp: heap_inv_of_def sys_inv_def apart_def)
  moreover have "sys_live ?h = (sys_live h)(p := None)" "private_heap ?h = private_heap h" by (subst h, simp)+
  ultimately have "live ?h = live h - {(p, z)}" using v assms(2) by (auto simp: live_def split: if_splits)
  then show ?thesis using v
    by (simp add: wiped_def sqlcipher_internal_free_def sqlite3_free_def heap_randomness_def case_prod_unfold Let_def)
qed

lemma lfree_nonempty: "lfree m bs = Some (z, bs') \<Longrightarrow> bs' \<noteq> []"
  by (induction m bs arbitrary: bs' rule: lfree.induct) (auto split: if_splits option.splits elim: lmerge.elims)

lemma lfree_None: "(\<And>b. b \<in> addrs bs \<Longrightarrow> m \<noteq> b + 16) \<Longrightarrow> lfree m bs = None"
  by (induction m bs rule: lfree.induct) auto

lemma free_block_inv:
  assumes "heap_inv h" "lfree m (heap_view h) = Some (z, bs')" "(m, z) \<in> used_blocks (heap_view h)"
    and "chain B (private_heap h) bs'" "used_sum bs' + z = used_sum (heap_view h)"
    and "used_blocks bs' = used_blocks (heap_view h) - {(m, z)}"
    and "h' = h\<lparr>hp_blocks := B, hp_mem := me, hp_rng := g, private_heap_used := private_heap_used h - of_nat z\<rparr>"
  shows "heap_inv h' \<and> heap_view h' = bs' \<and> live h' = live h - {(m, z)}"
proof -
  have i: "heap_inv_of h (heap_view h)" using assms(1) by (simp add: heap_inv_def)
  have r: "region_inv h bs'"
    using i assms(2,3) lfree_tiles [OF assms(2)] lfree_nonempty [OF assms(2)]
    by (auto simp: heap_inv_of_def region_inv_def)
  then have r': "region_inv h' bs'" by (simp add: region_inv_def assms(7))
  have z: "z \<le> unat (private_heap_used h)" "unat (of_nat z :: u64) = z"
    using i assms(5) region_used_sum [of h "heap_view h"] by (simp_all add: heap_inv_of_def unat_of_nat)
  then have le: "(of_nat z :: u64) \<le> private_heap_used h" by (simp add: word_le_nat_alt)
  then have "unat (private_heap_used h - of_nat z) = used_sum bs'"
    using i assms(5) z by (simp add: unat_sub heap_inv_of_def)
  moreover have "private_heap_used h - of_nat z \<le> private_heap_hwm h"
    using i z unat_sub [OF le] by (auto simp: heap_inv_of_def word_le_nat_alt intro: le_trans [OF diff_le_self])
  ultimately have "heap_inv_of h' bs'"
    using i r' assms(4) lfree_coalesced [OF assms(2)] lfree_aligned [OF assms(2)]
    by (simp add: heap_inv_of_def assms(7))
  note v = heap_inv_intro [OF this]
  have "sys_live h m = Some z \<Longrightarrow> private_heap h = Some m"
    using i assms(3) region_blocks_inside [of h "heap_view h" m z]
    by (fastforce simp: heap_inv_of_def sys_inv_def apart_def)
  then show ?thesis using v assms(6) by (auto simp: live_def assms(7))
qed


lemma heap_block_not_sys:
  "heap_inv h \<Longrightarrow> b \<in> addrs (heap_view h) \<Longrightarrow> sys_live h (b + 16) = Some z \<Longrightarrow> private_heap h = Some (b + 16)"
proof -
  assume h: "heap_inv h" "b \<in> addrs (heap_view h)" "sys_live h (b + 16) = Some z"
  obtain a where "private_heap h = Some a" using h(1,2)
    by (cases "private_heap h") (auto simp: heap_inv_def heap_inv_of_def region_inv_def)
  moreover then have "a \<le> b" "b + 16 < a + private_heap_sz h" "sys_live h a = Some (private_heap_sz h)"
    using h(1) tiles_addrs [OF _ h(2)] by (auto simp: heap_inv_def heap_inv_of_def region_inv_def)
  ultimately show ?thesis using h(1,3)
    by (fastforce simp: heap_inv_def heap_inv_of_def sys_inv_def apart_def)
qed

lemma sqlcipher_free_post:
  assumes "heap_inv h" "(p, z) \<in> live h"
  shows "\<exists>h'. sqlcipher_free p n h = Some h' \<and> heap_inv h' \<and> live h' = live h - {(p, z)}
           \<and> wiped p (if (p, z) \<in> used_blocks (heap_view h) then z else n) h h'
           \<and> heap_view h' = (case lfree p (heap_view h) of None \<Rightarrow> heap_view h | Some (_, bs') \<Rightarrow> bs')"
proof (cases "(p, z) \<in> used_blocks (heap_view h)")
  case True
  have i: "heap_inv_of h (heap_view h)" using assms by (simp add: heap_inv_def)
  obtain a where a: "tiles a (heap_view h) (a + private_heap_sz h)"
    using i True by (cases "private_heap h") (auto simp: heap_inv_of_def region_inv_def)
  obtain bs' where f: "lfree p (heap_view h) = Some (z, bs')" "used_sum bs' + z = used_sum (heap_view h)"
    "used_blocks bs' = used_blocks (heap_view h) - {(p, z)}"
    using lfree_used [OF a True] by blast
  have "release (hp_blocks h) p None z (private_heap h) bs' a (private_heap h)"
    using lfree_release [OF f(1) _ a, of "hp_blocks h" "private_heap h" None] i by (simp add: heap_inv_of_def)
  then obtain prev b blk b' B1 B2 where r: "free_find (hp_blocks h) p (None, private_heap h) = Some (Some (prev, b))"
    "hp_blocks h b = Some blk" "pb_size blk = z" "p = b + 16"
    "free_merge_prev prev b ((hp_blocks h)(b \<mapsto> blk\<lparr>pb_used := False\<rparr>)) = Some (b', B1)"
    "free_merge_next b' B1 = Some B2" "chain B2 (private_heap h) bs'" unfolding release_def by blast
  let ?r = "xoshiro_randomness (hp_rng_addr h) (hp_rng h) z"
  have "sqlcipher_free p n h = Some (h\<lparr>hp_blocks := B2, hp_mem := mem_write p (fst ?r) (hp_mem h), hp_rng := snd ?r,
          private_heap_used := private_heap_used h - of_nat z\<rparr>)"
    using r by (simp add: sqlcipher_free_def heap_randomness_def case_prod_unfold Let_def sizeof_private_block_def)
  then show ?thesis using free_block_inv [OF assms(1) f(1) True r(7) f(2,3) refl] True f(1) by (simp add: wiped_def)
next
  case False
  with assms(2) have s: "sys_live h p = Some z" "private_heap h \<noteq> Some p" by (auto simp: live_def)
  have i: "heap_inv_of h (heap_view h)" using assms by (simp add: heap_inv_def)
  have ne: "p \<noteq> b + 16" if "b \<in> addrs (heap_view h)" for b
    using heap_block_not_sys [OF assms(1) that] s by auto
  then have "free_find (hp_blocks h) p (None, private_heap h) = Some None"
    using free_find_None [of "hp_blocks h" "private_heap h" "heap_view h" p] i by (auto simp: heap_inv_of_def)
  moreover have "lfree p (heap_view h) = None" using lfree_None ne by blast
  ultimately show ?thesis using internal_free_inv [OF assms(1) s] False by (simp add: sqlcipher_free_def)
qed

section \<open>The allocator contract\<close>

text \<open>
  What the codec relies on: allocation always returns, with a fresh zeroed block or with
  nothing; release of a live block, with a size not above what was allocated, returns and
  removes exactly that block; neither touches a byte of another live block.
\<close>

text \<open>
  A client that owns the blocks \<open>M\<close> (addresses and the sizes it asked for) among the live
  blocks \<open>L\<close>, the others being \<open>R\<close>.
\<close>

definition owns :: "(nat \<times> nat) set \<Rightarrow> (nat \<times> nat) set \<Rightarrow> (nat \<times> nat) multiset \<Rightarrow> bool" where
  "owns L R M \<longleftrightarrow> (\<forall>p. count (image_mset fst M) p \<le> 1) \<and> (\<forall>p n. (p, n) \<in># M \<longrightarrow> (\<exists>z. n \<le> z \<and> (p, z) \<in> L))
     \<and> R = {y \<in> L. fst y \<notin># image_mset fst M}"

lemma owns_empty: "owns L R {#} \<longleftrightarrow> R = L"
  by (auto simp: owns_def)

lemma owns_member: "owns L R M \<Longrightarrow> (p, n) \<in># M \<Longrightarrow> \<exists>z. n \<le> z \<and> (p, z) \<in> L"
  unfolding owns_def by blast

lemma owns_insert:
  assumes "owns L R M" "\<And>y. y \<in> L \<Longrightarrow> p \<noteq> fst y" "n \<le> z"
  shows "owns (insert (p, z) L) R (add_mset (p, n) M)"
proof -
  have "p \<notin># image_mset fst M" using assms(1,2) by (fastforce simp: owns_def)
  then have "count (image_mset fst M) p = 0" by (simp only: not_in_iff)
  moreover have "\<forall>q m. (q, m) \<in># M \<longrightarrow> (\<exists>y. m \<le> y \<and> (q, y) \<in> insert (p, z) L)" using assms(1) by (force simp: owns_def)
  moreover have "R = {y \<in> insert (p, z) L. fst y \<notin># image_mset fst (add_mset (p, n) M)}"
    using assms(1,2) by (auto simp: owns_def)
  ultimately show ?thesis using assms(1,3) by (auto simp: owns_def)
qed

lemma owns_remove:
  assumes "owns L R (add_mset (p, n) M)" "(p, z) \<in> L" "\<And>y. y \<in> L \<Longrightarrow> fst y = p \<Longrightarrow> y = (p, z)"
  shows "owns (L - {(p, z)}) R M"
proof -
  have 0: "count (image_mset fst (add_mset (p, n) M)) q \<le> 1" for q using assms(1) unfolding owns_def by blast
  have "count (image_mset fst M) q \<le> count (image_mset fst (add_mset (p, n) M)) q" for q by simp
  from le_trans [OF this 0] have 1: "count (image_mset fst M) q \<le> 1" for q .
  have "count (image_mset fst M) p = 0" using 0 [of p] by simp
  then have "p \<notin># image_mset fst M" by (simp only: not_in_iff)
  then have "q \<noteq> p" if "(q, m) \<in># M" for q m using that by force
  moreover have "\<exists>y. m \<le> y \<and> (q, y) \<in> L" if "(q, m) \<in># M" for q m
    using owns_member [OF assms(1), of q m] that by simp
  ultimately have "\<forall>q m. (q, m) \<in># M \<longrightarrow> (\<exists>y. m \<le> y \<and> (q, y) \<in> L - {(p, z)})" by blast
  moreover have eq: "fst y = p \<longleftrightarrow> y = (p, z)" if "y \<in> L" for y using assms(3) [OF that] by auto
  have "R = {y \<in> L. fst y \<notin># image_mset fst (add_mset (p, n) M)}" using assms(1) unfolding owns_def by blast
  then have "R = {y \<in> L - {(p, z)}. fst y \<notin># image_mset fst M}" using eq by auto
  ultimately show ?thesis using 1 by (simp add: owns_def)
qed

locale allocator =
  fixes invar :: "'s \<Rightarrow> bool" and blocks :: "'s \<Rightarrow> (nat \<times> nat) set" and cells :: "'s \<Rightarrow> nat \<Rightarrow> byte"
    and alloc :: "nat \<Rightarrow> 's \<Rightarrow> (nat option \<times> 's) option" and release :: "nat \<Rightarrow> nat \<Rightarrow> 's \<Rightarrow> 's option"
  assumes alloc_total: "invar s \<Longrightarrow> \<exists>r s'. alloc n s = Some (r, s') \<and> invar s'"
    and alloc_fail: "invar s \<Longrightarrow> alloc n s = Some (None, s') \<Longrightarrow> blocks s' = blocks s"
    and alloc_fresh: "invar s \<Longrightarrow> alloc n s = Some (Some p, s') \<Longrightarrow>
       \<exists>z. n \<le> z \<and> 0 < z \<and> blocks s' = insert (p, z) (blocks s) \<and> (\<forall>y \<in> blocks s. apart (p, z) y)
         \<and> (\<forall>x. x < p \<or> p + z \<le> x \<longrightarrow> cells s' x = cells s x)"
    and release_live: "invar s \<Longrightarrow> (p, z) \<in> blocks s \<Longrightarrow> n \<le> z \<Longrightarrow>
       \<exists>s'. release p n s = Some s' \<and> invar s' \<and> blocks s' = blocks s - {(p, z)}
         \<and> (\<forall>x. x < p \<or> p + z \<le> x \<longrightarrow> cells s' x = cells s x)"
    and blocks_pos: "invar s \<Longrightarrow> (p, z) \<in> blocks s \<Longrightarrow> 0 < z"
    and blocks_apart: "invar s \<Longrightarrow> x \<in> blocks s \<Longrightarrow> y \<in> blocks s \<Longrightarrow> x \<noteq> y \<Longrightarrow> apart x y"
begin

lemma block_size_unique: "invar s \<Longrightarrow> (p, z) \<in> blocks s \<Longrightarrow> (p, y) \<in> blocks s \<Longrightarrow> z = y"
  using blocks_apart [of s "(p, z)" "(p, y)"] blocks_pos [of s p z] blocks_pos [of s p y] by (auto simp: apart_def)

lemma block_addr_unique: "invar s \<Longrightarrow> (p, z) \<in> blocks s \<Longrightarrow> y \<in> blocks s \<Longrightarrow> fst y = p \<Longrightarrow> y = (p, z)"
  using block_size_unique [of s p z "snd y"] by (cases y) auto

lemma owns_alloc:
  assumes "invar s" "owns (blocks s) R M"
  obtains r s' where "alloc n s = Some (r, s')" "invar s'"
    "case r of None \<Rightarrow> owns (blocks s') R M | Some p \<Rightarrow> owns (blocks s') R (add_mset (p, n) M)"
proof -
  obtain r s' where a: "alloc n s = Some (r, s')" "invar s'" using alloc_total [OF assms(1)] by blast
  show ?thesis
  proof (cases r)
    case None
    then show ?thesis using that a alloc_fail assms by auto
  next
    case (Some p)
    then obtain z where z: "n \<le> z" "0 < z" "blocks s' = insert (p, z) (blocks s)" "\<forall>y \<in> blocks s. apart (p, z) y"
      using alloc_fresh [OF assms(1)] a by blast
    have "p \<noteq> fst y" if "y \<in> blocks s" for y
      using z(2,4) blocks_pos [OF assms(1), of "fst y" "snd y"] that by (fastforce simp: apart_def)
    then have "owns (blocks s') R (add_mset (p, n) M)"
      unfolding z(3) by (intro owns_insert [OF assms(2) _ z(1)]) auto
    then show ?thesis using that a Some by auto
  qed
qed

lemma owns_release:
  assumes "invar s" "owns (blocks s) R (add_mset (p, n) M)"
  obtains s' where "release p n s = Some s'" "invar s'" "owns (blocks s') R M"
proof -
  obtain z where z: "n \<le> z" "(p, z) \<in> blocks s" using owns_member [OF assms(2)] by auto
  obtain s' where r: "release p n s = Some s'" "invar s'" "blocks s' = blocks s - {(p, z)}"
    using release_live [OF assms(1) z(2,1)] by blast
  moreover have "owns (blocks s - {(p, z)}) R M"
    using owns_remove [OF assms(2) z(2)] block_addr_unique [OF assms(1) z(2)] by blast
  ultimately show ?thesis using that by simp
qed

end


lemma live_apart:
  assumes "heap_inv h" "x \<in> live h" "y \<in> live h" "x \<noteq> y"
  shows "apart x y"
proof -
  have i: "heap_inv_of h (heap_view h)" using assms(1) by (simp add: heap_inv_def)
  have main: "apart u v" if uv: "u \<in> used_blocks (heap_view h)" "v \<in> live h" "u \<noteq> v" for u v
  proof (cases "v \<in> used_blocks (heap_view h)")
    case True
    obtain a where "tiles a (heap_view h) (a + private_heap_sz h)"
      using i uv by (cases "private_heap h") (auto simp: heap_inv_of_def region_inv_def)
    then show ?thesis using used_blocks_disjoint uv True by (metis apart_def prod.collapse)
  next
    case False
    then have "sys_live h (fst v) = Some (snd v)" "private_heap h \<noteq> Some (fst v)" using uv by (auto simp: live_def)
    moreover obtain a where a: "private_heap h = Some a" "sys_live h a = Some (private_heap_sz h)"
      "a \<le> fst u" "fst u + snd u \<le> a + private_heap_sz h"
      using region_blocks_inside [of h "heap_view h" "fst u" "snd u"] i uv by (auto simp: heap_inv_of_def)
    ultimately have "apart (a, private_heap_sz h) v" using i unfolding heap_inv_of_def sys_inv_def by (metis prod.collapse)
    then show ?thesis using a apart_sub by (metis prod.collapse)
  qed
  show ?thesis
  proof (cases "x \<in> used_blocks (heap_view h) \<or> y \<in> used_blocks (heap_view h)")
    case True
    then show ?thesis using main assms apart_commute by metis
  next
    case False
    then have l: "sys_live h (fst x) = Some (snd x)" "sys_live h (fst y) = Some (snd y)" using assms by (auto simp: live_def)
    then have "fst x \<noteq> fst y" using assms(4) by (auto simp: prod_eq_iff)
    with l i show ?thesis unfolding heap_inv_of_def sys_inv_def by (metis prod.collapse)
  qed
qed

lemma live_pos: "heap_inv h \<Longrightarrow> (p, z) \<in> live h \<Longrightarrow> 0 < z"
proof -
  have "tiles a bs e \<Longrightarrow> (p, z) \<in> used_blocks bs \<Longrightarrow> 0 < z" for a bs e
    by (induction bs arbitrary: a) (auto split: if_splits)
  then show "heap_inv h \<Longrightarrow> (p, z) \<in> live h \<Longrightarrow> 0 < z"
    by (cases "private_heap h") (auto simp: heap_inv_def heap_inv_of_def region_inv_def sys_inv_def live_def)
qed

lemma sqlcipher_free_live:
  assumes "heap_inv h" "(p, z) \<in> live h" "n \<le> z"
  shows "\<exists>h'. sqlcipher_free p n h = Some h' \<and> heap_inv h' \<and> live h' = live h - {(p, z)}
           \<and> (\<forall>x. x < p \<or> p + z \<le> x \<longrightarrow> hp_mem h' x = hp_mem h x)"
proof -
  obtain h' w where f: "sqlcipher_free p n h = Some h'" "heap_inv h'" "live h' = live h - {(p, z)}"
    and w: "wiped p w h h'" "w \<le> z"
    using sqlcipher_free_post [OF assms(1,2), of n] assms(3) by auto
  have "hp_mem h' x = hp_mem h x" if "x < p \<or> p + z \<le> x" for x
    by (rule wiped_outside [OF w(1)]) (use that w(2) in auto)
  then show ?thesis using f by blast
qed

interpretation ph: allocator heap_inv live hp_mem sqlcipher_malloc sqlcipher_free
proof
  fix s n assume "heap_inv s"
  then show "\<exists>r s'. sqlcipher_malloc n s = Some (r, s') \<and> heap_inv s'" using sqlcipher_malloc_post by blast
next
  fix s n s' assume "heap_inv s" "sqlcipher_malloc n s = Some (None, s')"
  then show "live s' = live s" using sqlcipher_malloc_post [of s n] by auto
next
  fix s n p s' assume "heap_inv s" "sqlcipher_malloc n s = Some (Some p, s')"
  then have "0 < n" "alloc_post n s p s'" using sqlcipher_malloc_post [of s n] by auto
  then obtain z where "n \<le> z" "0 < z" "live s' = insert (p, z) (live s)" "\<forall>y \<in> live s. apart (p, z) y"
    "\<forall>x. x < p \<or> p + z \<le> x \<longrightarrow> hp_mem s' x = hp_mem s x" unfolding alloc_post_def by fastforce
  then show "\<exists>z. n \<le> z \<and> 0 < z \<and> live s' = insert (p, z) (live s) \<and> (\<forall>y \<in> live s. apart (p, z) y)
      \<and> (\<forall>x. x < p \<or> p + z \<le> x \<longrightarrow> hp_mem s' x = hp_mem s x)"
    by blast
qed (blast intro: live_pos live_apart sqlcipher_free_live)+

lemma lfree_lmalloc:
  assumes "lmalloc n bs = Some (b, z, bs')" "tiles a bs e" "coalesced bs" "0 < n"
  shows "lfree (b + 16) bs' = Some (z, bs)"
  using assms
proof (induction bs arbitrary: a bs')
  case (Cons t bs)
  obtain c s u where t: "t = (c, s, u)" by (cases t)
  with Cons.prems have tl: "tiles (a + 16 + s) bs e" "c = a" "0 < s" by auto
  show ?case
  proof (cases "\<not> u \<and> n \<le> s")
    case True
    with Cons.prems t show ?thesis by (cases bs) (auto split: if_splits prod.splits)
  next
    case False
    then obtain cs where r: "lmalloc n bs = Some (b, z, cs)" "bs' = (c, s, u) # cs"
      using Cons.prems t by (auto split: if_splits option.splits)
    obtain d y w ds where bs: "bs = (d, y, w) # ds" using r by (cases bs) auto
    have ih: "lfree (b + 16) cs = Some (z, bs)" using Cons.IH [OF r(1) tl(1)] Cons.prems t bs by auto
    obtain y' v ds' where cs: "cs = (d, y', v) # ds'" using r bs by (auto split: if_splits option.splits)
    have "a + 16 + s \<le> b" using lmalloc_free_space [OF r(1)] tiles_addrs [OF tl(1), of b] by (force simp: addrs_def)
    moreover have "u" if "b = d"
    proof -
      obtain x where "(b, x, False) \<in> set bs" using lmalloc_free_space [OF r(1)] by blast
      then have "\<not> w" using that bs tiles_distinct [OF tl(1)] by (auto simp: image_iff)
      then show ?thesis using Cons.prems(3) t bs by simp
    qed
    ultimately show ?thesis using ih cs r tl t by auto
  qed
qed simp

lemma used_sum_0: "tiles a bs e \<Longrightarrow> used_sum bs = 0 \<Longrightarrow> used_blocks bs = {}"
  by (induction bs arbitrary: a) (auto split: if_splits)

lemma heap_used_view: "heap_inv h \<Longrightarrow> unat (private_heap_used h) = used_sum (heap_view h)"
  by (simp add: heap_inv_def heap_inv_of_def)

lemma heap_view_tiles: "heap_inv h \<Longrightarrow> private_heap h = Some a \<Longrightarrow>
    tiles a (heap_view h) (a + private_heap_sz h) \<and> coalesced (heap_view h) \<and> heap_view h \<noteq> []"
  by (simp add: heap_inv_def heap_inv_of_def region_inv_def)

lemma malloc_free_view:
  assumes "heap_inv h" "sqlcipher_malloc n h = Some (Some p, h1)"
  shows "\<exists>h2. sqlcipher_free p n h1 = Some h2 \<and> heap_inv h2 \<and> live h2 = live h \<and> heap_view h2 = heap_view h"
proof -
  define z where "z = SQLCIPHER_PRIVATE_HEAP_ROUNDUP n"
  have post: "heap_inv h1" "alloc_post n h p h1" "malloc_view n h (Some p) h1" "0 < n"
    using sqlcipher_malloc_post [OF assms(1), of n] assms(2) by auto
  then obtain s where s: "live h1 = insert (p, s) (live h)" "\<forall>y \<in> live h. apart (p, s) y"
    unfolding alloc_post_def by blast
  have new: "(p, s) \<notin> live h" using s ph.blocks_pos [OF post(1), of p s] by (auto simp: apart_def)
  obtain h2 where f: "sqlcipher_free p n h1 = Some h2" "heap_inv h2" "live h2 = live h1 - {(p, s)}"
    "heap_view h2 = (case lfree p (heap_view h1) of None \<Rightarrow> heap_view h1 | Some (_, bs') \<Rightarrow> bs')"
    using sqlcipher_free_post [OF post(1), of p s n] s by auto
  have "heap_view h2 = heap_view h"
  proof (cases "lmalloc z (heap_view h)")
    case None
    then have v: "heap_view h1 = heap_view h" "sys_live h1 p = Some z" "private_heap h1 \<noteq> Some p"
      using post(3,4) by (auto simp: malloc_view_def z_def split: if_splits)
    have "p \<noteq> b + 16" if "b \<in> addrs (heap_view h1)" for b
      using heap_block_not_sys [OF post(1) that] v by auto
    then show ?thesis using f(4) v lfree_None [of "heap_view h1" p] by simp
  next
    case (Some t)
    obtain b y bs' where t: "lmalloc z (heap_view h) = Some (b, y, bs')" using Some by (cases t) auto
    then have v: "heap_view h1 = bs'" "p = b + 16" using post(3,4) by (auto simp: malloc_view_def z_def split: if_splits)
    obtain a where "private_heap h = Some a"
      using t assms(1) by (cases "private_heap h") (auto simp: heap_inv_def heap_inv_of_def region_inv_def)
    moreover have "0 < z" using roundup_bounds [of n] post(4) by (simp add: z_def)
    ultimately have "lfree p bs' = Some (y, heap_view h)"
      using lfree_lmalloc [OF t] heap_view_tiles [OF assms(1)] v by auto
    then show ?thesis using f(4) v by simp
  qed
  then show ?thesis using f s new by auto
qed

section \<open>Properties\<close>

definition demo_heap :: heap where
  "demo_heap = \<lparr>private_heap = Some 1024, private_heap_sz = 208,
     hp_blocks = [1024 \<mapsto> \<lparr>pb_next = None, pb_size = 192, pb_used = False\<rparr>], hp_mem = (\<lambda>_. 0),
     private_heap_used = 0, private_heap_hwm = 0, private_heap_alloc = 0, private_heap_allocs = 0,
     private_heap_overflow = 0, private_heap_overflows = 0,
     hp_rng = \<lparr>xs0 = 1, xs1 = 0, xs2 = 0, xs3 = 0\<rparr>, hp_rng_addr = 0,
     sys_malloc = (\<lambda>_ _ _. None), sys_calls = 0, sys_live = [1024 \<mapsto> 208]\<rparr>"

lemma demo_heap_inv: "heap_inv demo_heap \<and> heap_view demo_heap = [(1024, 192, False)]"
  by (rule heap_inv_intro) (auto simp: heap_inv_of_def demo_heap_def sys_malloc_ok_def sys_inv_def region_inv_def)

definition demo_heap_used :: heap where
  "demo_heap_used = demo_heap\<lparr>private_heap_used := 64, private_heap_hwm := 64,
     hp_blocks := [1024 \<mapsto> \<lparr>pb_next = Some 1104, pb_size = 64, pb_used = True\<rparr>,
                   1104 \<mapsto> \<lparr>pb_next = None, pb_size = 112, pb_used = False\<rparr>]\<rparr>"

lemma demo_heap_used_inv: "heap_inv demo_heap_used \<and> heap_view demo_heap_used = [(1024, 64, True), (1104, 112, False)]"
  by (rule heap_inv_intro)
    (auto simp: heap_inv_of_def demo_heap_used_def demo_heap_def sys_malloc_ok_def sys_inv_def region_inv_def)

lemma live_demo_used: "live demo_heap_used = {(1040, 64)}"
  using demo_heap_used_inv by (auto simp: live_def demo_heap_used_def demo_heap_def split: if_splits)

lemma demo_malloc: "\<exists>h'. sqlcipher_malloc 10 demo_heap = Some (Some 1040, h')"
  by (simp add: sqlcipher_malloc_def demo_heap_def SQLITE_MAX_LENGTH_def SQLCIPHER_PRIVATE_HEAP_ROUNDUP_def
        SQLCIPHER_PRIVATE_HEAP_ALIGNMENT_def sizeof_private_block_def malloc_find.simps Let_def)

lemma live_demo: "live demo_heap = {}"
  using demo_heap_inv by (auto simp: live_def demo_heap_def)


text \<open>
  C9: From a well-formed heap \<open>sqlcipher_malloc\<close> returns for every requested size, keeps the
  heap well formed, and yields either nothing, with the live blocks unchanged, or the
  aligned address of a block of at least the requested size that overlaps no live block,
  whose requested bytes are zero and outside of which no byte changed.
\<close>

theorem sqlcipher_malloc_contract:
  assumes "heap_inv h"
  shows "\<exists>r h'. sqlcipher_malloc n h = Some (r, h') \<and> heap_inv h'
           \<and> (case r of None \<Rightarrow> live h' = live h
              | Some p \<Rightarrow> \<exists>z. 0 < n \<and> n \<le> z \<and> live h' = insert (p, z) (live h)
                  \<and> (\<forall>y \<in> live h. apart (p, z) y) \<and> 8 dvd p
                  \<and> (\<forall>x. p \<le> x \<and> x < p + n \<longrightarrow> hp_mem h' x = 0)
                  \<and> (\<forall>x. x < p \<or> p + z \<le> x \<longrightarrow> hp_mem h' x = hp_mem h x))"
  using sqlcipher_malloc_post [OF assms, of n] by (force simp: alloc_post_def split: option.splits)

theorem sqlcipher_malloc_contract_witness:
  "\<exists>h'. sqlcipher_malloc 10 demo_heap = Some (Some 1040, h') \<and> heap_inv h'
     \<and> (\<exists>z. 10 \<le> z \<and> live h' = {(1040, z)}) \<and> (\<forall>x. 1040 \<le> x \<and> x < 1050 \<longrightarrow> hp_mem h' x = 0)"
  using demo_malloc sqlcipher_malloc_contract [of demo_heap 10] demo_heap_inv live_demo by auto



text \<open>
  C14: An allocation that succeeds, followed by the release of its result, leaves the heap with
  the block list, the live blocks and the count of used bytes it had before: a block that
  was split is joined again.
\<close>

theorem malloc_free_restores:
  assumes "heap_inv h" "sqlcipher_malloc n h = Some (Some p, h1)"
  shows "\<exists>h2. sqlcipher_free p n h1 = Some h2 \<and> heap_inv h2 \<and> live h2 = live h \<and> heap_view h2 = heap_view h
           \<and> private_heap_used h2 = private_heap_used h"
  using malloc_free_view [OF assms] heap_used_view [OF assms(1)] heap_used_view
  by (metis unsigned_word_eqI)

theorem malloc_free_restores_witness:
  "\<exists>h1 h2. sqlcipher_malloc 10 demo_heap = Some (Some 1040, h1) \<and> sqlcipher_free 1040 10 h1 = Some h2
     \<and> heap_view h2 = [(1024, 192, False)]"
proof -
  obtain h1 where "sqlcipher_malloc 10 demo_heap = Some (Some 1040, h1)" using demo_malloc by blast
  then show ?thesis using malloc_free_restores [of demo_heap 10 1040 h1] demo_heap_inv by auto
qed





end
