(* ===== verification/SC_Provider.thy ===== *)
theory SC_Provider
  imports SC_Prelude
begin

text \<open>
  The cryptographic provider interface of src/src/sqlcipher.h and the registry of providers
  of src/src/sqlcipher.c.

  A provider is a table of functions implemented outside the core (OpenSSL, CommonCrypto,
  LibTomCrypt, CNG): here a record whose fields are arbitrary functions. Each returns its
  result code together with what it leaves in the output buffer, on failure too. The
  provider's context is fixed when a codec context is made, so it is not an argument;
  \<open>pv_random\<close> and \<open>pv_ctx_init\<close> get the number of the call, so that successive calls may
  differ. What theorems assume of a provider is named in \<open>provider_ok\<close>.

  The registry links provider structures by their \<open>next\<close> pointers; addresses are natural
  numbers, and following \<open>next\<close> in a cycle has no result.
\<close>

section \<open>Constants of sqlcipher.h\<close>

definition SQLCIPHER_DECRYPT :: int where "SQLCIPHER_DECRYPT = 0"
definition SQLCIPHER_ENCRYPT :: int where "SQLCIPHER_ENCRYPT = 1"
definition SQLCIPHER_HMAC_SHA1 :: int where "SQLCIPHER_HMAC_SHA1 = 0"
definition SQLCIPHER_HMAC_SHA256 :: int where "SQLCIPHER_HMAC_SHA256 = 1"
definition SQLCIPHER_HMAC_SHA512 :: int where "SQLCIPHER_HMAC_SHA512 = 2"
definition SQLCIPHER_HMAC_SHA1_LABEL :: string where "SQLCIPHER_HMAC_SHA1_LABEL = ''HMAC_SHA1''"
definition SQLCIPHER_HMAC_SHA256_LABEL :: string where "SQLCIPHER_HMAC_SHA256_LABEL = ''HMAC_SHA256''"
definition SQLCIPHER_HMAC_SHA512_LABEL :: string where "SQLCIPHER_HMAC_SHA512_LABEL = ''HMAC_SHA512''"
definition SQLCIPHER_PBKDF2_HMAC_SHA1 :: int where "SQLCIPHER_PBKDF2_HMAC_SHA1 = 0"
definition SQLCIPHER_PBKDF2_HMAC_SHA256 :: int where "SQLCIPHER_PBKDF2_HMAC_SHA256 = 1"
definition SQLCIPHER_PBKDF2_HMAC_SHA512 :: int where "SQLCIPHER_PBKDF2_HMAC_SHA512 = 2"
definition SQLCIPHER_PBKDF2_HMAC_SHA1_LABEL :: string where "SQLCIPHER_PBKDF2_HMAC_SHA1_LABEL = ''PBKDF2_HMAC_SHA1''"
definition SQLCIPHER_PBKDF2_HMAC_SHA256_LABEL :: string where "SQLCIPHER_PBKDF2_HMAC_SHA256_LABEL = ''PBKDF2_HMAC_SHA256''"
definition SQLCIPHER_PBKDF2_HMAC_SHA512_LABEL :: string where "SQLCIPHER_PBKDF2_HMAC_SHA512_LABEL = ''PBKDF2_HMAC_SHA512''"

section \<open>The provider table\<close>

record provider =
  pv_get_provider_name :: string
  pv_get_provider_version :: string
  pv_get_cipher :: string
  pv_fips_status :: int
  pv_add_random :: "bytes \<Rightarrow> rc"
  pv_random :: "nat \<Rightarrow> nat \<Rightarrow> rc \<times> bytes"
  pv_hmac :: "int \<Rightarrow> bytes \<Rightarrow> bytes \<Rightarrow> bytes \<Rightarrow> rc \<times> bytes"
  pv_kdf :: "int \<Rightarrow> bytes \<Rightarrow> bytes \<Rightarrow> int \<Rightarrow> nat \<Rightarrow> rc \<times> bytes"
  pv_cipher :: "int \<Rightarrow> bytes \<Rightarrow> bytes \<Rightarrow> bytes \<Rightarrow> rc \<times> bytes"
  pv_get_key_sz :: int
  pv_get_iv_sz :: int
  pv_get_block_sz :: int
  pv_get_hmac_sz :: "int \<Rightarrow> int"
  pv_ctx_init :: "nat \<Rightarrow> rc"

text \<open>
  The documented behaviour the core relies on: sizes are sensible, output buffers are filled
  to their length, and decryption with the same key and IV undoes a successful encryption.
\<close>

definition provider_ok :: "provider \<Rightarrow> bool" where
  "provider_ok p \<longleftrightarrow>
     0 < pv_get_key_sz p \<and> 0 < pv_get_iv_sz p \<and> 0 < pv_get_block_sz p \<and> (\<forall>a. 0 \<le> pv_get_hmac_sz p a)
     \<and> (\<forall>k n. length (snd (pv_random p k n)) = n)
     \<and> (\<forall>a k x y. length (snd (pv_hmac p a k x y)) = nat (pv_get_hmac_sz p a))
     \<and> (\<forall>a x s i n. length (snd (pv_kdf p a x s i n)) = n)
     \<and> (\<forall>m k iv x. length (snd (pv_cipher p m k iv x)) = length x)
     \<and> (\<forall>k iv x y. pv_cipher p SQLCIPHER_ENCRYPT k iv x = (SQLITE_OK, y) \<longrightarrow>
          pv_cipher p SQLCIPHER_DECRYPT k iv y = (SQLITE_OK, x))"

section \<open>The registry\<close>

record registry =
  reg_next :: "nat \<Rightarrow> nat option"
  default_provider :: "nat option"

text \<open>The search for \<open>p\<close> in the list, over the pair \<open>(previous, current)\<close>.\<close>

partial_function (option) register_find ::
    "(nat \<Rightarrow> nat option) \<Rightarrow> nat \<Rightarrow> nat \<times> nat option \<Rightarrow> nat option option" where
  "register_find N p cur =
     (case snd cur of
        None \<Rightarrow> Some None
      | Some c \<Rightarrow> if c = p then Some (Some (fst cur)) else register_find N p (c, N c))"

text \<open>\<open>init\<close> is the provider's initializer: none, or one that returns the given code.\<close>

definition sqlcipher_register_provider :: "nat option \<Rightarrow> rc option \<Rightarrow> registry \<Rightarrow> (rc \<times> registry) option" where
  "sqlcipher_register_provider q init r =
     (case q of
        None \<Rightarrow> Some (SQLITE_OK, r)
      | Some p \<Rightarrow>
          if default_provider r = Some p then Some (SQLITE_OK, r)
          else
            (case (case default_provider r of
                     None \<Rightarrow> Some (False, r\<lparr>reg_next := (reg_next r)(p := None)\<rparr>)
                   | Some d \<Rightarrow>
                       (case register_find (reg_next r) p (d, reg_next r d) of
                          None \<Rightarrow> None
                        | Some None \<Rightarrow> Some (False, r\<lparr>reg_next := (reg_next r)(p := Some d)\<rparr>)
                        | Some (Some previous) \<Rightarrow>
                            Some (True, r\<lparr>reg_next := (reg_next r)(previous := reg_next r p, p := Some d)\<rparr>))) of
               None \<Rightarrow> None
             | Some (preexisting, r1) \<Rightarrow>
                 let rc = (if \<not> preexisting then (case init of None \<Rightarrow> SQLITE_OK | Some c \<Rightarrow> c) else SQLITE_OK)
                 in Some (rc, if rc = SQLITE_OK then r1\<lparr>default_provider := Some p\<rparr> else r1)))"

definition sqlcipher_get_provider :: "registry \<Rightarrow> nat option" where
  "sqlcipher_get_provider r = default_provider r"

section \<open>The registry is a list without duplicates\<close>

fun linked :: "(nat \<Rightarrow> nat option) \<Rightarrow> nat option \<Rightarrow> nat list \<Rightarrow> bool" where
  "linked N st [] = (st = None)"
| "linked N st (p # ps) = (st = Some p \<and> linked N (N p) ps)"

definition registered :: "registry \<Rightarrow> nat list \<Rightarrow> bool" where
  "registered r ps \<longleftrightarrow> linked (reg_next r) (default_provider r) ps \<and> distinct ps"

lemma linked_update [simp]: "p \<notin> set ps \<Longrightarrow> linked (N(p := x)) st ps = linked N st ps"
  by (induction ps arbitrary: st) auto

lemma register_find_absent:
  "linked N st ps \<Longrightarrow> p \<notin> set ps \<Longrightarrow> register_find N p (d, st) = Some None"
proof (induction ps arbitrary: d st)
  case Nil
  then show ?case by (simp add: register_find.simps)
next
  case (Cons c ps)
  then show ?case by (subst register_find.simps) simp
qed

lemma register_find_present:
  "linked N st (ps @ p # qs) \<Longrightarrow> p \<notin> set ps \<Longrightarrow> register_find N p (d, st) = Some (Some (last (d # ps)))"
proof (induction ps arbitrary: d st)
  case Nil
  then show ?case by (subst register_find.simps) simp
next
  case (Cons c ps)
  then show ?case by (subst register_find.simps) auto
qed

lemma linked_unlink:
  "linked N st (d # ps @ p # qs) \<Longrightarrow> distinct (d # ps @ p # qs) \<Longrightarrow>
     linked (N(last (d # ps) := N p)) st (d # ps @ qs)"
proof (induction ps arbitrary: d st)
  case (Cons c ps)
  then have "linked (N(last (c # ps) := N p)) (N d) (c # ps @ qs)"
    by (intro Cons.IH) auto
  moreover have "last (c # ps) \<noteq> d" using Cons.prems(2) by (metis append_Cons distinct.simps(2) last_in_set list.distinct(1) Un_iff set_append)
  moreover have "last (d # c # ps) = last (c # ps)" "st = Some d" using Cons.prems by simp_all
  ultimately show ?case unfolding append_Cons linked.simps(2) [of _ _ d] by (metis fun_upd_other)
qed simp

lemma registered_new:
  assumes "registered r ps" "p \<notin> set ps"
  shows "sqlcipher_register_provider (Some p) init r =
    Some (case init of None \<Rightarrow> SQLITE_OK | Some c \<Rightarrow> c,
          if (case init of None \<Rightarrow> SQLITE_OK | Some c \<Rightarrow> c) = SQLITE_OK
          then r\<lparr>reg_next := (reg_next r)(p := default_provider r), default_provider := Some p\<rparr>
          else r\<lparr>reg_next := (reg_next r)(p := default_provider r)\<rparr>)"
proof (cases ps)
  case Nil
  with assms show ?thesis by (simp add: registered_def sqlcipher_register_provider_def Let_def)
next
  case (Cons d qs)
  with assms register_find_absent [of "reg_next r" "reg_next r d" qs p d] show ?thesis
    by (auto simp: registered_def sqlcipher_register_provider_def Let_def)
qed

lemma registered_move:
  assumes "registered r (d # ps @ p # qs)"
  shows "\<exists>r'. sqlcipher_register_provider (Some p) init r = Some (SQLITE_OK, r') \<and> registered r' (p # d # ps @ qs)"
proof -
  let ?N = "(reg_next r)(last (d # ps) := reg_next r p)"
  have h: "default_provider r = Some d" "linked (reg_next r) (reg_next r d) (ps @ p # qs)" "distinct (d # ps @ p # qs)"
    using assms by (auto simp: registered_def)
  have "register_find (reg_next r) p (d, reg_next r d) = Some (Some (last (d # ps)))"
    using register_find_present [OF h(2)] h(3) by auto
  then have "sqlcipher_register_provider (Some p) init r =
      Some (SQLITE_OK, r\<lparr>reg_next := ?N(p := Some d), default_provider := Some p\<rparr>)"
    using h by (auto simp: sqlcipher_register_provider_def Let_def)
  moreover have "linked ?N (Some d) (d # ps @ qs)"
    using linked_unlink [of "reg_next r" "Some d" d ps p qs] h by simp
  then have "linked (?N(p := Some d)) (Some d) (d # ps @ qs)"
    using linked_update [of p "d # ps @ qs" ?N "Some d" "Some d"] h(3) by auto
  then have "linked (?N(p := Some d)) (Some p) (p # d # ps @ qs)" by simp
  moreover have "distinct (p # d # ps @ qs)" using h(3) by auto
  ultimately show ?thesis by (simp add: registered_def)
qed

text \<open>
  C17: Registering a provider keeps the registry a list without duplicates and puts the provider
  at its head, as the default; a provider already in the list is moved there and not
  initialized again, and one whose initializer fails is not added.
\<close>

theorem register_provider_moves_to_front:
  assumes "registered r ps"
  shows "\<exists>rc r'. sqlcipher_register_provider (Some p) init r = Some (rc, r')
           \<and> (if p \<in> set ps \<or> init = None \<or> init = Some SQLITE_OK
              then rc = SQLITE_OK \<and> registered r' (p # removeAll p ps) \<and> sqlcipher_get_provider r' = Some p
              else init = Some rc \<and> registered r' ps)"
proof (cases "p \<in> set ps")
  case False
  with assms registered_new [OF assms False, of init] show ?thesis
    by (auto simp: registered_def sqlcipher_get_provider_def split: option.splits)
next
  case True
  show ?thesis
  proof (cases "hd ps = p")
    case True
    with \<open>p \<in> set ps\<close> assms show ?thesis
      by (cases ps) (auto simp: registered_def sqlcipher_register_provider_def sqlcipher_get_provider_def)
  next
    case False
    with \<open>p \<in> set ps\<close> obtain d ds where ps: "ps = d # ds" "d \<noteq> p" "p \<in> set ds" by (cases ps) auto
    then obtain as bs where ds: "ds = as @ p # bs" "p \<notin> set as" by (metis split_list_first)
    have "p \<notin> set bs" using assms ps ds by (auto simp: registered_def)
    with registered_move [of r d as p bs init] assms ps ds show ?thesis
      by (auto simp: registered_def sqlcipher_get_provider_def)
  qed
qed

theorem register_provider_moves_to_front_witness:
  "\<exists>r'. sqlcipher_register_provider (Some 2) None
          \<lparr>reg_next = [1 \<mapsto> 2, 2 \<mapsto> 3], default_provider = Some 1\<rparr> = Some (SQLITE_OK, r') \<and> registered r' [2, 1, 3]"
  using register_provider_moves_to_front [of "\<lparr>reg_next = [1 \<mapsto> 2, 2 \<mapsto> 3], default_provider = Some 1\<rparr>" "[1, 2, 3]" 2 None]
  by (auto simp: registered_def)

end
