(* ===== verification/SC_CodecCtx.thy ===== *)
theory SC_CodecCtx
  imports SC_Allocator SC_Provider SC_Bytes "HOL-Library.Monad_Syntax" "HOL-Library.Signed_Division"
begin

unbundle bit_operations_syntax

text \<open>
  The cipher and codec contexts of src/src/sqlcipher.c: their structures, the settings and
  key material they hold, and their construction and release on the private heap.

  A buffer a context owns is the pair of its address and its contents; that contents change
  only through their owner is what the allocator's theorems show. The heap and the other
  globals are the record \<open>world\<close>, passed explicitly. An operation that would follow a null
  pointer or that the heap cannot complete has no result (\<open>None\<close> of the option monad). The
  Btree behind a context is reduced to the fields the codec reads or writes, and the read of
  the file header is a field of it.
\<close>

section \<open>Constants\<close>

definition FILE_HEADER_SZ :: int where "FILE_HEADER_SZ = 16"
definition CIPHER_READ_CTX :: int where "CIPHER_READ_CTX = 0"
definition CIPHER_WRITE_CTX :: int where "CIPHER_WRITE_CTX = 1"
definition CIPHER_READWRITE_CTX :: int where "CIPHER_READWRITE_CTX = 2"
definition PBKDF2_ITER :: int where "PBKDF2_ITER = 256000"
definition FAST_PBKDF2_ITER :: int where "FAST_PBKDF2_ITER = 2"
definition HMAC_SALT_MASK :: byte where "HMAC_SALT_MASK = 0x3a"
definition CIPHER_MAX_IV_SZ :: int where "CIPHER_MAX_IV_SZ = 16"
definition CIPHER_MAX_KEY_SZ :: int where "CIPHER_MAX_KEY_SZ = 64"

definition CIPHER_FLAG_HMAC :: u32 where "CIPHER_FLAG_HMAC = push_bit 0 1"
definition CIPHER_FLAG_LE_PGNO :: u32 where "CIPHER_FLAG_LE_PGNO = push_bit 1 1"
definition CIPHER_FLAG_BE_PGNO :: u32 where "CIPHER_FLAG_BE_PGNO = push_bit 2 1"
definition CIPHER_FLAG_KEY_USED :: u32 where "CIPHER_FLAG_KEY_USED = push_bit 3 1"
definition CIPHER_FLAG_HAS_KDF_SALT :: u32 where "CIPHER_FLAG_HAS_KDF_SALT = push_bit 4 1"
definition DEFAULT_CIPHER_FLAGS :: u32 where "DEFAULT_CIPHER_FLAGS = CIPHER_FLAG_HMAC OR CIPHER_FLAG_LE_PGNO"

definition SQLCIPHER_FLAG_GET :: "u32 \<Rightarrow> u32 \<Rightarrow> bool" where
  "SQLCIPHER_FLAG_GET flag b = (flag AND b \<noteq> 0)"

definition SQLCIPHER_FLAG_SET :: "u32 \<Rightarrow> u32 \<Rightarrow> u32" where
  "SQLCIPHER_FLAG_SET flag b = flag OR b"

definition SQLCIPHER_FLAG_UNSET :: "u32 \<Rightarrow> u32 \<Rightarrow> u32" where
  "SQLCIPHER_FLAG_UNSET flag b = flag AND (NOT b)"

section \<open>State\<close>

type_synonym buf = "nat \<times> bytes"

record btree =
  bt_inTransaction :: int
  bt_btsFlags :: u32
  bt_errCode :: rc
  bt_autoVacuum :: int
  bt_header :: "(rc \<times> bytes) option"

record cipher_ctx =
  c_addr :: nat
  derive_key :: int
  pass_sz :: int
  key :: "buf option"
  hmac_key :: "buf option"
  pass :: "buf option"

record codec_ctx =
  x_addr :: nat
  store_pass :: int
  kdf_iter :: int
  fast_kdf_iter :: int
  kdf_salt_sz :: int
  key_sz :: int
  iv_sz :: int
  block_sz :: int
  page_sz :: int
  reserve_sz :: int
  hmac_sz :: int
  plaintext_header_sz :: int
  hmac_algorithm :: int
  kdf_algorithm :: int
  x_error :: rc
  flags :: u32
  kdf_salt :: "buf option"
  hmac_kdf_salt :: "buf option"
  buffer :: "buf option"
  pBt :: btree
  read_ctx :: "cipher_ctx option"
  write_ctx :: "cipher_ctx option"
  x_provider :: "provider option"

record world =
  w_heap :: heap
  w_calls :: nat
  shield_mask :: bytes
  default_flags :: u32
  hmac_salt_mask :: byte
  default_kdf_iter :: int
  default_page_size :: int
  default_plaintext_header_size :: int
  default_hmac_algorithm :: int
  default_kdf_algorithm :: int

definition sizeof_cipher_ctx :: int where "sizeof_cipher_ctx = 32"
definition sizeof_codec_ctx :: int where "sizeof_codec_ctx = 128"

text \<open>An \<open>int\<close> passed as a 64-bit size.\<close>

definition u64_size :: "int \<Rightarrow> nat" where "u64_size n = nat (n mod 2 ^ 64)"

definition w_malloc :: "int \<Rightarrow> world \<Rightarrow> (nat option \<times> world) option" where
  "w_malloc n w = do {
     (r, h) \<leftarrow> sqlcipher_malloc (u64_size n) (w_heap w);
     Some (r, w\<lparr>w_heap := h\<rparr>) }"

definition w_free :: "nat \<Rightarrow> int \<Rightarrow> world \<Rightarrow> world option" where
  "w_free p n w = do {
     h \<leftarrow> sqlcipher_free p (u64_size n) (w_heap w);
     Some (w\<lparr>w_heap := h\<rparr>) }"

definition buf_malloc :: "int \<Rightarrow> world \<Rightarrow> (buf option \<times> world) option" where
  "buf_malloc n w = do {
     (r, w) \<leftarrow> w_malloc n w;
     Some (map_option (\<lambda>p. (p, replicate (nat n) 0)) r, w) }"

text \<open>\<open>if(p) sqlcipher_free(p, n);\<close>\<close>

definition buf_free :: "buf option \<Rightarrow> int \<Rightarrow> world \<Rightarrow> world option" where
  "buf_free b n w = (case b of None \<Rightarrow> Some w | Some (p, _) \<Rightarrow> w_free p n w)"

text \<open>\<open>memcpy\<close> of \<open>n\<close> bytes between two buffers.\<close>

definition buf_copy :: "buf option \<Rightarrow> buf option \<Rightarrow> int \<Rightarrow> buf option option" where
  "buf_copy t s n =
     (case (t, s) of
        (Some (a, d), Some (_, e)) \<Rightarrow> Some (Some (a, memcpy_at d 0 (take (nat n) e)))
      | _ \<Rightarrow> None)"

section \<open>Cipher contexts\<close>

definition sqlcipher_cipher_ctx_init :: "codec_ctx \<Rightarrow> world \<Rightarrow> (rc \<times> cipher_ctx option \<times> world) option" where
  "sqlcipher_cipher_ctx_init ctx w = do {
     (r, w) \<leftarrow> w_malloc sizeof_cipher_ctx w;
     case r of
       None \<Rightarrow> Some (SQLITE_NOMEM, None, w)
     | Some p \<Rightarrow> do {
         (k, w) \<leftarrow> buf_malloc (key_sz ctx) w;
         (hk, w) \<leftarrow> buf_malloc (key_sz ctx) w;
         Some (if k = None \<or> hk = None then SQLITE_NOMEM else SQLITE_OK,
               Some \<lparr>c_addr = p, derive_key = 0, pass_sz = 0, key = k, hmac_key = hk, pass = None\<rparr>, w) } }"

definition sqlcipher_cipher_ctx_free :: "codec_ctx \<Rightarrow> cipher_ctx \<Rightarrow> world \<Rightarrow> world option" where
  "sqlcipher_cipher_ctx_free ctx c w = do {
     w \<leftarrow> buf_free (key c) (key_sz ctx) w;
     w \<leftarrow> buf_free (hmac_key c) (key_sz ctx) w;
     w \<leftarrow> buf_free (pass c) (pass_sz c) w;
     w_free (c_addr c) sizeof_cipher_ctx w }"

definition sqlcipher_codec_ctx_reserve_setup :: "codec_ctx \<Rightarrow> (rc \<times> codec_ctx) option" where
  "sqlcipher_codec_ctx_reserve_setup ctx = do {
     p \<leftarrow> x_provider ctx;
     let hsz = pv_get_hmac_sz p (hmac_algorithm ctx);
     let reserve = (if SQLCIPHER_FLAG_GET (flags ctx) CIPHER_FLAG_HMAC then iv_sz ctx + hsz else iv_sz ctx);
     let reserve' = (if block_sz ctx > 0
                     then (if reserve smod block_sz ctx = 0 then reserve
                           else (reserve sdiv block_sz ctx + 1) * block_sz ctx)
                     else reserve);
     Some (SQLITE_OK, ctx\<lparr>hmac_sz := hsz, reserve_sz := reserve'\<rparr>) }"

definition sqlcipher_cipher_ctx_cmp :: "cipher_ctx \<Rightarrow> cipher_ctx \<Rightarrow> int option" where
  "sqlcipher_cipher_ctx_cmp c1 c2 =
     (if pass_sz c1 \<noteq> pass_sz c2 then Some 1
      else if map_option fst (pass c1) = map_option fst (pass c2) then Some 0
      else (case (pass c1, pass c2) of
              (Some (_, d1), Some (_, d2)) \<Rightarrow>
                Some (if sqlcipher_memcmp d1 d2 (nat (pass_sz c1)) = 0 then 0 else 1)
            | _ \<Rightarrow> if pass_sz c1 \<le> 0 then Some 0 else None))"

definition sqlcipher_cipher_ctx_copy ::
    "codec_ctx \<Rightarrow> cipher_ctx \<Rightarrow> cipher_ctx \<Rightarrow> world \<Rightarrow> (rc \<times> cipher_ctx \<times> world) option" where
  "sqlcipher_cipher_ctx_copy ctx target source w = do {
     w \<leftarrow> buf_free (pass target) (pass_sz target) w;
     k \<leftarrow> buf_copy (key target) (key source) (key_sz ctx);
     hk \<leftarrow> buf_copy (hmac_key target) (hmac_key source) (key_sz ctx);
     let t = source\<lparr>c_addr := c_addr target, key := k, hmac_key := hk\<rparr>;
     case pass source of
       Some (_, d) \<Rightarrow>
         if pass_sz source \<noteq> 0 then do {
           (p, w) \<leftarrow> buf_malloc (pass_sz source) w;
           case p of
             None \<Rightarrow> Some (SQLITE_NOMEM, t\<lparr>pass := None\<rparr>, w)
           | Some (a, b) \<Rightarrow>
               Some (SQLITE_OK, t\<lparr>pass := Some (a, memcpy_at b 0 (take (nat (pass_sz source)) d))\<rparr>, w) }
         else Some (SQLITE_OK, t, w)
     | None \<Rightarrow> Some (SQLITE_OK, t, w) }"

text \<open>
  The key specification \<open>x'hex(key) hex(hmac key) hex(salt)'\<close>: the keys are unshielded while
  they are encoded.
\<close>

definition sqlcipher_cipher_ctx_get_keyspec ::
    "codec_ctx \<Rightarrow> cipher_ctx \<Rightarrow> world \<Rightarrow> (rc \<times> buf option \<times> int \<times> world) option" where
  "sqlcipher_cipher_ctx_get_keyspec ctx c w = do {
     let hm = SQLCIPHER_FLAG_GET (flags ctx) CIPHER_FLAG_HMAC;
     let sz = (if hm then (key_sz ctx + key_sz ctx + kdf_salt_sz ctx) * 2 + 3
               else (key_sz ctx + kdf_salt_sz ctx) * 2 + 3);
     let ksz = nat (key_sz ctx);
     (r, w) \<leftarrow> buf_malloc sz w;
     case r of
       None \<Rightarrow> Some (SQLITE_NOMEM, None, 0, w)
     | Some (a, b) \<Rightarrow> do {
         (_, k) \<leftarrow> key c;
         (_, salt) \<leftarrow> kdf_salt ctx;
         let b = b[0 := 0x78, 1 := 0x27];
         let b = cipher_bin2hex (sqlcipher_shield (shield_mask w) k ksz) ksz b 2;
         let off = 2 + ksz * 2;
         b \<leftarrow> (if hm then do {
                (_, hk) \<leftarrow> hmac_key c;
                Some (cipher_bin2hex (sqlcipher_shield (shield_mask w) hk ksz) ksz b off) }
              else Some b);
         let off = (if hm then off + ksz * 2 else off);
         let b = cipher_bin2hex salt (nat (kdf_salt_sz ctx)) b off;
         let b = b[nat (sz - 1) := 0x27];
         Some (SQLITE_OK, Some (a, b), sz, w) } }"

definition sqlcipher_set_derive_key :: "codec_ctx \<Rightarrow> int \<Rightarrow> codec_ctx" where
  "sqlcipher_set_derive_key ctx derive =
     ctx\<lparr>read_ctx := map_option (derive_key_update (\<lambda>_. derive)) (read_ctx ctx),
         write_ctx := map_option (derive_key_update (\<lambda>_. derive)) (write_ctx ctx)\<rparr>"

definition sqlcipher_cipher_ctx_set_pass ::
    "cipher_ctx \<Rightarrow> bytes option \<Rightarrow> int \<Rightarrow> world \<Rightarrow> (rc \<times> cipher_ctx \<times> world) option" where
  "sqlcipher_cipher_ctx_set_pass c zKey nKey w = do {
     w \<leftarrow> buf_free (pass c) (pass_sz c) w;
     let c = c\<lparr>pass := None, pass_sz := 0\<rparr>;
     case zKey of
       Some z \<Rightarrow>
         if nKey > 0 then do {
           (p, w) \<leftarrow> buf_malloc nKey w;
           case p of
             None \<Rightarrow> Some (SQLITE_NOMEM, c\<lparr>pass_sz := nKey\<rparr>, w)
           | Some (a, b) \<Rightarrow>
               Some (SQLITE_OK, c\<lparr>pass_sz := nKey, pass := Some (a, memcpy_at b 0 (take (nat nKey) z))\<rparr>, w) }
         else Some (SQLITE_OK, c, w)
     | None \<Rightarrow> Some (SQLITE_OK, c, w) }"

definition sqlcipher_codec_ctx_set_pass ::
    "codec_ctx \<Rightarrow> bytes option \<Rightarrow> int \<Rightarrow> int \<Rightarrow> world \<Rightarrow> (rc \<times> codec_ctx \<times> world) option" where
  "sqlcipher_codec_ctx_set_pass ctx zKey nKey for_ctx w = do {
     c \<leftarrow> (if for_ctx \<noteq> 0 then write_ctx ctx else read_ctx ctx);
     (rc, c, w) \<leftarrow> sqlcipher_cipher_ctx_set_pass c zKey nKey w;
     let put = (\<lambda>c x. if for_ctx \<noteq> 0 then x\<lparr>write_ctx := Some c\<rparr> else x\<lparr>read_ctx := Some c\<rparr>);
     if rc \<noteq> SQLITE_OK then Some (rc, put c ctx, w)
     else do {
       let c = c\<lparr>derive_key := 1\<rparr>;
       let ctx = put c ctx;
       if for_ctx = 2 then do {
         t \<leftarrow> read_ctx ctx;
         (rc, t, w) \<leftarrow> sqlcipher_cipher_ctx_copy ctx t c w;
         Some (rc, ctx\<lparr>read_ctx := Some t\<rparr>, w) }
       else Some (SQLITE_OK, ctx, w) } }"


section \<open>Settings\<close>

definition sqlcipher_codec_ctx_set_kdf_iter :: "codec_ctx \<Rightarrow> int \<Rightarrow> (rc \<times> codec_ctx) option" where
  "sqlcipher_codec_ctx_set_kdf_iter ctx n =
     (if SQLCIPHER_FLAG_GET (flags ctx) CIPHER_FLAG_KEY_USED then Some (SQLITE_OK, ctx)
      else Some (SQLITE_OK, sqlcipher_set_derive_key (ctx\<lparr>kdf_iter := n\<rparr>) 1))"

definition sqlcipher_codec_ctx_set_fast_kdf_iter :: "codec_ctx \<Rightarrow> int \<Rightarrow> (rc \<times> codec_ctx) option" where
  "sqlcipher_codec_ctx_set_fast_kdf_iter ctx n =
     (if SQLCIPHER_FLAG_GET (flags ctx) CIPHER_FLAG_KEY_USED then Some (SQLITE_OK, ctx)
      else Some (SQLITE_OK, sqlcipher_set_derive_key (ctx\<lparr>fast_kdf_iter := n\<rparr>) 1))"

definition sqlcipher_set_default_use_hmac :: "int \<Rightarrow> world \<Rightarrow> world" where
  "sqlcipher_set_default_use_hmac use w =
     w\<lparr>default_flags := (if use \<noteq> 0 then SQLCIPHER_FLAG_SET (default_flags w) CIPHER_FLAG_HMAC
                         else SQLCIPHER_FLAG_UNSET (default_flags w) CIPHER_FLAG_HMAC)\<rparr>"

definition sqlcipher_codec_ctx_set_use_hmac :: "codec_ctx \<Rightarrow> int \<Rightarrow> (rc \<times> codec_ctx) option" where
  "sqlcipher_codec_ctx_set_use_hmac ctx use =
     (if SQLCIPHER_FLAG_GET (flags ctx) CIPHER_FLAG_KEY_USED then Some (SQLITE_OK, ctx)
      else sqlcipher_codec_ctx_reserve_setup
             (ctx\<lparr>flags := (if use \<noteq> 0 then SQLCIPHER_FLAG_SET (flags ctx) CIPHER_FLAG_HMAC
                            else SQLCIPHER_FLAG_UNSET (flags ctx) CIPHER_FLAG_HMAC)\<rparr>))"

definition sqlcipher_codec_ctx_set_plaintext_header_size :: "codec_ctx \<Rightarrow> int \<Rightarrow> (rc \<times> codec_ctx) option" where
  "sqlcipher_codec_ctx_set_plaintext_header_size ctx sz =
     (if sz \<ge> 0 \<and> block_sz ctx > 0 \<and> sz smod block_sz ctx = 0 \<and> sz \<le> page_sz ctx - reserve_sz ctx
      then Some (SQLITE_OK, ctx\<lparr>plaintext_header_sz := sz\<rparr>)
      else Some (SQLITE_ERROR, ctx\<lparr>plaintext_header_sz := - 1\<rparr>))"

definition sqlcipher_codec_ctx_set_hmac_algorithm :: "codec_ctx \<Rightarrow> int \<Rightarrow> (rc \<times> codec_ctx) option" where
  "sqlcipher_codec_ctx_set_hmac_algorithm ctx algorithm =
     (if SQLCIPHER_FLAG_GET (flags ctx) CIPHER_FLAG_KEY_USED then Some (SQLITE_OK, ctx)
      else sqlcipher_codec_ctx_reserve_setup (ctx\<lparr>hmac_algorithm := algorithm\<rparr>))"

definition sqlcipher_codec_ctx_set_kdf_algorithm :: "codec_ctx \<Rightarrow> int \<Rightarrow> (rc \<times> codec_ctx) option" where
  "sqlcipher_codec_ctx_set_kdf_algorithm ctx algorithm =
     (if SQLCIPHER_FLAG_GET (flags ctx) CIPHER_FLAG_KEY_USED then Some (SQLITE_OK, ctx)
      else Some (SQLITE_OK, ctx\<lparr>kdf_algorithm := algorithm\<rparr>))"

definition TRANS_WRITE :: int where "TRANS_WRITE = 2"
definition BTS_READ_ONLY :: u32 where "BTS_READ_ONLY = 1"

definition sqlcipher_codec_ctx_set_error :: "codec_ctx \<Rightarrow> rc \<Rightarrow> codec_ctx" where
  "sqlcipher_codec_ctx_set_error ctx e =
     (let bt = pBt ctx;
          bt = (if bt_inTransaction bt \<noteq> TRANS_WRITE then bt\<lparr>bt_btsFlags := bt_btsFlags bt OR BTS_READ_ONLY\<rparr> else bt)
      in ctx\<lparr>pBt := bt\<lparr>bt_errCode := e\<rparr>, x_error := e\<rparr>)"

text \<open>The salt is the head of the database file, or random bytes when it cannot be read.\<close>

definition sqlcipher_codec_ctx_init_kdf_salt :: "codec_ctx \<Rightarrow> world \<Rightarrow> (rc \<times> codec_ctx \<times> world) option" where
  "sqlcipher_codec_ctx_init_kdf_salt ctx w =
     (if SQLCIPHER_FLAG_GET (flags ctx) CIPHER_FLAG_HAS_KDF_SALT then Some (SQLITE_OK, ctx, w)
      else do {
        (a, d) \<leftarrow> kdf_salt ctx;
        p \<leftarrow> x_provider ctx;
        let n = nat (kdf_salt_sz ctx);
        let d1 = (case bt_header (pBt ctx) of None \<Rightarrow> d | Some (_, bs) \<Rightarrow> memcpy_at d 0 (take n bs));
        let found = (case bt_header (pBt ctx) of None \<Rightarrow> False | Some (rc, _) \<Rightarrow> rc = SQLITE_OK);
        let set = (\<lambda>d. ctx\<lparr>kdf_salt := Some (a, d)\<rparr>);
        let ok = (\<lambda>d. (set d)\<lparr>flags := SQLCIPHER_FLAG_SET (flags ctx) CIPHER_FLAG_HAS_KDF_SALT\<rparr>);
        if found then Some (SQLITE_OK, ok d1, w)
        else do {
          let (rc, bs) = pv_random p (w_calls w) n;
          let w = w\<lparr>w_calls := w_calls w + 1\<rparr>;
          let d2 = memcpy_at d1 0 bs;
          if rc \<noteq> SQLITE_OK then Some (SQLITE_ERROR, set d2, w) else Some (SQLITE_OK, ok d2, w) } })"

definition sqlcipher_codec_ctx_set_kdf_salt :: "codec_ctx \<Rightarrow> bytes \<Rightarrow> int \<Rightarrow> (rc \<times> codec_ctx) option" where
  "sqlcipher_codec_ctx_set_kdf_salt ctx salt sz =
     (if SQLCIPHER_FLAG_GET (flags ctx) CIPHER_FLAG_KEY_USED then Some (SQLITE_OK, ctx)
      else if sz \<ge> kdf_salt_sz ctx then do {
        (a, d) \<leftarrow> kdf_salt ctx;
        Some (SQLITE_OK, ctx\<lparr>kdf_salt := Some (a, memcpy_at d 0 (take (nat (kdf_salt_sz ctx)) salt)),
                             flags := SQLCIPHER_FLAG_SET (flags ctx) CIPHER_FLAG_HAS_KDF_SALT\<rparr>) }
      else Some (SQLITE_ERROR, ctx))"

definition sqlcipher_codec_ctx_get_kdf_salt :: "codec_ctx \<Rightarrow> world \<Rightarrow> (rc \<times> buf option \<times> codec_ctx \<times> world) option" where
  "sqlcipher_codec_ctx_get_kdf_salt ctx w =
     (if \<not> SQLCIPHER_FLAG_GET (flags ctx) CIPHER_FLAG_HAS_KDF_SALT then do {
        (rc, ctx, w) \<leftarrow> sqlcipher_codec_ctx_init_kdf_salt ctx w;
        Some (rc, kdf_salt ctx, ctx, w) }
      else Some (SQLITE_OK, kdf_salt ctx, ctx, w))"

definition sqlcipher_codec_ctx_set_pagesize :: "codec_ctx \<Rightarrow> int \<Rightarrow> world \<Rightarrow> (rc \<times> codec_ctx \<times> world) option" where
  "sqlcipher_codec_ctx_set_pagesize ctx sz w =
     (if SQLCIPHER_FLAG_GET (flags ctx) CIPHER_FLAG_KEY_USED then Some (SQLITE_OK, ctx, w)
      else if \<not> (sz \<noteq> 0 \<and> sz AND (sz - 1) = 0) \<or> sz < 512 \<or> sz > 65536 then Some (SQLITE_ERROR, ctx, w)
      else do {
        w \<leftarrow> buf_free (buffer ctx) (page_sz ctx) w;
        (b, w) \<leftarrow> buf_malloc sz w;
        Some (if b = None then SQLITE_NOMEM else SQLITE_OK, ctx\<lparr>page_sz := sz, buffer := b\<rparr>, w) })"

section \<open>Codec contexts\<close>

definition sqlcipher_codec_ctx_free :: "codec_ctx \<Rightarrow> world \<Rightarrow> world option" where
  "sqlcipher_codec_ctx_free ctx w = do {
     w \<leftarrow> buf_free (kdf_salt ctx) (kdf_salt_sz ctx) w;
     w \<leftarrow> buf_free (hmac_kdf_salt ctx) (kdf_salt_sz ctx) w;
     w \<leftarrow> buf_free (buffer ctx) (page_sz ctx) w;
     w \<leftarrow> (case read_ctx ctx of None \<Rightarrow> Some w | Some c \<Rightarrow> sqlcipher_cipher_ctx_free ctx c w);
     w \<leftarrow> (case write_ctx ctx of None \<Rightarrow> Some w | Some c \<Rightarrow> sqlcipher_cipher_ctx_free ctx c w);
     w_free (x_addr ctx) sizeof_codec_ctx w }"

text \<open>The zeroed structure \<open>sqlcipher_malloc(sizeof(codec_ctx))\<close> yields, with its \<open>pBt\<close>.\<close>

definition codec_ctx_zero :: "nat \<Rightarrow> btree \<Rightarrow> codec_ctx" where
  "codec_ctx_zero a bt = \<lparr>x_addr = a, store_pass = 0, kdf_iter = 0, fast_kdf_iter = 0, kdf_salt_sz = 0, key_sz = 0,
     iv_sz = 0, block_sz = 0, page_sz = 0, reserve_sz = 0, hmac_sz = 0, plaintext_header_sz = 0, hmac_algorithm = 0,
     kdf_algorithm = 0, x_error = 0, flags = 0, kdf_salt = None, hmac_kdf_salt = None, buffer = None, pBt = bt,
     read_ctx = None, write_ctx = None, x_provider = None\<rparr>"

text \<open>
  \<open>if((rc = f(...)) != SQLITE_OK) goto error;\<close> in sequence, for calls that change the context
  only and for calls that change the heap too.
\<close>

type_synonym ctx_step = "codec_ctx \<Rightarrow> world \<Rightarrow> (rc \<times> codec_ctx \<times> world) option"

definition pure_step :: "(codec_ctx \<Rightarrow> (rc \<times> codec_ctx) option) \<Rightarrow> ctx_step" where
  "pure_step f ctx w = do { (rc, ctx) \<leftarrow> f ctx; Some (rc, ctx, w) }"

fun run_steps :: "ctx_step list \<Rightarrow> ctx_step" where
  "run_steps [] ctx w = Some (SQLITE_OK, ctx, w)"
| "run_steps (f # fs) ctx w = do {
     (rc, ctx, w) \<leftarrow> f ctx w;
     if rc \<noteq> SQLITE_OK then Some (rc, ctx, w) else run_steps fs ctx w }"

definition init_salts :: ctx_step where
  "init_salts ctx w = do {
     let ctx = ctx\<lparr>kdf_salt_sz := FILE_HEADER_SZ\<rparr>;
     (s, w) \<leftarrow> buf_malloc (kdf_salt_sz ctx) w;
     let ctx = ctx\<lparr>kdf_salt := s\<rparr>;
     if s = None then Some (SQLITE_NOMEM, ctx, w)
     else do {
       (hs, w) \<leftarrow> buf_malloc (kdf_salt_sz ctx) w;
       Some (if hs = None then SQLITE_NOMEM else SQLITE_OK, ctx\<lparr>hmac_kdf_salt := hs\<rparr>, w) } }"

definition init_provider :: "provider \<Rightarrow> ctx_step" where
  "init_provider p ctx w =
     (let ctx = ctx\<lparr>flags := default_flags w, x_provider := Some p\<rparr>;
          rc = pv_ctx_init p (w_calls w);
          w = w\<lparr>w_calls := w_calls w + 1\<rparr>
      in if rc \<noteq> SQLITE_OK then Some (rc, ctx, w)
         else Some (SQLITE_OK, ctx\<lparr>key_sz := pv_get_key_sz p, iv_sz := pv_get_iv_sz p,
                                   block_sz := pv_get_block_sz p\<rparr>, w))"

definition init_read_ctx :: ctx_step where
  "init_read_ctx ctx w = do {
     (rc, c, w) \<leftarrow> sqlcipher_cipher_ctx_init ctx w;
     Some (rc, ctx\<lparr>read_ctx := c\<rparr>, w) }"

definition init_write_ctx :: ctx_step where
  "init_write_ctx ctx w = do {
     (rc, c, w) \<leftarrow> sqlcipher_cipher_ctx_init ctx w;
     Some (rc, ctx\<lparr>write_ctx := c\<rparr>, w) }"

definition init_copy_ctx :: ctx_step where
  "init_copy_ctx ctx w = do {
     r \<leftarrow> read_ctx ctx;
     t \<leftarrow> write_ctx ctx;
     (rc, t, w) \<leftarrow> sqlcipher_cipher_ctx_copy ctx t r w;
     Some (rc, ctx\<lparr>write_ctx := Some t\<rparr>, w) }"

text \<open>The calls of \<open>sqlcipher_codec_ctx_init\<close> after the context is allocated, in order.\<close>

definition codec_init_steps :: "provider \<Rightarrow> bytes option \<Rightarrow> int \<Rightarrow> ctx_step list" where
  "codec_init_steps p zKey nKey =
     [init_salts,
      init_provider p,
      (\<lambda>ctx w. sqlcipher_codec_ctx_set_pagesize ctx (default_page_size w) w),
      (\<lambda>ctx w. pure_step (\<lambda>c. sqlcipher_codec_ctx_set_kdf_iter c (default_kdf_iter w)) ctx w),
      pure_step (\<lambda>c. sqlcipher_codec_ctx_set_fast_kdf_iter c FAST_PBKDF2_ITER),
      (\<lambda>ctx w. pure_step (\<lambda>c. sqlcipher_codec_ctx_set_hmac_algorithm c (default_hmac_algorithm w)) ctx w),
      (\<lambda>ctx w. pure_step (\<lambda>c. sqlcipher_codec_ctx_set_use_hmac c
         (if SQLCIPHER_FLAG_GET (default_flags w) CIPHER_FLAG_HMAC then 1 else 0)) ctx w),
      (\<lambda>ctx w. pure_step (\<lambda>c. sqlcipher_codec_ctx_set_kdf_algorithm c (default_kdf_algorithm w)) ctx w),
      (\<lambda>ctx w. pure_step (\<lambda>c. sqlcipher_codec_ctx_set_plaintext_header_size c
         (default_plaintext_header_size w)) ctx w),
      init_read_ctx,
      init_write_ctx,
      (\<lambda>ctx. sqlcipher_codec_ctx_set_pass ctx zKey nKey 0),
      init_copy_ctx]"

definition sqlcipher_codec_ctx_init ::
    "provider \<Rightarrow> btree \<Rightarrow> bytes option \<Rightarrow> int \<Rightarrow> world \<Rightarrow> (rc \<times> codec_ctx option \<times> world) option" where
  "sqlcipher_codec_ctx_init p bt zKey nKey w = do {
     (r, w) \<leftarrow> w_malloc sizeof_codec_ctx w;
     case r of
       None \<Rightarrow> Some (SQLITE_NOMEM, None, w)
     | Some a \<Rightarrow> do {
         (rc, ctx, w) \<leftarrow> run_steps (codec_init_steps p zKey nKey) (codec_ctx_zero a bt) w;
         if rc \<noteq> SQLITE_OK then do {
           w \<leftarrow> sqlcipher_codec_ctx_free ctx w;
           Some (rc, None, w) }
         else Some (SQLITE_OK, Some ctx, w) } }"

end
