(* ===== verification/SC_CodecLife.thy ===== *)
theory SC_CodecLife
  imports SC_CodecCtx
begin

text \<open>
  The life of a codec context on the private heap: what its construction establishes, that
  no failure on the way leaks a block, and that its release returns every block it owns.
\<close>

unbundle bit_operations_syntax

section \<open>Flags\<close>

named_theorems flag_simps

lemma and_push_bit_1: "n < 32 \<Longrightarrow> (f :: u32) AND push_bit n 1 \<noteq> 0 \<longleftrightarrow> bit f n"
  unfolding bit_eq_iff [of "f AND push_bit n 1" 0] by (auto simp: bit_simps possible_bit_def)

lemma bit_push_bit_1: "k < 32 \<Longrightarrow> bit (push_bit k 1 :: u32) n = (n = k)"
  by (auto simp: bit_simps possible_bit_def)

lemma flag_get_bits [flag_simps]:
  "SQLCIPHER_FLAG_GET f CIPHER_FLAG_HMAC = bit f 0"
  "SQLCIPHER_FLAG_GET f CIPHER_FLAG_LE_PGNO = bit f 1"
  "SQLCIPHER_FLAG_GET f CIPHER_FLAG_BE_PGNO = bit f 2"
  "SQLCIPHER_FLAG_GET f CIPHER_FLAG_KEY_USED = bit f 3"
  "SQLCIPHER_FLAG_GET f CIPHER_FLAG_HAS_KDF_SALT = bit f 4"
  unfolding SQLCIPHER_FLAG_GET_def CIPHER_FLAG_HMAC_def CIPHER_FLAG_LE_PGNO_def CIPHER_FLAG_BE_PGNO_def
    CIPHER_FLAG_KEY_USED_def CIPHER_FLAG_HAS_KDF_SALT_def
  by (rule and_push_bit_1, simp)+

lemma bit_flags [flag_simps]:
  "bit CIPHER_FLAG_HMAC n = (n = 0)" "bit CIPHER_FLAG_LE_PGNO n = (n = 1)" "bit CIPHER_FLAG_BE_PGNO n = (n = 2)"
  "bit CIPHER_FLAG_KEY_USED n = (n = 3)" "bit CIPHER_FLAG_HAS_KDF_SALT n = (n = 4)"
  unfolding CIPHER_FLAG_HMAC_def CIPHER_FLAG_LE_PGNO_def CIPHER_FLAG_BE_PGNO_def
    CIPHER_FLAG_KEY_USED_def CIPHER_FLAG_HAS_KDF_SALT_def
  by (rule bit_push_bit_1, simp)+

lemma bit_flag_set [flag_simps]: "n < 32 \<Longrightarrow> bit (SQLCIPHER_FLAG_SET f b) n = (bit f n \<or> bit b n)"
  by (simp add: SQLCIPHER_FLAG_SET_def bit_simps)

lemma bit_flag_unset [flag_simps]: "n < 32 \<Longrightarrow> bit (SQLCIPHER_FLAG_UNSET f b) n = (bit f n \<and> \<not> bit b n)"
  by (simp add: SQLCIPHER_FLAG_UNSET_def bit_simps)

section \<open>Ownership\<close>

definition ob :: "int \<Rightarrow> buf option \<Rightarrow> (nat \<times> nat) multiset" where
  "ob n b = (case b of None \<Rightarrow> {#} | Some (p, _) \<Rightarrow> {#(p, u64_size n)#})"

definition cipher_owned :: "int \<Rightarrow> cipher_ctx option \<Rightarrow> (nat \<times> nat) multiset" where
  "cipher_owned ksz c = (case c of None \<Rightarrow> {#} | Some c \<Rightarrow>
     {#(c_addr c, u64_size sizeof_cipher_ctx)#} + ob ksz (key c) + ob ksz (hmac_key c) + ob (pass_sz c) (pass c))"

definition codec_owned :: "codec_ctx \<Rightarrow> (nat \<times> nat) multiset" where
  "codec_owned ctx = {#(x_addr ctx, u64_size sizeof_codec_ctx)#}
     + ob (kdf_salt_sz ctx) (kdf_salt ctx) + ob (kdf_salt_sz ctx) (hmac_kdf_salt ctx) + ob (page_sz ctx) (buffer ctx)
     + cipher_owned (key_sz ctx) (read_ctx ctx) + cipher_owned (key_sz ctx) (write_ctx ctx)"

text \<open>The heap of \<open>w\<close> is well formed, its owner holds \<open>M\<close>, everyone else \<open>R\<close>; globals are those of \<open>g\<close>.\<close>

definition holds :: "world \<Rightarrow> (nat \<times> nat) set \<Rightarrow> (nat \<times> nat) multiset \<Rightarrow> world \<Rightarrow> bool" where
  "holds g R M w \<longleftrightarrow> (\<exists>h n. w = g\<lparr>w_heap := h, w_calls := n\<rparr> \<and> heap_inv h \<and> owns (live h) R M)"

lemma ob_simps [simp]: "ob n None = {#}" "ob n (Some (p, d)) = {#(p, u64_size n)#}"
  by (simp_all add: ob_def)

lemma cipher_owned_None [simp]: "cipher_owned k None = {#}"
  by (simp add: cipher_owned_def)

lemma holds_malloc:
  assumes "holds g R M w"
  obtains r w' where "w_malloc n w = Some (r, w')"
    "holds g R (M + (case r of None \<Rightarrow> {#} | Some p \<Rightarrow> {#(p, u64_size n)#})) w'"
proof -
  from assms obtain h k where w: "w = g\<lparr>w_heap := h, w_calls := k\<rparr>" "heap_inv h" "owns (live h) R M" by (auto simp: holds_def)
  from ph.owns_alloc [OF w(2,3), of "u64_size n"] obtain r h' where
    h: "sqlcipher_malloc (u64_size n) h = Some (r, h')" "heap_inv h'"
    "case r of None \<Rightarrow> owns (live h') R M | Some p \<Rightarrow> owns (live h') R (add_mset (p, u64_size n) M)" by blast
  have "w_malloc n w = Some (r, g\<lparr>w_heap := h', w_calls := k\<rparr>)" using h(1) by (simp add: w_malloc_def w(1))
  moreover have "holds g R (M + (case r of None \<Rightarrow> {#} | Some p \<Rightarrow> {#(p, u64_size n)#})) (g\<lparr>w_heap := h', w_calls := k\<rparr>)"
    unfolding holds_def using h by (intro exI [of _ h'] exI [of _ k]) (auto split: option.splits)
  ultimately show ?thesis using that by blast
qed

lemma holds_free:
  assumes "holds g R (add_mset (p, u64_size n) M) w"
  obtains w' where "w_free p n w = Some w'" "holds g R M w'"
proof -
  from assms obtain h k where w: "w = g\<lparr>w_heap := h, w_calls := k\<rparr>" "heap_inv h"
    "owns (live h) R (add_mset (p, u64_size n) M)" by (auto simp: holds_def)
  from ph.owns_release [OF w(2,3)] obtain h' where
    h: "sqlcipher_free p (u64_size n) h = Some h'" "heap_inv h'" "owns (live h') R M" by blast
  have "w_free p n w = Some (g\<lparr>w_heap := h', w_calls := k\<rparr>)" using h(1) by (simp add: w_free_def w(1))
  moreover have "holds g R M (g\<lparr>w_heap := h', w_calls := k\<rparr>)" unfolding holds_def using h by blast
  ultimately show ?thesis using that by blast
qed

lemma holds_calls: "holds g R M w \<Longrightarrow> holds g R M (w\<lparr>w_calls := k\<rparr>)"
proof -
  assume "holds g R M w"
  then obtain h n where "w = g\<lparr>w_heap := h, w_calls := n\<rparr>" "heap_inv h" "owns (live h) R M" by (auto simp: holds_def)
  then show ?thesis unfolding holds_def by (intro exI [of _ h] exI [of _ k]) simp
qed

lemma holds_buf_malloc:
  assumes "holds g R M w"
  obtains b w' where "buf_malloc n w = Some (b, w')" "holds g R (M + ob n b) w'"
    "b = None \<or> (\<exists>a. b = Some (a, replicate (nat n) 0))"
proof -
  obtain r w' where "w_malloc n w = Some (r, w')"
    "holds g R (M + (case r of None \<Rightarrow> {#} | Some p \<Rightarrow> {#(p, u64_size n)#})) w'" using holds_malloc [OF assms] by blast
  then show ?thesis using that by (cases r) (auto simp: buf_malloc_def)
qed

lemma holds_buf_free:
  assumes "holds g R (M + ob n b) w"
  obtains w' where "buf_free b n w = Some w'" "holds g R M w'"
proof (cases b)
  case None
  then show ?thesis using that assms by (simp add: buf_free_def)
next
  case (Some x)
  then obtain p d where x: "b = Some (p, d)" by (cases x) auto
  then have "holds g R (add_mset (p, u64_size n) M) w" using assms by simp
  from holds_free [OF this] obtain w' where "w_free p n w = Some w'" "holds g R M w'" by blast
  then show ?thesis using that x by (simp add: buf_free_def)
qed

lemma holds_cipher_free:
  assumes "holds g R (M + cipher_owned (key_sz ctx) (Some c)) w"
  obtains w' where "sqlcipher_cipher_ctx_free ctx c w = Some w'" "holds g R M w'"
proof -
  have 1: "M + cipher_owned (key_sz ctx) (Some c) = add_mset (c_addr c, u64_size sizeof_cipher_ctx) M
      + ob (pass_sz c) (pass c) + ob (key_sz ctx) (hmac_key c) + ob (key_sz ctx) (key c)"
    by (simp add: cipher_owned_def ac_simps)
  obtain w1 where w1: "buf_free (key c) (key_sz ctx) w = Some w1" "holds g R (add_mset (c_addr c, u64_size sizeof_cipher_ctx) M
      + ob (pass_sz c) (pass c) + ob (key_sz ctx) (hmac_key c)) w1"
    using holds_buf_free [OF assms [unfolded 1]] by blast
  obtain w2 where w2: "buf_free (hmac_key c) (key_sz ctx) w1 = Some w2"
    "holds g R (add_mset (c_addr c, u64_size sizeof_cipher_ctx) M + ob (pass_sz c) (pass c)) w2"
    using holds_buf_free [OF w1(2)] by blast
  obtain w3 where w3: "buf_free (pass c) (pass_sz c) w2 = Some w3"
    "holds g R (add_mset (c_addr c, u64_size sizeof_cipher_ctx) M) w3"
    using holds_buf_free [OF w2(2)] by blast
  obtain w4 where "w_free (c_addr c) sizeof_cipher_ctx w3 = Some w4" "holds g R M w4" using holds_free [OF w3(2)] by blast
  then show ?thesis using that w1 w2 w3 by (simp add: sqlcipher_cipher_ctx_free_def)
qed

lemma holds_cipher_free_opt:
  assumes "holds g R (M + cipher_owned (key_sz ctx) c) w"
  obtains w' where "(case c of None \<Rightarrow> Some w | Some c \<Rightarrow> sqlcipher_cipher_ctx_free ctx c w) = Some w'" "holds g R M w'"
proof (cases c)
  case None
  then show ?thesis using assms that by simp
next
  case (Some x)
  with assms have "holds g R (M + cipher_owned (key_sz ctx) (Some x)) w" by simp
  from holds_cipher_free [OF this] that Some show ?thesis by auto
qed

lemma holds_codec_free:
  assumes "holds g R (M + codec_owned ctx) w"
  obtains w' where "sqlcipher_codec_ctx_free ctx w = Some w'" "holds g R M w'"
proof -
  let ?x = "add_mset (x_addr ctx, u64_size sizeof_codec_ctx) M"
  let ?w = "cipher_owned (key_sz ctx) (write_ctx ctx)" and ?r = "cipher_owned (key_sz ctx) (read_ctx ctx)"
  let ?b = "ob (page_sz ctx) (buffer ctx)" and ?h = "ob (kdf_salt_sz ctx) (hmac_kdf_salt ctx)"
  have 1: "M + codec_owned ctx = ?x + ?w + ?r + ?b + ?h + ob (kdf_salt_sz ctx) (kdf_salt ctx)"
    by (simp add: codec_owned_def ac_simps)
  obtain w1 where w1: "buf_free (kdf_salt ctx) (kdf_salt_sz ctx) w = Some w1" "holds g R (?x + ?w + ?r + ?b + ?h) w1"
    using holds_buf_free [OF assms [unfolded 1]] by blast
  obtain w2 where w2: "buf_free (hmac_kdf_salt ctx) (kdf_salt_sz ctx) w1 = Some w2" "holds g R (?x + ?w + ?r + ?b) w2"
    using holds_buf_free [OF w1(2)] by blast
  obtain w3 where w3: "buf_free (buffer ctx) (page_sz ctx) w2 = Some w3" "holds g R (?x + ?w + ?r) w3"
    using holds_buf_free [OF w2(2)] by blast
  obtain w4 where w4: "(case read_ctx ctx of None \<Rightarrow> Some w3 | Some c \<Rightarrow> sqlcipher_cipher_ctx_free ctx c w3) = Some w4"
    "holds g R (?x + ?w) w4" using holds_cipher_free_opt [OF w3(2)] by blast
  obtain w5 where w5: "(case write_ctx ctx of None \<Rightarrow> Some w4 | Some c \<Rightarrow> sqlcipher_cipher_ctx_free ctx c w4) = Some w5"
    "holds g R ?x w5" using holds_cipher_free_opt [OF w4(2)] by blast
  obtain w6 where "w_free (x_addr ctx) sizeof_codec_ctx w5 = Some w6" "holds g R M w6" using holds_free [OF w5(2)] by blast
  then show ?thesis using that w1(1) w2(1) w3(1) w4(1) w5(1) by (simp add: sqlcipher_codec_ctx_free_def)
qed


section \<open>Well-formed contexts\<close>

definition buf_ok :: "int \<Rightarrow> buf option \<Rightarrow> bool" where
  "buf_ok n b \<longleftrightarrow> (\<exists>a d. b = Some (a, d) \<and> length d = nat n)"

definition cipher_wf :: "int \<Rightarrow> cipher_ctx \<Rightarrow> bool" where
  "cipher_wf ksz c \<longleftrightarrow> buf_ok ksz (key c) \<and> buf_ok ksz (hmac_key c)
     \<and> (pass c = None \<longrightarrow> pass_sz c = 0) \<and> (\<forall>a d. pass c = Some (a, d) \<longrightarrow> 0 < pass_sz c \<and> length d = nat (pass_sz c))"

definition reserve_for :: "provider \<Rightarrow> u32 \<Rightarrow> int \<Rightarrow> int" where
  "reserve_for p fl alg =
     (let r = (if SQLCIPHER_FLAG_GET fl CIPHER_FLAG_HMAC then pv_get_iv_sz p + pv_get_hmac_sz p alg else pv_get_iv_sz p)
      in if r smod pv_get_block_sz p = 0 then r else (r sdiv pv_get_block_sz p + 1) * pv_get_block_sz p)"

definition page_size_ok :: "int \<Rightarrow> bool" where
  "page_size_ok sz \<longleftrightarrow> sz \<noteq> 0 \<and> sz AND (sz - 1) = 0 \<and> 512 \<le> sz \<and> sz \<le> 65536"

text \<open>The part of the invariant that concerns the provider and the settings.\<close>

definition settings_wf :: "codec_ctx \<Rightarrow> bool" where
  "settings_wf ctx \<longleftrightarrow> (\<exists>p. x_provider ctx = Some p \<and> provider_ok p
     \<and> key_sz ctx = pv_get_key_sz p \<and> iv_sz ctx = pv_get_iv_sz p \<and> block_sz ctx = pv_get_block_sz p
     \<and> hmac_sz ctx = pv_get_hmac_sz p (hmac_algorithm ctx) \<and> reserve_sz ctx = reserve_for p (flags ctx) (hmac_algorithm ctx))
   \<and> page_size_ok (page_sz ctx)"

definition buffers_wf :: "codec_ctx \<Rightarrow> bool" where
  "buffers_wf ctx \<longleftrightarrow> kdf_salt_sz ctx = FILE_HEADER_SZ \<and> buf_ok FILE_HEADER_SZ (kdf_salt ctx)
     \<and> buf_ok FILE_HEADER_SZ (hmac_kdf_salt ctx) \<and> buf_ok (page_sz ctx) (buffer ctx)"

definition ciphers_wf :: "codec_ctx \<Rightarrow> bool" where
  "ciphers_wf ctx \<longleftrightarrow> (\<exists>r t. read_ctx ctx = Some r \<and> write_ctx ctx = Some t
     \<and> cipher_wf (key_sz ctx) r \<and> cipher_wf (key_sz ctx) t)"

definition codec_wf :: "codec_ctx \<Rightarrow> bool" where
  "codec_wf ctx \<longleftrightarrow> settings_wf ctx \<and> buffers_wf ctx \<and> ciphers_wf ctx"

section \<open>Construction\<close>

text \<open>
  A step from contexts with \<open>P\<close>: it has a result, the context it leaves owns exactly the
  blocks that were allocated and not released, and on success it satisfies \<open>Q\<close>.
\<close>

definition triple :: "world \<Rightarrow> (codec_ctx \<Rightarrow> bool) \<Rightarrow> ctx_step \<Rightarrow> (codec_ctx \<Rightarrow> bool) \<Rightarrow> bool" where
  "triple g P f Q \<longleftrightarrow> (\<forall>R M ctx w. P ctx \<longrightarrow> holds g R (M + codec_owned ctx) w \<longrightarrow>
     (\<exists>rc ctx' w'. f ctx w = Some (rc, ctx', w') \<and> holds g R (M + codec_owned ctx') w'
        \<and> (rc = SQLITE_OK \<longrightarrow> Q ctx')))"

lemma tripleI:
  "(\<And>R M ctx w. P ctx \<Longrightarrow> holds g R (M + codec_owned ctx) w \<Longrightarrow>
     \<exists>rc ctx' w'. f ctx w = Some (rc, ctx', w') \<and> holds g R (M + codec_owned ctx') w' \<and> (rc = SQLITE_OK \<longrightarrow> Q ctx')) \<Longrightarrow>
   triple g P f Q"
  by (simp add: triple_def)

lemma tripleD:
  assumes "triple g P f Q" "P ctx" "holds g R (M + codec_owned ctx) w"
  obtains rc ctx' w' where "f ctx w = Some (rc, ctx', w')" "holds g R (M + codec_owned ctx') w'" "rc = SQLITE_OK \<longrightarrow> Q ctx'"
  using assms unfolding triple_def by blast

lemma triple_nil: "triple g P (run_steps []) P"
  by (simp add: triple_def)

lemma triple_cons:
  assumes "triple g P f Q" "triple g Q (run_steps fs) S"
  shows "triple g P (run_steps (f # fs)) S"
proof (rule tripleI)
  fix R M ctx w assume "P ctx" "holds g R (M + codec_owned ctx) w"
  from tripleD [OF assms(1) this] obtain rc c w' where
    f: "f ctx w = Some (rc, c, w')" "holds g R (M + codec_owned c) w'" "rc = SQLITE_OK \<longrightarrow> Q c" by blast
  show "\<exists>rc ctx' w'. run_steps (f # fs) ctx w = Some (rc, ctx', w') \<and> holds g R (M + codec_owned ctx') w'
      \<and> (rc = SQLITE_OK \<longrightarrow> S ctx')"
  proof (cases "rc = SQLITE_OK")
    case True
    then have "Q c" using f by simp
    from tripleD [OF assms(2) this f(2)] obtain rc2 c2 w2 where "run_steps fs c w' = Some (rc2, c2, w2)"
      "holds g R (M + codec_owned c2) w2" "rc2 = SQLITE_OK \<longrightarrow> S c2" by blast
    then show ?thesis using f True by auto
  next
    case False
    then show ?thesis using f by auto
  qed
qed

lemma triple_pure:
  assumes "\<And>ctx. P ctx \<Longrightarrow> \<exists>rc ctx'. f ctx = Some (rc, ctx') \<and> codec_owned ctx' = codec_owned ctx \<and> (rc = SQLITE_OK \<longrightarrow> Q ctx')"
  shows "triple g P (pure_step f) Q"
proof (rule tripleI)
  fix R M ctx w assume "P ctx" "holds g R (M + codec_owned ctx) w"
  with assms [OF this(1)] show "\<exists>rc ctx' w'. pure_step f ctx w = Some (rc, ctx', w') \<and> holds g R (M + codec_owned ctx') w'
      \<and> (rc = SQLITE_OK \<longrightarrow> Q ctx')" by (auto simp: pure_step_def)
qed

text \<open>A global read by a step is the one of \<open>g\<close>.\<close>

lemma holds_global:
  "holds g R M w \<Longrightarrow> default_flags w = default_flags g \<and> default_page_size w = default_page_size g
     \<and> default_kdf_iter w = default_kdf_iter g \<and> default_hmac_algorithm w = default_hmac_algorithm g
     \<and> default_kdf_algorithm w = default_kdf_algorithm g \<and> shield_mask w = shield_mask g
     \<and> default_plaintext_header_size w = default_plaintext_header_size g \<and> hmac_salt_mask w = hmac_salt_mask g"
  by (auto simp: holds_def)

lemma triple_cong:
  assumes "\<And>ctx w R M. holds g R M w \<Longrightarrow> f ctx w = f' ctx w" "triple g P f' Q"
  shows "triple g P f Q"
proof (rule tripleI)
  fix R M ctx w assume "P ctx" "holds g R (M + codec_owned ctx) w"
  from tripleD [OF assms(2) this] assms(1) [OF this(2), of ctx]
  show "\<exists>rc ctx' w'. f ctx w = Some (rc, ctx', w') \<and> holds g R (M + codec_owned ctx') w' \<and> (rc = SQLITE_OK \<longrightarrow> Q ctx')"
    by metis
qed

lemma codec_owned_setters [simp]:
  "codec_owned (ctx\<lparr>kdf_iter := n\<rparr>) = codec_owned ctx"
  "codec_owned (ctx\<lparr>fast_kdf_iter := n\<rparr>) = codec_owned ctx"
  "codec_owned (ctx\<lparr>hmac_algorithm := n\<rparr>) = codec_owned ctx"
  "codec_owned (ctx\<lparr>kdf_algorithm := n\<rparr>) = codec_owned ctx"
  "codec_owned (ctx\<lparr>plaintext_header_sz := n\<rparr>) = codec_owned ctx"
  "codec_owned (ctx\<lparr>hmac_sz := n\<rparr>) = codec_owned ctx"
  "codec_owned (ctx\<lparr>reserve_sz := n\<rparr>) = codec_owned ctx"
  "codec_owned (ctx\<lparr>flags := fl\<rparr>) = codec_owned ctx"
  "codec_owned (ctx\<lparr>x_provider := pr\<rparr>) = codec_owned ctx"
  by (simp_all add: codec_owned_def)

lemma codec_owned_derive [simp]: "codec_owned (sqlcipher_set_derive_key ctx d) = codec_owned ctx"
  by (auto simp: codec_owned_def sqlcipher_set_derive_key_def cipher_owned_def split: option.splits)

definition salts_wf :: "codec_ctx \<Rightarrow> bool" where
  "salts_wf ctx \<longleftrightarrow> kdf_salt_sz ctx = FILE_HEADER_SZ \<and> buf_ok FILE_HEADER_SZ (kdf_salt ctx)
     \<and> buf_ok FILE_HEADER_SZ (hmac_kdf_salt ctx) \<and> read_ctx ctx = None \<and> write_ctx ctx = None"

definition provider_set :: "provider \<Rightarrow> codec_ctx \<Rightarrow> bool" where
  "provider_set p ctx \<longleftrightarrow> x_provider ctx = Some p \<and> key_sz ctx = pv_get_key_sz p \<and> iv_sz ctx = pv_get_iv_sz p
     \<and> block_sz ctx = pv_get_block_sz p \<and> \<not> bit (flags ctx) 3"

definition paged :: "codec_ctx \<Rightarrow> bool" where
  "paged ctx \<longleftrightarrow> page_size_ok (page_sz ctx) \<and> buf_ok (page_sz ctx) (buffer ctx)"

lemma buf_ok_replicate [simp]: "buf_ok n (Some (a, replicate (nat n) 0))" "\<not> buf_ok n None"
  by (simp_all add: buf_ok_def)

lemma triple_salts: "triple g (\<lambda>c. c = codec_ctx_zero a bt) init_salts (\<lambda>c. salts_wf c \<and> buffer c = None)"
proof (rule tripleI)
  fix R M ctx w assume c: "ctx = codec_ctx_zero a bt" and h: "holds g R (M + codec_owned ctx) w"
  obtain b1 w1 where b1: "buf_malloc FILE_HEADER_SZ w = Some (b1, w1)" "holds g R (M + codec_owned ctx + ob FILE_HEADER_SZ b1) w1"
    "b1 = None \<or> (\<exists>p. b1 = Some (p, replicate (nat FILE_HEADER_SZ) 0))" using holds_buf_malloc [OF h] by blast
  obtain b2 w2 where b2: "buf_malloc FILE_HEADER_SZ w1 = Some (b2, w2)"
    "holds g R (M + codec_owned ctx + ob FILE_HEADER_SZ b1 + ob FILE_HEADER_SZ b2) w2"
    "b2 = None \<or> (\<exists>p. b2 = Some (p, replicate (nat FILE_HEADER_SZ) 0))" using holds_buf_malloc [OF b1(2)] by blast
  have o: "codec_owned (ctx\<lparr>kdf_salt_sz := FILE_HEADER_SZ, kdf_salt := b1\<rparr>) = codec_owned ctx + ob FILE_HEADER_SZ b1"
    "codec_owned (ctx\<lparr>kdf_salt_sz := FILE_HEADER_SZ, kdf_salt := b1, hmac_kdf_salt := b2\<rparr>) = codec_owned ctx + ob FILE_HEADER_SZ b1 + ob FILE_HEADER_SZ b2"
    by (simp_all add: c codec_ctx_zero_def codec_owned_def ac_simps)
  let ?c1 = "ctx\<lparr>kdf_salt_sz := FILE_HEADER_SZ, kdf_salt := b1\<rparr>"
  let ?c2 = "ctx\<lparr>kdf_salt_sz := FILE_HEADER_SZ, kdf_salt := b1, hmac_kdf_salt := b2\<rparr>"
  have h1: "holds g R (M + codec_owned ?c1) w1" "holds g R (M + codec_owned ?c2) w2"
    using b1(2) b2(2) unfolding o by (simp_all only: add.assoc)
  have d: "init_salts ctx w = (if b1 = None then Some (SQLITE_NOMEM, ?c1, w1)
      else Some (if b2 = None then SQLITE_NOMEM else SQLITE_OK, ?c2, w2))"
    using b1(1) b2(1) by (cases b1; cases b2) (simp_all add: init_salts_def Let_def)
  have q: "b1 \<noteq> None \<Longrightarrow> b2 \<noteq> None \<Longrightarrow> salts_wf ?c2 \<and> buffer ?c2 = None"
    using b1(3) b2(3) by (auto simp: salts_wf_def c codec_ctx_zero_def)
  show "\<exists>rc ctx' w'. init_salts ctx w = Some (rc, ctx', w') \<and> holds g R (M + codec_owned ctx') w'
      \<and> (rc = SQLITE_OK \<longrightarrow> salts_wf ctx' \<and> buffer ctx' = None)"
  proof (cases "b1 = None")
    case True
    then show ?thesis using d h1(1) by simp
  next
    case False
    then show ?thesis using d h1(2) q by auto
  qed
qed

lemma triple_provider:
  assumes "\<not> bit (default_flags g) 3"
  shows "triple g (\<lambda>c. salts_wf c \<and> buffer c = None) (init_provider p) (\<lambda>c. salts_wf c \<and> provider_set p c \<and> buffer c = None)"
proof (rule tripleI)
  fix R M ctx w assume c: "salts_wf ctx \<and> buffer ctx = None" and h: "holds g R (M + codec_owned ctx) w"
  let ?w = "w\<lparr>w_calls := w_calls w + 1\<rparr>"
  have "holds g R N ?w" if "holds g R N w" for N using that by (rule holds_calls)
  moreover have "codec_owned (ctx\<lparr>flags := f, x_provider := q, key_sz := k, iv_sz := i, block_sz := b\<rparr>) = codec_owned ctx" for f q k i b
    using c by (simp add: codec_owned_def salts_wf_def)
  ultimately show "\<exists>rc ctx' w'. init_provider p ctx w = Some (rc, ctx', w') \<and> holds g R (M + codec_owned ctx') w'
      \<and> (rc = SQLITE_OK \<longrightarrow> salts_wf ctx' \<and> provider_set p ctx' \<and> buffer ctx' = None)"
    using c h assms holds_global [OF h]
    by (auto simp: init_provider_def salts_wf_def provider_set_def Let_def)
qed

lemma triple_pagesize:
  "triple g (\<lambda>c. salts_wf c \<and> provider_set p c \<and> buffer c = None) (\<lambda>ctx. sqlcipher_codec_ctx_set_pagesize ctx sz)
     (\<lambda>c. salts_wf c \<and> provider_set p c \<and> paged c)"
proof (rule tripleI)
  fix R M ctx w assume c: "salts_wf ctx \<and> provider_set p ctx \<and> buffer ctx = None" and h: "holds g R (M + codec_owned ctx) w"
  obtain b w1 where b: "buf_malloc sz w = Some (b, w1)" "holds g R (M + codec_owned ctx + ob sz b) w1"
    "b = None \<or> (\<exists>p. b = Some (p, replicate (nat sz) 0))" using holds_buf_malloc [OF h] by blast
  let ?c = "ctx\<lparr>page_sz := sz, buffer := b\<rparr>"
  have "codec_owned ?c = codec_owned ctx + ob sz b"
    using c by (simp add: codec_owned_def ac_simps)
  then have h1: "holds g R (M + codec_owned ?c) w1" using b(2) by (simp only: add.assoc)
  have d: "sqlcipher_codec_ctx_set_pagesize ctx sz w =
      (if page_size_ok sz then Some (if b = None then SQLITE_NOMEM else SQLITE_OK, ?c, w1) else Some (SQLITE_ERROR, ctx, w))"
    using c b(1) by (auto simp: sqlcipher_codec_ctx_set_pagesize_def flag_simps buf_free_def provider_set_def page_size_ok_def)
  have q: "page_size_ok sz \<Longrightarrow> b \<noteq> None \<Longrightarrow> salts_wf ?c \<and> provider_set p ?c \<and> paged ?c"
    using b(3) c by (auto simp: provider_set_def salts_wf_def paged_def)
  show "\<exists>rc ctx' w'. sqlcipher_codec_ctx_set_pagesize ctx sz w = Some (rc, ctx', w') \<and> holds g R (M + codec_owned ctx') w'
      \<and> (rc = SQLITE_OK \<longrightarrow> salts_wf ctx' \<and> provider_set p ctx' \<and> paged ctx')"
  proof (cases "page_size_ok sz")
    case True
    then show ?thesis using d h1 q by auto
  next
    case False
    then show ?thesis using d h by simp
  qed
qed


definition stage3 :: "provider \<Rightarrow> codec_ctx \<Rightarrow> bool" where
  "stage3 p c \<longleftrightarrow> salts_wf c \<and> provider_set p c \<and> paged c"

definition reserved :: "provider \<Rightarrow> codec_ctx \<Rightarrow> bool" where
  "reserved p c \<longleftrightarrow> hmac_sz c = pv_get_hmac_sz p (hmac_algorithm c) \<and> reserve_sz c = reserve_for p (flags c) (hmac_algorithm c)"

definition stage4 :: "provider \<Rightarrow> codec_ctx \<Rightarrow> bool" where
  "stage4 p c \<longleftrightarrow> stage3 p c \<and> reserved p c"

lemmas stage_defs = stage4_def stage3_def reserved_def salts_wf_def provider_set_def paged_def

lemma reserve_setup_eq:
  assumes "provider_ok p" "x_provider ctx = Some p" "iv_sz ctx = pv_get_iv_sz p" "block_sz ctx = pv_get_block_sz p"
  shows "sqlcipher_codec_ctx_reserve_setup ctx =
    Some (SQLITE_OK, ctx\<lparr>hmac_sz := pv_get_hmac_sz p (hmac_algorithm ctx),
                         reserve_sz := reserve_for p (flags ctx) (hmac_algorithm ctx)\<rparr>)"
  using assms by (simp add: sqlcipher_codec_ctx_reserve_setup_def reserve_for_def provider_ok_def Let_def)

lemma triple_kdf_iter: "triple g (stage3 p) (pure_step (\<lambda>c. sqlcipher_codec_ctx_set_kdf_iter c n)) (stage3 p)"
  by (rule triple_pure)
    (auto simp: sqlcipher_codec_ctx_set_kdf_iter_def sqlcipher_set_derive_key_def stage_defs flag_simps codec_owned_def)

lemma triple_fast_kdf_iter: "triple g (stage3 p) (pure_step (\<lambda>c. sqlcipher_codec_ctx_set_fast_kdf_iter c n)) (stage3 p)"
  by (rule triple_pure)
    (auto simp: sqlcipher_codec_ctx_set_fast_kdf_iter_def sqlcipher_set_derive_key_def stage_defs flag_simps codec_owned_def)

lemma triple_hmac_algorithm:
  "provider_ok p \<Longrightarrow> triple g (stage3 p) (pure_step (\<lambda>c. sqlcipher_codec_ctx_set_hmac_algorithm c n)) (stage4 p)"
  by (rule triple_pure)
    (auto simp: sqlcipher_codec_ctx_set_hmac_algorithm_def stage_defs flag_simps reserve_setup_eq codec_owned_def)

lemma triple_use_hmac:
  "provider_ok p \<Longrightarrow> triple g (stage4 p) (pure_step (\<lambda>c. sqlcipher_codec_ctx_set_use_hmac c n)) (stage4 p)"
  by (rule triple_pure)
    (auto simp: sqlcipher_codec_ctx_set_use_hmac_def stage_defs flag_simps reserve_setup_eq codec_owned_def)

lemma triple_kdf_algorithm: "triple g (stage4 p) (pure_step (\<lambda>c. sqlcipher_codec_ctx_set_kdf_algorithm c n)) (stage4 p)"
  by (rule triple_pure) (auto simp: sqlcipher_codec_ctx_set_kdf_algorithm_def stage_defs flag_simps codec_owned_def)

lemma triple_plaintext: "triple g (stage4 p) (pure_step (\<lambda>c. sqlcipher_codec_ctx_set_plaintext_header_size c n)) (stage4 p)"
  by (rule triple_pure) (auto simp: sqlcipher_codec_ctx_set_plaintext_header_size_def stage_defs codec_owned_def)

lemma holds_cipher_init:
  assumes "holds g R M w"
  obtains rc c w' where "sqlcipher_cipher_ctx_init ctx w = Some (rc, c, w')" "holds g R (M + cipher_owned (key_sz ctx) c) w'"
    "rc = SQLITE_OK \<longrightarrow> (\<exists>x. c = Some x \<and> cipher_wf (key_sz ctx) x)"
proof -
  obtain r w1 where r: "w_malloc sizeof_cipher_ctx w = Some (r, w1)"
    "holds g R (M + (case r of None \<Rightarrow> {#} | Some p \<Rightarrow> {#(p, u64_size sizeof_cipher_ctx)#})) w1" using holds_malloc [OF assms] by blast
  show ?thesis
  proof (cases r)
    case None
    then show ?thesis using r that by (auto simp: sqlcipher_cipher_ctx_init_def)
  next
    case (Some p)
    with r have h1: "holds g R (M + {#(p, u64_size sizeof_cipher_ctx)#}) w1" by simp
    obtain k w2 where k: "buf_malloc (key_sz ctx) w1 = Some (k, w2)"
      "holds g R (M + {#(p, u64_size sizeof_cipher_ctx)#} + ob (key_sz ctx) k) w2"
      "k = None \<or> (\<exists>a. k = Some (a, replicate (nat (key_sz ctx)) 0))" using holds_buf_malloc [OF h1] by blast
    obtain hk w3 where hk: "buf_malloc (key_sz ctx) w2 = Some (hk, w3)"
      "holds g R (M + {#(p, u64_size sizeof_cipher_ctx)#} + ob (key_sz ctx) k + ob (key_sz ctx) hk) w3"
      "hk = None \<or> (\<exists>a. hk = Some (a, replicate (nat (key_sz ctx)) 0))" using holds_buf_malloc [OF k(2)] by blast
    let ?c = "\<lparr>c_addr = p, derive_key = 0, pass_sz = 0, key = k, hmac_key = hk, pass = None\<rparr>"
    have "cipher_owned (key_sz ctx) (Some ?c) = {#(p, u64_size sizeof_cipher_ctx)#} + ob (key_sz ctx) k + ob (key_sz ctx) hk"
      by (simp add: cipher_owned_def)
    then have "holds g R (M + cipher_owned (key_sz ctx) (Some ?c)) w3" using hk(2) by (simp only: add.assoc)
    moreover have "sqlcipher_cipher_ctx_init ctx w = Some (if k = None \<or> hk = None then SQLITE_NOMEM else SQLITE_OK, Some ?c, w3)"
      using r Some k(1) hk(1) by (simp add: sqlcipher_cipher_ctx_init_def)
    moreover have "\<not> (k = None \<or> hk = None) \<Longrightarrow> cipher_wf (key_sz ctx) ?c"
      using k(3) hk(3) by (auto simp: cipher_wf_def)
    ultimately show ?thesis using that by auto
  qed
qed

definition stage5 :: "provider \<Rightarrow> codec_ctx \<Rightarrow> bool" where
  "stage5 p c \<longleftrightarrow> buffers_wf c \<and> provider_set p c \<and> page_size_ok (page_sz c) \<and> reserved p c
     \<and> (\<exists>r. read_ctx c = Some r \<and> cipher_wf (key_sz c) r)"

lemma triple_read_ctx: "triple g (stage4 p) init_read_ctx (\<lambda>c. stage5 p c \<and> write_ctx c = None)"
proof (rule tripleI)
  fix R M ctx w assume c: "stage4 p ctx" and h: "holds g R (M + codec_owned ctx) w"
  obtain rc x w' where x: "sqlcipher_cipher_ctx_init ctx w = Some (rc, x, w')"
    "holds g R (M + codec_owned ctx + cipher_owned (key_sz ctx) x) w'"
    "rc = SQLITE_OK \<longrightarrow> (\<exists>y. x = Some y \<and> cipher_wf (key_sz ctx) y)" using holds_cipher_init [OF h] by blast
  have "codec_owned (ctx\<lparr>read_ctx := x\<rparr>) = codec_owned ctx + cipher_owned (key_sz ctx) x"
    using c by (simp add: stage_defs codec_owned_def ac_simps)
  then have "holds g R (M + codec_owned (ctx\<lparr>read_ctx := x\<rparr>)) w'" using x(2) by (simp only: add.assoc)
  moreover have "rc = SQLITE_OK \<Longrightarrow> stage5 p (ctx\<lparr>read_ctx := x\<rparr>) \<and> write_ctx (ctx\<lparr>read_ctx := x\<rparr>) = None"
    using c x(3) by (auto simp: stage5_def stage_defs buffers_wf_def)
  ultimately show "\<exists>rc ctx' w'. init_read_ctx ctx w = Some (rc, ctx', w') \<and> holds g R (M + codec_owned ctx') w'
      \<and> (rc = SQLITE_OK \<longrightarrow> stage5 p ctx' \<and> write_ctx ctx' = None)"
    using x(1) by (auto simp: init_read_ctx_def)
qed

definition stage6 :: "provider \<Rightarrow> codec_ctx \<Rightarrow> bool" where
  "stage6 p c \<longleftrightarrow> stage5 p c \<and> (\<exists>t. write_ctx c = Some t \<and> cipher_wf (key_sz c) t)"

lemma triple_write_ctx: "triple g (\<lambda>c. stage5 p c \<and> write_ctx c = None) init_write_ctx (stage6 p)"
proof (rule tripleI)
  fix R M ctx w assume c: "stage5 p ctx \<and> write_ctx ctx = None" and h: "holds g R (M + codec_owned ctx) w"
  obtain rc x w' where x: "sqlcipher_cipher_ctx_init ctx w = Some (rc, x, w')"
    "holds g R (M + codec_owned ctx + cipher_owned (key_sz ctx) x) w'"
    "rc = SQLITE_OK \<longrightarrow> (\<exists>y. x = Some y \<and> cipher_wf (key_sz ctx) y)" using holds_cipher_init [OF h] by blast
  have "codec_owned (ctx\<lparr>write_ctx := x\<rparr>) = codec_owned ctx + cipher_owned (key_sz ctx) x"
    using c by (simp add: codec_owned_def ac_simps)
  then have "holds g R (M + codec_owned (ctx\<lparr>write_ctx := x\<rparr>)) w'" using x(2) by (simp only: add.assoc)
  moreover have "rc = SQLITE_OK \<Longrightarrow> stage6 p (ctx\<lparr>write_ctx := x\<rparr>)"
    using c x(3) by (auto simp: stage6_def stage5_def buffers_wf_def provider_set_def reserved_def)
  ultimately show "\<exists>rc ctx' w'. init_write_ctx ctx w = Some (rc, ctx', w') \<and> holds g R (M + codec_owned ctx') w'
      \<and> (rc = SQLITE_OK \<longrightarrow> stage6 p ctx')"
    using x(1) by (auto simp: init_write_ctx_def)
qed


section \<open>Key material\<close>

definition contents :: "buf option \<Rightarrow> bytes option" where
  "contents b = map_option snd b"

lemma contents_simps [simp]: "contents None = None" "contents (Some (a, d)) = Some d"
  by (simp_all add: contents_def)

definition new_pass :: "bytes option \<Rightarrow> int \<Rightarrow> bytes option" where
  "new_pass zKey nKey = (case zKey of None \<Rightarrow> None | Some z \<Rightarrow> if nKey > 0 then Some (take (nat nKey) z) else None)"

lemma holds_pass_free:
  assumes "holds g R (M + cipher_owned k (Some c)) w"
  obtains w' where "buf_free (pass c) (pass_sz c) w = Some w'"
    "\<And>c'. c_addr c' = c_addr c \<Longrightarrow> ob k (key c') = ob k (key c) \<Longrightarrow> ob k (hmac_key c') = ob k (hmac_key c) \<Longrightarrow>
       pass c' = None \<Longrightarrow> holds g R (M + cipher_owned k (Some c')) w'"
proof -
  let ?o = "{#(c_addr c, u64_size sizeof_cipher_ctx)#} + ob k (key c) + ob k (hmac_key c)"
  have "M + cipher_owned k (Some c) = M + ?o + ob (pass_sz c) (pass c)"
    by (simp add: cipher_owned_def ac_simps)
  with assms have "holds g R (M + ?o + ob (pass_sz c) (pass c)) w" by simp
  from holds_buf_free [OF this] obtain w' where "buf_free (pass c) (pass_sz c) w = Some w'" "holds g R (M + ?o) w'" by blast
  then show ?thesis using that [of w'] by (simp add: cipher_owned_def)
qed

lemma holds_set_pass:
  assumes "holds g R (M + cipher_owned k (Some c)) w" "cipher_wf k c"
    "\<And>z. zKey = Some z \<Longrightarrow> nat nKey \<le> length z"
  obtains rc c' w' where "sqlcipher_cipher_ctx_set_pass c zKey nKey w = Some (rc, c', w')"
    "holds g R (M + cipher_owned k (Some c')) w'" "rc = SQLITE_OK \<or> rc = SQLITE_NOMEM"
    "c' = c\<lparr>pass_sz := pass_sz c', pass := pass c'\<rparr>"
    "rc = SQLITE_OK \<longrightarrow> cipher_wf k c' \<and> contents (pass c') = new_pass zKey nKey"
proof -
  obtain w1 where w1: "buf_free (pass c) (pass_sz c) w = Some w1"
    and own': "\<And>c'. c_addr c' = c_addr c \<Longrightarrow> ob k (key c') = ob k (key c) \<Longrightarrow> ob k (hmac_key c') = ob k (hmac_key c) \<Longrightarrow>
       pass c' = None \<Longrightarrow> holds g R (M + cipher_owned k (Some c')) w1"
    using holds_pass_free [OF assms(1)] by blast
  have own: "holds g R (M + cipher_owned k (Some (c\<lparr>pass := None, pass_sz := n\<rparr>))) w1" for n by (rule own') simp_all
  show ?thesis
  proof (cases "new_pass zKey nKey")
    case None
    then show ?thesis using that [of SQLITE_OK "c\<lparr>pass := None, pass_sz := 0\<rparr>" w1] w1 own assms(2)
      by (auto simp: sqlcipher_cipher_ctx_set_pass_def new_pass_def contents_def cipher_wf_def split: option.splits if_splits)
  next
    case (Some d)
    then obtain z where z: "zKey = Some z" "0 < nKey" "d = take (nat nKey) z"
      by (auto simp: new_pass_def split: option.splits if_splits)
    obtain b w2 where b: "buf_malloc nKey w1 = Some (b, w2)"
      "holds g R (M + cipher_owned k (Some (c\<lparr>pass := None, pass_sz := nKey\<rparr>)) + ob nKey b) w2"
      "b = None \<or> (\<exists>a. b = Some (a, replicate (nat nKey) 0))" using holds_buf_malloc [OF own] by blast
    show ?thesis
    proof (cases b)
      case None
      then show ?thesis using that [of SQLITE_NOMEM "c\<lparr>pass := None, pass_sz := nKey\<rparr>" w2] w1 b z
        by (simp add: sqlcipher_cipher_ctx_set_pass_def)
    next
      case (Some y)
      then obtain a where a: "b = Some (a, replicate (nat nKey) 0)" using b(3) by auto
      let ?c = "c\<lparr>pass := Some (a, d), pass_sz := nKey\<rparr>"
      have "M + cipher_owned k (Some ?c) = M + cipher_owned k (Some (c\<lparr>pass := None, pass_sz := nKey\<rparr>)) + ob nKey b"
        using a by (simp add: cipher_owned_def ac_simps)
      moreover have "memcpy_at (replicate (nat nKey) 0) 0 d = d"
        using z assms(3) [OF z(1)] by (simp add: memcpy_at_def)
      ultimately show ?thesis using that [of SQLITE_OK ?c w2] w1 b a z assms(2,3)
        by (simp add: sqlcipher_cipher_ctx_set_pass_def contents_def new_pass_def cipher_wf_def)
    qed
  qed
qed


lemma buf_copy_ok:
  assumes "buf_ok k t" "buf_ok k s"
  shows "\<exists>a d b. t = Some (a, b) \<and> contents s = Some d \<and> length d = nat k \<and> buf_copy t s k = Some (Some (a, d))"
  using assms by (auto simp: buf_ok_def buf_copy_def contents_def memcpy_at_def)

lemma cipher_wf_pass: "cipher_wf k c \<Longrightarrow> contents (pass c) = None \<and> pass_sz c = 0
   \<or> (\<exists>d. contents (pass c) = Some d \<and> 0 < pass_sz c \<and> length d = nat (pass_sz c))"
  by (cases "pass c") (auto simp: cipher_wf_def contents_def)

definition same_material :: "cipher_ctx \<Rightarrow> cipher_ctx \<Rightarrow> bool" where
  "same_material s t \<longleftrightarrow> contents (key t) = contents (key s) \<and> contents (hmac_key t) = contents (hmac_key s)
     \<and> contents (pass t) = contents (pass s) \<and> pass_sz t = pass_sz s \<and> derive_key t = derive_key s"

lemma holds_copy:
  assumes "holds g R (M + cipher_owned (key_sz ctx) (Some t)) w" "cipher_wf (key_sz ctx) t" "cipher_wf (key_sz ctx) s"
  obtains rc t' w' where "sqlcipher_cipher_ctx_copy ctx t s w = Some (rc, t', w')"
    "holds g R (M + cipher_owned (key_sz ctx) (Some t')) w'" "rc = SQLITE_OK \<or> rc = SQLITE_NOMEM"
    "rc = SQLITE_OK \<longrightarrow> cipher_wf (key_sz ctx) t' \<and> same_material s t'"
proof -
  let ?k = "key_sz ctx"
  obtain w1 where w1: "buf_free (pass t) (pass_sz t) w = Some w1"
    and own: "\<And>c'. c_addr c' = c_addr t \<Longrightarrow> ob ?k (key c') = ob ?k (key t) \<Longrightarrow> ob ?k (hmac_key c') = ob ?k (hmac_key t) \<Longrightarrow>
       pass c' = None \<Longrightarrow> holds g R (M + cipher_owned ?k (Some c')) w1"
    using holds_pass_free [OF assms(1)] by blast
  obtain ka kd kb where k: "key t = Some (ka, kb)" "contents (key s) = Some kd" "length kd = nat ?k"
    "buf_copy (key t) (key s) ?k = Some (Some (ka, kd))"
    using buf_copy_ok [of ?k "key t" "key s"] assms(2,3) by (auto simp: cipher_wf_def)
  obtain ha hd hb where h: "hmac_key t = Some (ha, hb)" "contents (hmac_key s) = Some hd" "length hd = nat ?k"
    "buf_copy (hmac_key t) (hmac_key s) ?k = Some (Some (ha, hd))"
    using buf_copy_ok [of ?k "hmac_key t" "hmac_key s"] assms(2,3) by (auto simp: cipher_wf_def)
  let ?t = "s\<lparr>c_addr := c_addr t, key := Some (ka, kd), hmac_key := Some (ha, hd)\<rparr>"
  have o: "holds g R (M + cipher_owned ?k (Some (?t\<lparr>pass := None\<rparr>))) w1" by (rule own) (simp_all add: k h)
  show ?thesis
  proof (cases "pass s")
    case None
    then have eq: "?t\<lparr>pass := None\<rparr> = ?t" by simp
    have "sqlcipher_cipher_ctx_copy ctx t s w = Some (SQLITE_OK, ?t, w1)"
      using w1 k h None by (simp add: sqlcipher_cipher_ctx_copy_def Let_def)
    moreover have "cipher_wf ?k ?t \<and> same_material s ?t"
      using assms(3) k h None by (simp add: cipher_wf_def same_material_def buf_ok_def)
    ultimately show ?thesis using that [of SQLITE_OK ?t w1] o [unfolded eq] by simp
  next
    case (Some y)
    then obtain pa d where p: "pass s = Some (pa, d)" by (cases y) auto
    then have sz: "0 < pass_sz s" "length d = nat (pass_sz s)" using assms(3) by (auto simp: cipher_wf_def)
    obtain b w2 where b: "buf_malloc (pass_sz s) w1 = Some (b, w2)"
      "holds g R (M + cipher_owned ?k (Some (?t\<lparr>pass := None\<rparr>)) + ob (pass_sz s) b) w2"
      "b = None \<or> (\<exists>a. b = Some (a, replicate (nat (pass_sz s)) 0))" using holds_buf_malloc [OF o] by blast
    show ?thesis
    proof (cases b)
      case None
      then show ?thesis using that [of SQLITE_NOMEM "?t\<lparr>pass := None\<rparr>" w2] w1 k h b p sz
        by (simp add: sqlcipher_cipher_ctx_copy_def Let_def)
    next
      case (Some z)
      then obtain a where a: "b = Some (a, replicate (nat (pass_sz s)) 0)" using b(3) by auto
      let ?u = "?t\<lparr>pass := Some (a, d)\<rparr>"
      have eq: "M + cipher_owned ?k (Some ?u) = M + cipher_owned ?k (Some (?t\<lparr>pass := None\<rparr>)) + ob (pass_sz s) b"
        using a by (simp add: cipher_owned_def ac_simps)
      have "holds g R (M + cipher_owned ?k (Some ?u)) w2" unfolding eq by (rule b(2))
      moreover have "sqlcipher_cipher_ctx_copy ctx t s w = Some (SQLITE_OK, ?u, w2)"
        using w1 k h b a p sz by (simp add: sqlcipher_cipher_ctx_copy_def Let_def memcpy_at_def)
      moreover have "cipher_wf ?k ?u \<and> same_material s ?u"
        using assms(3) k h p sz by (simp add: cipher_wf_def same_material_def buf_ok_def)
      ultimately show ?thesis using that [of SQLITE_OK ?u w2] by simp
    qed
  qed
qed


section \<open>The context is complete or nothing is left of it\<close>

lemma codec_owned_read:
  "read_ctx ctx = Some r \<Longrightarrow> codec_owned ctx = codec_owned (ctx\<lparr>read_ctx := None\<rparr>) + cipher_owned (key_sz ctx) (Some r)"
  by (simp add: codec_owned_def ac_simps)

lemma codec_owned_write:
  "write_ctx ctx = Some r \<Longrightarrow> codec_owned ctx = codec_owned (ctx\<lparr>write_ctx := None\<rparr>) + cipher_owned (key_sz ctx) (Some r)"
  by (simp add: codec_owned_def ac_simps)

lemma triple_set_pass:
  assumes "\<And>z. zKey = Some z \<Longrightarrow> nat nKey \<le> length z"
  shows "triple g (stage6 p) (\<lambda>ctx. sqlcipher_codec_ctx_set_pass ctx zKey nKey 0)
     (\<lambda>c. stage6 p c \<and> (\<exists>r. read_ctx c = Some r \<and> derive_key r = 1 \<and> contents (pass r) = new_pass zKey nKey))"
proof (rule tripleI)
  fix R M ctx w assume c: "stage6 p ctx" and h: "holds g R (M + codec_owned ctx) w"
  obtain r where r: "read_ctx ctx = Some r" "cipher_wf (key_sz ctx) r" using c by (auto simp: stage6_def stage5_def)
  let ?N = "M + codec_owned (ctx\<lparr>read_ctx := None\<rparr>)"
  have "holds g R (?N + cipher_owned (key_sz ctx) (Some r)) w" using h unfolding codec_owned_read [OF r(1)] by (simp only: add.assoc)
  from holds_set_pass [OF this r(2) assms] obtain rc r' w' where
    s: "sqlcipher_cipher_ctx_set_pass r zKey nKey w = Some (rc, r', w')" "holds g R (?N + cipher_owned (key_sz ctx) (Some r')) w'"
      "rc = SQLITE_OK \<longrightarrow> cipher_wf (key_sz ctx) r' \<and> contents (pass r') = new_pass zKey nKey" by blast
  have ho: "holds g R (M + codec_owned (ctx\<lparr>read_ctx := Some (r'\<lparr>derive_key := n\<rparr>)\<rparr>)) w'" for n
  proof -
    have "codec_owned (ctx\<lparr>read_ctx := Some (r'\<lparr>derive_key := n\<rparr>)\<rparr>) =
      codec_owned (ctx\<lparr>read_ctx := None\<rparr>) + cipher_owned (key_sz ctx) (Some r')"
      by (simp add: codec_owned_def cipher_owned_def ac_simps)
    then show ?thesis using s(2) by (simp only: add.assoc)
  qed
  show "\<exists>rc ctx' w'. sqlcipher_codec_ctx_set_pass ctx zKey nKey 0 w = Some (rc, ctx', w') \<and> holds g R (M + codec_owned ctx') w'
      \<and> (rc = SQLITE_OK \<longrightarrow> stage6 p ctx' \<and> (\<exists>r. read_ctx ctx' = Some r \<and> derive_key r = 1 \<and> contents (pass r) = new_pass zKey nKey))"
  proof (cases "rc = SQLITE_OK")
    case True
    let ?c = "ctx\<lparr>read_ctx := Some (r'\<lparr>derive_key := 1\<rparr>)\<rparr>"
    have "sqlcipher_codec_ctx_set_pass ctx zKey nKey 0 w = Some (SQLITE_OK, ?c, w')"
      using r s(1) True by (simp add: sqlcipher_codec_ctx_set_pass_def Let_def)
    moreover have "stage6 p ?c" using c s(3) True
      by (auto simp: stage6_def stage5_def buffers_wf_def provider_set_def reserved_def cipher_wf_def)
    ultimately show ?thesis using ho s(3) True by auto
  next
    case False
    have "sqlcipher_codec_ctx_set_pass ctx zKey nKey 0 w = Some (rc, ctx\<lparr>read_ctx := Some r'\<rparr>, w')"
      using r s(1) False by (simp add: sqlcipher_codec_ctx_set_pass_def Let_def)
    then show ?thesis using ho [of "derive_key r'"] False by simp
  qed
qed

lemma triple_copy:
  "triple g (\<lambda>c. stage6 p c \<and> (\<exists>r. read_ctx c = Some r \<and> Q r)) init_copy_ctx
     (\<lambda>c. stage6 p c \<and> (\<exists>r t. read_ctx c = Some r \<and> write_ctx c = Some t \<and> Q r \<and> same_material r t))"
proof (rule tripleI)
  fix R M ctx w assume c: "stage6 p ctx \<and> (\<exists>r. read_ctx ctx = Some r \<and> Q r)" and h: "holds g R (M + codec_owned ctx) w"
  obtain r t where rt: "read_ctx ctx = Some r" "cipher_wf (key_sz ctx) r" "Q r" "write_ctx ctx = Some t" "cipher_wf (key_sz ctx) t"
    using c by (auto simp: stage6_def stage5_def)
  let ?N = "M + codec_owned (ctx\<lparr>write_ctx := None\<rparr>)"
  have "holds g R (?N + cipher_owned (key_sz ctx) (Some t)) w" using h unfolding codec_owned_write [OF rt(4)] by (simp only: add.assoc)
  from holds_copy [OF this rt(5,2)] obtain rc t' w' where
    s: "sqlcipher_cipher_ctx_copy ctx t r w = Some (rc, t', w')" "holds g R (?N + cipher_owned (key_sz ctx) (Some t')) w'"
      "rc = SQLITE_OK \<longrightarrow> cipher_wf (key_sz ctx) t' \<and> same_material r t'" by blast
  let ?c = "ctx\<lparr>write_ctx := Some t'\<rparr>"
  have "codec_owned ?c = codec_owned (ctx\<lparr>write_ctx := None\<rparr>) + cipher_owned (key_sz ctx) (Some t')"
    by (simp add: codec_owned_def ac_simps)
  then have "holds g R (M + codec_owned ?c) w'" using s(2) by (simp only: add.assoc)
  moreover have "init_copy_ctx ctx w = Some (rc, ?c, w')" using rt s(1) by (simp add: init_copy_ctx_def)
  moreover have "rc = SQLITE_OK \<Longrightarrow> stage6 p ?c" using c s(3)
    by (auto simp: stage6_def stage5_def buffers_wf_def provider_set_def reserved_def)
  ultimately show "\<exists>rc ctx' w'. init_copy_ctx ctx w = Some (rc, ctx', w') \<and> holds g R (M + codec_owned ctx') w'
      \<and> (rc = SQLITE_OK \<longrightarrow> stage6 p ctx' \<and> (\<exists>r t. read_ctx ctx' = Some r \<and> write_ctx ctx' = Some t \<and> Q r \<and> same_material r t))"
    using rt s(3) by auto
qed

lemma stage6_wf: "provider_ok p \<Longrightarrow> stage6 p c \<Longrightarrow> codec_wf c"
  by (auto simp: stage6_def stage5_def codec_wf_def settings_wf_def ciphers_wf_def provider_set_def reserved_def)


lemma init_steps_triple:
  assumes "provider_ok p" "\<not> bit (default_flags g) 3" "\<And>z. zKey = Some z \<Longrightarrow> nat nKey \<le> length z"
  shows "triple g (\<lambda>c. c = codec_ctx_zero a bt) (run_steps (codec_init_steps p zKey nKey))
    (\<lambda>c. stage6 p c \<and> (\<exists>r t. read_ctx c = Some r \<and> write_ctx c = Some t
       \<and> (derive_key r = 1 \<and> contents (pass r) = new_pass zKey nKey) \<and> same_material r t))"
proof -
  note 1 = triple_salts [of g a bt] and 2 = triple_provider [OF assms(2), of p]
  have s: "stage3 p = (\<lambda>c. salts_wf c \<and> provider_set p c \<and> paged c)" by (rule ext) (simp only: stage3_def)
  have 3: "triple g (\<lambda>c. salts_wf c \<and> provider_set p c \<and> buffer c = None)
      (\<lambda>ctx w. sqlcipher_codec_ctx_set_pagesize ctx (default_page_size w) w) (stage3 p)"
    unfolding s by (rule triple_cong [OF _ triple_pagesize [where sz = "default_page_size g"]]) (drule holds_global, simp)
  have 4: "triple g (stage3 p) (\<lambda>ctx w. pure_step (\<lambda>c. sqlcipher_codec_ctx_set_kdf_iter c (default_kdf_iter w)) ctx w) (stage3 p)"
    by (rule triple_cong [OF _ triple_kdf_iter [where n = "default_kdf_iter g"]]) (drule holds_global, simp)
  have 6: "triple g (stage3 p) (\<lambda>ctx w. pure_step (\<lambda>c. sqlcipher_codec_ctx_set_hmac_algorithm c (default_hmac_algorithm w)) ctx w) (stage4 p)"
    by (rule triple_cong [OF _ triple_hmac_algorithm [OF assms(1), where n = "default_hmac_algorithm g"]]) (drule holds_global, simp)
  have 7: "triple g (stage4 p) (\<lambda>ctx w. pure_step (\<lambda>c. sqlcipher_codec_ctx_set_use_hmac c
         (if SQLCIPHER_FLAG_GET (default_flags w) CIPHER_FLAG_HMAC then 1 else 0)) ctx w) (stage4 p)"
    by (rule triple_cong [OF _ triple_use_hmac [OF assms(1), where n = "if SQLCIPHER_FLAG_GET (default_flags g) CIPHER_FLAG_HMAC then 1 else 0"]])
      (drule holds_global, simp)
  have 8: "triple g (stage4 p) (\<lambda>ctx w. pure_step (\<lambda>c. sqlcipher_codec_ctx_set_kdf_algorithm c (default_kdf_algorithm w)) ctx w) (stage4 p)"
    by (rule triple_cong [OF _ triple_kdf_algorithm [where n = "default_kdf_algorithm g"]]) (drule holds_global, simp)
  have 9: "triple g (stage4 p) (\<lambda>ctx w. pure_step (\<lambda>c. sqlcipher_codec_ctx_set_plaintext_header_size c
         (default_plaintext_header_size w)) ctx w) (stage4 p)"
    by (rule triple_cong [OF _ triple_plaintext [where n = "default_plaintext_header_size g"]]) (drule holds_global, simp)
  show ?thesis unfolding codec_init_steps_def
    by (intro triple_cons [OF 1] triple_cons [OF 2] triple_cons [OF 3] triple_cons [OF 4] triple_cons [OF triple_fast_kdf_iter]
        triple_cons [OF 6] triple_cons [OF 7] triple_cons [OF 8] triple_cons [OF 9] triple_cons [OF triple_read_ctx]
        triple_cons [OF triple_write_ctx] triple_cons [OF triple_set_pass [OF assms(3)]] triple_cons [OF triple_copy] triple_nil)
qed

lemma codec_ctx_init_holds:
  assumes "holds g R M w" "provider_ok p" "\<not> bit (default_flags g) 3" "\<And>z. zKey = Some z \<Longrightarrow> nat nKey \<le> length z"
  shows "\<exists>rc c w'. sqlcipher_codec_ctx_init p bt zKey nKey w = Some (rc, c, w')
     \<and> (case c of
          None \<Rightarrow> rc \<noteq> SQLITE_OK \<and> holds g R M w'
        | Some ctx \<Rightarrow> rc = SQLITE_OK \<and> holds g R (M + codec_owned ctx) w' \<and> codec_wf ctx
            \<and> (\<exists>r t. read_ctx ctx = Some r \<and> write_ctx ctx = Some t
                 \<and> derive_key r = 1 \<and> contents (pass r) = new_pass zKey nKey \<and> same_material r t))"
proof -
  obtain r w1 where r: "w_malloc sizeof_codec_ctx w = Some (r, w1)"
    "holds g R (M + (case r of None \<Rightarrow> {#} | Some p \<Rightarrow> {#(p, u64_size sizeof_codec_ctx)#})) w1" using holds_malloc [OF assms(1)] by blast
  show ?thesis
  proof (cases r)
    case None
    then show ?thesis using r by (simp add: sqlcipher_codec_ctx_init_def)
  next
    case (Some a)
    have "codec_owned (codec_ctx_zero a bt) = {#(a, u64_size sizeof_codec_ctx)#}"
      by (simp add: codec_owned_def codec_ctx_zero_def)
    with r Some have h1: "holds g R (M + codec_owned (codec_ctx_zero a bt)) w1" by simp
    from tripleD [OF init_steps_triple [OF assms(2-4)] refl h1] obtain rc ctx w2 where
      s: "run_steps (codec_init_steps p zKey nKey) (codec_ctx_zero a bt) w1 = Some (rc, ctx, w2)"
        "holds g R (M + codec_owned ctx) w2"
        "rc = SQLITE_OK \<longrightarrow> stage6 p ctx \<and> (\<exists>r t. read_ctx ctx = Some r \<and> write_ctx ctx = Some t
       \<and> (derive_key r = 1 \<and> contents (pass r) = new_pass zKey nKey) \<and> same_material r t)" by blast
    obtain w3 where "sqlcipher_codec_ctx_free ctx w2 = Some w3" "holds g R M w3" using holds_codec_free [OF s(2)] by blast
    then show ?thesis using r Some s stage6_wf [OF assms(2)] by (cases "rc = SQLITE_OK") (auto simp: sqlcipher_codec_ctx_init_def)
  qed
qed

lemma codec_ctx_init_run:
  assumes "heap_inv (w_heap w)" "provider_ok p" "\<not> bit (default_flags w) 3" "\<And>z. zKey = Some z \<Longrightarrow> nat nKey \<le> length z"
  shows "\<exists>rc c w'. sqlcipher_codec_ctx_init p bt zKey nKey w = Some (rc, c, w')
     \<and> (case c of
          None \<Rightarrow> rc \<noteq> SQLITE_OK \<and> holds w (live (w_heap w)) {#} w'
        | Some ctx \<Rightarrow> rc = SQLITE_OK \<and> holds w (live (w_heap w)) (codec_owned ctx) w' \<and> codec_wf ctx
            \<and> (\<exists>r t. read_ctx ctx = Some r \<and> write_ctx ctx = Some t
                 \<and> derive_key r = 1 \<and> contents (pass r) = new_pass zKey nKey \<and> same_material r t))"
proof -
  have "holds w (live (w_heap w)) {#} w"
    unfolding holds_def using assms(1) by (intro exI [of _ "w_heap w"] exI [of _ "w_calls w"]) (simp add: owns_empty)
  from codec_ctx_init_holds [OF this assms(2,3), where bt = bt and zKey = zKey and nKey = nKey] show ?thesis
    using assms(4) unfolding add_0 by blast
qed

end
