(* ===== verification/SC_CodecSettings.thy ===== *)
theory SC_CodecSettings
  imports SC_CodecLife
begin

unbundle bit_operations_syntax

text \<open>
  The settings of a codec context: the contract every setter keeps, the sizes they compute
  and accept, and a small provider and context on which the theorems are instantiated.
\<close>

section \<open>Page sizes\<close>

lemma and_pred_pow2: "0 < x \<Longrightarrow> (x::int) AND (x - 1) = 0 \<longleftrightarrow> (\<exists>k. x = 2 ^ k)"
proof (induction "nat x" arbitrary: x rule: less_induct)
  case less
  show ?case
  proof (cases "even x")
    case True
    then obtain y where y: "x = 2 * y" by (elim evenE)
    have "(2 * y - 1) div 2 = y - 1" by simp
    then have "x AND (x - 1) = 2 * (y AND (y - 1))" by (subst and_rec) (simp add: y)
    moreover have "y AND (y - 1) = 0 \<longleftrightarrow> (\<exists>k. y = 2 ^ k)" using less y by simp
    moreover have "(\<exists>k. x = 2 ^ k) \<longleftrightarrow> (\<exists>k. y = 2 ^ k)"
    proof
      assume "\<exists>k. x = 2 ^ k"
      then obtain k where "x = 2 ^ k" by blast
      then show "\<exists>k. y = 2 ^ k" using y True by (cases k) auto
    next
      assume "\<exists>k. y = 2 ^ k"
      then show "\<exists>k. x = 2 ^ k" using y by (metis power_Suc)
    qed
    ultimately show ?thesis by simp
  next
    case False
    then obtain y where y: "x = 2 * y + 1" by (elim oddE)
    then have "x AND (x - 1) = 2 * y" by (subst and_rec) simp
    moreover have "(\<exists>k. x = 2 ^ k) \<longleftrightarrow> y = 0"
    proof
      assume "\<exists>k. x = 2 ^ k"
      then obtain k where "x = 2 ^ k" by blast
      then show "y = 0" using y False by (cases k) auto
    next
      assume "y = 0"
      then show "\<exists>k. x = 2 ^ k" using y by (intro exI [of _ 0]) simp
    qed
    ultimately show ?thesis by simp
  qed
qed

lemma page_size_ok_iff: "page_size_ok sz \<longleftrightarrow> (\<exists>k \<in> {9..16}. sz = 2 ^ k)"
proof
  assume a: "page_size_ok sz"
  then obtain k where k: "sz = 2 ^ k" using and_pred_pow2 [of sz] by (auto simp: page_size_ok_def)
  have "(2::int) ^ 9 \<le> 2 ^ k" "(2::int) ^ k \<le> 2 ^ 16" using a k by (simp_all add: page_size_ok_def)
  then have "9 \<le> k" "k \<le> 16" by (simp_all only: power_increasing_iff)
  with k show "\<exists>k \<in> {9..16}. sz = 2 ^ k" by auto
next
  assume "\<exists>k \<in> {9..16}. sz = 2 ^ k"
  then obtain k where k: "9 \<le> k" "k \<le> 16" "sz = 2 ^ k" by auto
  then have "(2::int) ^ 9 \<le> sz" "sz \<le> 2 ^ 16" by (auto intro!: power_increasing simp del: power_numeral)
  then show "page_size_ok sz" using and_pred_pow2 [of sz] k by (auto simp: page_size_ok_def)
qed

section \<open>An instance\<close>

definition demo_provider :: provider where
  "demo_provider = \<lparr>pv_get_provider_name = ''demo'', pv_get_provider_version = ''1'', pv_get_cipher = ''xor'', pv_fips_status = 0,
     pv_add_random = (\<lambda>_. 0), pv_random = (\<lambda>k n. (0, replicate n (of_nat k))),
     pv_hmac = (\<lambda>a key x y. (0, replicate 4 (fold (XOR) (key @ x @ y) 0))),
     pv_kdf = (\<lambda>a pw salt i n. (0, replicate n (fold (+) pw 0))),
     pv_cipher = (\<lambda>m key iv x. (0, map (\<lambda>b. b XOR 0xAA) x)),
     pv_get_key_sz = 2, pv_get_iv_sz = 2, pv_get_block_sz = 2, pv_get_hmac_sz = (\<lambda>_. 4), pv_ctx_init = (\<lambda>_. 0)\<rparr>"

lemma demo_provider_ok: "provider_ok demo_provider"
  by (auto simp: provider_ok_def demo_provider_def xor.assoc intro!: map_idI)

definition demo_world :: world where
  "demo_world = \<lparr>w_heap = demo_heap, w_calls = 0, shield_mask = [0x5C, 0x36], default_flags = DEFAULT_CIPHER_FLAGS,
     hmac_salt_mask = HMAC_SALT_MASK, default_kdf_iter = PBKDF2_ITER, default_page_size = 4096,
     default_plaintext_header_size = 0, default_hmac_algorithm = SQLCIPHER_HMAC_SHA512,
     default_kdf_algorithm = SQLCIPHER_PBKDF2_HMAC_SHA512\<rparr>"

definition demo_btree :: btree where
  "demo_btree = \<lparr>bt_inTransaction = 0, bt_btsFlags = 0, bt_errCode = 0, bt_autoVacuum = 0, bt_header = None\<rparr>"

lemma holds_inv: "holds g R M w \<Longrightarrow> heap_inv (w_heap w)"
  by (auto simp: holds_def)

lemma holds_nothing: "holds g R {#} w \<Longrightarrow> heap_inv (w_heap w) \<and> live (w_heap w) = R"
  by (auto simp: holds_def owns_empty)

definition demo_cipher :: "nat \<Rightarrow> cipher_ctx" where
  "demo_cipher a = \<lparr>c_addr = a, derive_key = 1, pass_sz = 3, key = Some (a + 64, [0, 0]), hmac_key = Some (a + 96, [0, 0]),
     pass = Some (a + 128, [1, 2, 3])\<rparr>"

definition demo_codec :: codec_ctx where
  "demo_codec = \<lparr>x_addr = 0, store_pass = 0, kdf_iter = 4, fast_kdf_iter = 2, kdf_salt_sz = 16, key_sz = 2,
     iv_sz = 2, block_sz = 2, page_sz = 512, reserve_sz = 6, hmac_sz = 4, plaintext_header_sz = 0, hmac_algorithm = 2,
     kdf_algorithm = 2, x_error = 0, flags = DEFAULT_CIPHER_FLAGS, kdf_salt = Some (256, replicate 16 7),
     hmac_kdf_salt = Some (288, replicate 16 0), buffer = Some (2048, replicate 512 0), pBt = demo_btree,
     read_ctx = Some (demo_cipher 4096), write_ctx = Some (demo_cipher 8192), x_provider = Some demo_provider\<rparr>"

lemma demo_codec_wf: "codec_wf demo_codec"
proof -
  have "SQLCIPHER_FLAG_GET DEFAULT_CIPHER_FLAGS CIPHER_FLAG_HMAC"
    by (simp add: DEFAULT_CIPHER_FLAGS_def bit_or_iff flag_simps)
  then have "reserve_for demo_provider DEFAULT_CIPHER_FLAGS 2 = 6"
    by (simp add: reserve_for_def demo_provider_def)
  moreover have "page_size_ok 512" by (simp add: page_size_ok_def)
  ultimately show ?thesis using demo_provider_ok
    by (auto simp: codec_wf_def settings_wf_def buffers_wf_def ciphers_wf_def cipher_wf_def buf_ok_def demo_codec_def
        demo_cipher_def FILE_HEADER_SZ_def) (simp_all add: demo_provider_def)
qed

text \<open>
  C11: Building a codec context returns, and either succeeds with a complete, well-formed
  context whose release gives back every block, or fails and leaves no block behind,
  whatever allocation, provider call or setting failed on the way.
\<close>

theorem codec_ctx_init_complete_or_clean:
  assumes "heap_inv (w_heap w)" "provider_ok p" "\<not> SQLCIPHER_FLAG_GET (default_flags w) CIPHER_FLAG_KEY_USED"
    and "\<And>z. zKey = Some z \<Longrightarrow> nat nKey \<le> length z"
  shows "\<exists>rc c w'. sqlcipher_codec_ctx_init p bt zKey nKey w = Some (rc, c, w') \<and> heap_inv (w_heap w')
     \<and> (case c of
          None \<Rightarrow> rc \<noteq> SQLITE_OK \<and> live (w_heap w') = live (w_heap w)
        | Some ctx \<Rightarrow> rc = SQLITE_OK \<and> codec_wf ctx
            \<and> (\<exists>w''. sqlcipher_codec_ctx_free ctx w' = Some w'' \<and> heap_inv (w_heap w'')
                 \<and> live (w_heap w'') = live (w_heap w)))"
proof -
  have k: "\<not> bit (default_flags w) 3" using assms(3) by (simp add: flag_simps)
  obtain rc c w' where i: "sqlcipher_codec_ctx_init p bt zKey nKey w = Some (rc, c, w')"
    and c: "case c of None \<Rightarrow> rc \<noteq> SQLITE_OK \<and> holds w (live (w_heap w)) {#} w'
        | Some ctx \<Rightarrow> rc = SQLITE_OK \<and> holds w (live (w_heap w)) (codec_owned ctx) w' \<and> codec_wf ctx
            \<and> (\<exists>r t. read_ctx ctx = Some r \<and> write_ctx ctx = Some t
                 \<and> derive_key r = 1 \<and> contents (pass r) = new_pass zKey nKey \<and> same_material r t)"
    using codec_ctx_init_run [OF assms(1,2) k assms(4), where bt = bt] by blast
  have l: "heap_inv (w_heap v) \<and> live (w_heap v) = live (w_heap w)" if "holds w (live (w_heap w)) {#} v" for v
    using holds_nothing [OF that] .
  show ?thesis
  proof (cases c)
    case None
    then show ?thesis using i c l by auto
  next
    case (Some ctx)
    then have h: "holds w (live (w_heap w)) ({#} + codec_owned ctx) w'" using c by simp
    obtain v where "sqlcipher_codec_ctx_free ctx w' = Some v" "holds w (live (w_heap w)) {#} v" using holds_codec_free [OF h] by blast
    moreover have "heap_inv (w_heap w')" using holds_inv [OF h] .
    ultimately show ?thesis using i c l Some by auto
  qed
qed

theorem codec_ctx_init_complete_or_clean_witness:
  "\<exists>rc c w'. sqlcipher_codec_ctx_init demo_provider demo_btree (Some [1, 2, 3]) 3 demo_world = Some (rc, c, w')
     \<and> (c = None \<longrightarrow> live (w_heap w') = {})"
proof -
  have "heap_inv (w_heap demo_world)" "\<not> SQLCIPHER_FLAG_GET (default_flags demo_world) CIPHER_FLAG_KEY_USED"
    using demo_heap_inv by (simp_all add: demo_world_def DEFAULT_CIPHER_FLAGS_def bit_or_iff flag_simps)
  from codec_ctx_init_complete_or_clean [OF this(1) demo_provider_ok this(2), of "Some [1, 2, 3]" 3 demo_btree]
  show ?thesis using live_demo by (auto simp: demo_world_def)
qed


section \<open>Settings\<close>

text \<open>
  What the setters that change a parameter of the codec promise: a well-formed context stays
  well formed and owns the same blocks, and once the key has been used the call is ignored.
\<close>

locale codec_setting =
  fixes setter :: "codec_ctx \<Rightarrow> int \<Rightarrow> (rc \<times> codec_ctx) option"
  assumes keeps_wf: "codec_wf ctx \<Longrightarrow>
      \<exists>ctx'. setter ctx v = Some (SQLITE_OK, ctx') \<and> codec_wf ctx' \<and> codec_owned ctx' = codec_owned ctx"
    and frozen: "SQLCIPHER_FLAG_GET (flags ctx) CIPHER_FLAG_KEY_USED \<Longrightarrow> setter ctx v = Some (SQLITE_OK, ctx)"
begin

lemma step_ok:
  assumes "codec_wf ctx"
  shows "\<exists>ctx'. pure_step (\<lambda>c. setter c v) ctx w = Some (SQLITE_OK, ctx', w) \<and> codec_wf ctx'
    \<and> codec_owned ctx' = codec_owned ctx \<and> (SQLCIPHER_FLAG_GET (flags ctx) CIPHER_FLAG_KEY_USED \<longrightarrow> ctx' = ctx)"
proof -
  obtain c where c: "setter ctx v = Some (SQLITE_OK, c)" "codec_wf c" "codec_owned c = codec_owned ctx"
    using keeps_wf [OF assms] by blast
  have "SQLCIPHER_FLAG_GET (flags ctx) CIPHER_FLAG_KEY_USED \<Longrightarrow> c = ctx" using c(1) frozen [of ctx v] by simp
  then show ?thesis using c by (auto simp: pure_step_def)
qed

end

lemmas wf_defs = codec_wf_def settings_wf_def buffers_wf_def ciphers_wf_def

lemma codec_wf_derive: "codec_wf ctx \<Longrightarrow> codec_wf (sqlcipher_set_derive_key ctx d)"
  by (auto simp: wf_defs sqlcipher_set_derive_key_def cipher_wf_def)

lemma codec_wf_reserve_setup:
  assumes "codec_wf ctx"
  shows "\<exists>ctx'. sqlcipher_codec_ctx_reserve_setup (ctx\<lparr>flags := fl, hmac_algorithm := a\<rparr>) = Some (SQLITE_OK, ctx')
    \<and> codec_wf ctx' \<and> codec_owned ctx' = codec_owned ctx"
proof -
  obtain p where p: "x_provider ctx = Some p" "provider_ok p" "key_sz ctx = pv_get_key_sz p" "iv_sz ctx = pv_get_iv_sz p"
    "block_sz ctx = pv_get_block_sz p" using assms by (auto simp: wf_defs)
  have "sqlcipher_codec_ctx_reserve_setup (ctx\<lparr>flags := fl, hmac_algorithm := a\<rparr>) =
      Some (SQLITE_OK, ctx\<lparr>flags := fl, hmac_algorithm := a, hmac_sz := pv_get_hmac_sz p a, reserve_sz := reserve_for p fl a\<rparr>)"
    using reserve_setup_eq [OF p(2)] p by simp
  then show ?thesis using assms p by (auto simp: wf_defs)
qed

interpretation set_kdf_iter: codec_setting sqlcipher_codec_ctx_set_kdf_iter
proof
  fix ctx v assume "codec_wf ctx"
  then show "\<exists>c. sqlcipher_codec_ctx_set_kdf_iter ctx v = Some (SQLITE_OK, c) \<and> codec_wf c \<and> codec_owned c = codec_owned ctx"
    using codec_wf_derive [of "ctx\<lparr>kdf_iter := v\<rparr>" 1] by (auto simp: sqlcipher_codec_ctx_set_kdf_iter_def wf_defs)
qed (simp add: sqlcipher_codec_ctx_set_kdf_iter_def)

interpretation set_fast_kdf_iter: codec_setting sqlcipher_codec_ctx_set_fast_kdf_iter
proof
  fix ctx v assume "codec_wf ctx"
  then show "\<exists>c. sqlcipher_codec_ctx_set_fast_kdf_iter ctx v = Some (SQLITE_OK, c) \<and> codec_wf c \<and> codec_owned c = codec_owned ctx"
    using codec_wf_derive [of "ctx\<lparr>fast_kdf_iter := v\<rparr>" 1] by (auto simp: sqlcipher_codec_ctx_set_fast_kdf_iter_def wf_defs)
qed (simp add: sqlcipher_codec_ctx_set_fast_kdf_iter_def)

interpretation set_kdf_algorithm: codec_setting sqlcipher_codec_ctx_set_kdf_algorithm
proof
  fix ctx v assume "codec_wf ctx"
  then show "\<exists>c. sqlcipher_codec_ctx_set_kdf_algorithm ctx v = Some (SQLITE_OK, c) \<and> codec_wf c \<and> codec_owned c = codec_owned ctx"
    by (auto simp: sqlcipher_codec_ctx_set_kdf_algorithm_def wf_defs)
qed (simp add: sqlcipher_codec_ctx_set_kdf_algorithm_def)

interpretation set_hmac_algorithm: codec_setting sqlcipher_codec_ctx_set_hmac_algorithm
proof
  fix ctx v assume "codec_wf ctx"
  then show "\<exists>c. sqlcipher_codec_ctx_set_hmac_algorithm ctx v = Some (SQLITE_OK, c) \<and> codec_wf c \<and> codec_owned c = codec_owned ctx"
    using codec_wf_reserve_setup [of ctx v "flags ctx"] by (auto simp: sqlcipher_codec_ctx_set_hmac_algorithm_def)
qed (simp add: sqlcipher_codec_ctx_set_hmac_algorithm_def)

interpretation set_use_hmac: codec_setting sqlcipher_codec_ctx_set_use_hmac
proof
  fix ctx v assume "codec_wf ctx"
  then show "\<exists>c. sqlcipher_codec_ctx_set_use_hmac ctx v = Some (SQLITE_OK, c) \<and> codec_wf c \<and> codec_owned c = codec_owned ctx"
    using codec_wf_reserve_setup [of ctx "hmac_algorithm ctx"] by (auto simp: sqlcipher_codec_ctx_set_use_hmac_def)
qed (simp add: sqlcipher_codec_ctx_set_use_hmac_def)

datatype setting = Kdf_iter int | Fast_kdf_iter int | Use_hmac int | Hmac_algorithm int | Kdf_algorithm int

fun apply_setting :: "setting \<Rightarrow> codec_ctx \<Rightarrow> (rc \<times> codec_ctx) option" where
  "apply_setting (Kdf_iter v) ctx = sqlcipher_codec_ctx_set_kdf_iter ctx v"
| "apply_setting (Fast_kdf_iter v) ctx = sqlcipher_codec_ctx_set_fast_kdf_iter ctx v"
| "apply_setting (Use_hmac v) ctx = sqlcipher_codec_ctx_set_use_hmac ctx v"
| "apply_setting (Hmac_algorithm v) ctx = sqlcipher_codec_ctx_set_hmac_algorithm ctx v"
| "apply_setting (Kdf_algorithm v) ctx = sqlcipher_codec_ctx_set_kdf_algorithm ctx v"

lemma apply_setting_eta:
  "apply_setting (Kdf_iter v) = (\<lambda>c. sqlcipher_codec_ctx_set_kdf_iter c v)"
  "apply_setting (Fast_kdf_iter v) = (\<lambda>c. sqlcipher_codec_ctx_set_fast_kdf_iter c v)"
  "apply_setting (Use_hmac v) = (\<lambda>c. sqlcipher_codec_ctx_set_use_hmac c v)"
  "apply_setting (Hmac_algorithm v) = (\<lambda>c. sqlcipher_codec_ctx_set_hmac_algorithm c v)"
  "apply_setting (Kdf_algorithm v) = (\<lambda>c. sqlcipher_codec_ctx_set_kdf_algorithm c v)"
  by (simp_all add: fun_eq_iff)

lemma apply_setting_ok:
  "codec_wf ctx \<Longrightarrow> \<exists>ctx'. pure_step (apply_setting s) ctx w = Some (SQLITE_OK, ctx', w) \<and> codec_wf ctx'
    \<and> codec_owned ctx' = codec_owned ctx \<and> (SQLCIPHER_FLAG_GET (flags ctx) CIPHER_FLAG_KEY_USED \<longrightarrow> ctx' = ctx)"
  by (cases s) (simp_all only: apply_setting_eta set_kdf_iter.step_ok set_fast_kdf_iter.step_ok set_use_hmac.step_ok
      set_hmac_algorithm.step_ok set_kdf_algorithm.step_ok)

lemma settings_run_ok:
  "codec_wf ctx \<Longrightarrow> \<exists>ctx'. run_steps (map (\<lambda>s. pure_step (apply_setting s)) ss) ctx w = Some (SQLITE_OK, ctx', w)
     \<and> codec_wf ctx' \<and> codec_owned ctx' = codec_owned ctx
     \<and> (SQLCIPHER_FLAG_GET (flags ctx) CIPHER_FLAG_KEY_USED \<longrightarrow> ctx' = ctx)"
proof (induction ss arbitrary: ctx)
  case (Cons s ss)
  obtain c where c: "pure_step (apply_setting s) ctx w = Some (SQLITE_OK, c, w)" "codec_wf c"
    "codec_owned c = codec_owned ctx" "SQLCIPHER_FLAG_GET (flags ctx) CIPHER_FLAG_KEY_USED \<longrightarrow> c = ctx"
    using apply_setting_ok [OF Cons.prems] by blast
  with Cons.IH [OF c(2)] show ?case by auto
qed simp




lemma smod_nonneg: "0 \<le> a \<Longrightarrow> 0 < b \<Longrightarrow> (a::int) smod b = a mod b"
  by (cases "a = 0") (simp_all add: signed_modulo_int_def signed_divide_int_def minus_div_mult_eq_mod)

lemma sdiv_nonneg: "0 \<le> a \<Longrightarrow> 0 < b \<Longrightarrow> (a::int) sdiv b = a div b"
  by (cases "a = 0") (simp_all add: signed_divide_int_def)

lemma round_up_block:
  assumes "0 \<le> r" "0 < (b::int)"
  shows "b dvd (if r smod b = 0 then r else (r sdiv b + 1) * b) \<and> r \<le> (if r smod b = 0 then r else (r sdiv b + 1) * b)
    \<and> (if r smod b = 0 then r else (r sdiv b + 1) * b) < r + b"
proof (cases "r mod b = 0")
  case True
  then show ?thesis using assms by (auto simp: smod_nonneg)
next
  case False
  have "r = r div b * b + r mod b" "0 \<le> r mod b" "r mod b < b" using assms by simp_all
  moreover have "(r div b + 1) * b = r div b * b + b" by (simp add: algebra_simps)
  ultimately have "r \<le> (r div b + 1) * b \<and> (r div b + 1) * b < r + b" using False by linarith
  then show ?thesis using False assms by (simp add: smod_nonneg sdiv_nonneg)
qed

text \<open>
  C18: The reserve computed for a page holds the initialization vector and, when HMAC is on,
  the authentication code; it is a multiple of the cipher block and wastes less than one block.
\<close>

theorem reserve_setup_size:
  assumes "provider_ok p" "x_provider ctx = Some p" "iv_sz ctx = pv_get_iv_sz p" "block_sz ctx = pv_get_block_sz p"
  shows "\<exists>ctx' need. sqlcipher_codec_ctx_reserve_setup ctx = Some (SQLITE_OK, ctx')
     \<and> hmac_sz ctx' = pv_get_hmac_sz p (hmac_algorithm ctx)
     \<and> need = iv_sz ctx + (if SQLCIPHER_FLAG_GET (flags ctx) CIPHER_FLAG_HMAC then hmac_sz ctx' else 0)
     \<and> block_sz ctx dvd reserve_sz ctx' \<and> need \<le> reserve_sz ctx' \<and> reserve_sz ctx' < need + block_sz ctx"
proof -
  let ?r = "if SQLCIPHER_FLAG_GET (flags ctx) CIPHER_FLAG_HMAC then pv_get_iv_sz p + pv_get_hmac_sz p (hmac_algorithm ctx) else pv_get_iv_sz p"
  have "0 \<le> pv_get_hmac_sz p (hmac_algorithm ctx)" "0 < pv_get_iv_sz p" "0 < pv_get_block_sz p"
    using assms(1) by (auto simp: provider_ok_def)
  then have "0 \<le> ?r" "0 < pv_get_block_sz p" by simp_all
  from round_up_block [OF this] show ?thesis using reserve_setup_eq [OF assms] assms(3,4)
    by (auto simp: reserve_for_def Let_def)
qed

theorem reserve_setup_size_witness:
  "\<exists>ctx'. sqlcipher_codec_ctx_reserve_setup demo_codec = Some (SQLITE_OK, ctx') \<and> 2 dvd reserve_sz ctx'"
proof -
  have "x_provider demo_codec = Some demo_provider" "iv_sz demo_codec = pv_get_iv_sz demo_provider"
    "block_sz demo_codec = pv_get_block_sz demo_provider" by (simp_all add: demo_codec_def demo_provider_def)
  from reserve_setup_size [OF demo_provider_ok this] show ?thesis by (auto simp: demo_codec_def)
qed

definition demo_ctx_world :: world where
  "demo_ctx_world = demo_world\<lparr>w_heap := demo_heap\<lparr>private_heap_used := 128, private_heap_hwm := 128,
     hp_blocks := [1024 \<mapsto> \<lparr>pb_next = Some 1168, pb_size = 128, pb_used = True\<rparr>,
                   1168 \<mapsto> \<lparr>pb_next = None, pb_size = 48, pb_used = False\<rparr>]\<rparr>\<rparr>"

lemma demo_ctx_holds: "holds demo_ctx_world {} ({#} + codec_owned (codec_ctx_zero 1040 bt)) demo_ctx_world"
proof -
  let ?h = "w_heap demo_ctx_world"
  have i: "heap_inv ?h \<and> heap_view ?h = [(1024, 128, True), (1168, 48, False)]"
    by (rule heap_inv_intro)
      (auto simp: heap_inv_of_def demo_ctx_world_def demo_heap_def sys_malloc_ok_def sys_inv_def region_inv_def)
  then have "live ?h = {(1040, 128)}"
    by (auto simp: live_def demo_ctx_world_def demo_heap_def split: if_splits)
  then have "owns (live ?h) {} {#(1040, 128)#}" by (auto simp: owns_def)
  moreover have "codec_owned (codec_ctx_zero 1040 bt) = {#(1040, 128)#}"
    by (simp add: codec_owned_def codec_ctx_zero_def u64_size_def sizeof_codec_ctx_def)
  ultimately show ?thesis using i unfolding holds_def
    by (intro exI [of _ ?h] exI [of _ "w_calls demo_ctx_world"]) simp
qed

text \<open>
  C19: Before the key is used, setting the page size is refused, with nothing changed, exactly
  when the size is not a power of two from 512 to 65536; otherwise the old page buffer is
  released and replaced by a zeroed one of the new size, or by none when memory runs out.
\<close>

theorem set_pagesize_behaviour:
  assumes "holds g R (M + codec_owned ctx) w" "\<not> SQLCIPHER_FLAG_GET (flags ctx) CIPHER_FLAG_KEY_USED"
  shows "(sqlcipher_codec_ctx_set_pagesize ctx sz w = Some (SQLITE_ERROR, ctx, w)) = (\<not> (\<exists>k \<in> {9..16}. sz = 2 ^ k))
    \<and> ((\<exists>k \<in> {9..16}. sz = 2 ^ k) \<longrightarrow>
         (\<exists>rc b w'. sqlcipher_codec_ctx_set_pagesize ctx sz w = Some (rc, ctx\<lparr>page_sz := sz, buffer := b\<rparr>, w')
            \<and> holds g R (M + codec_owned (ctx\<lparr>page_sz := sz, buffer := b\<rparr>)) w'
            \<and> (if b = None then rc = SQLITE_NOMEM else rc = SQLITE_OK \<and> contents b = Some (replicate (nat sz) 0))))"
proof (cases "page_size_ok sz")
  case False
  then show ?thesis using assms(2) unfolding page_size_ok_iff [symmetric]
    by (auto simp: sqlcipher_codec_ctx_set_pagesize_def page_size_ok_def)
next
  case True
  let ?N = "M + codec_owned (ctx\<lparr>buffer := None\<rparr>)"
  have eq: "codec_owned (ctx\<lparr>page_sz := n, buffer := b\<rparr>) = codec_owned (ctx\<lparr>buffer := None\<rparr>) + ob n b" for n b
    by (simp add: codec_owned_def ac_simps)
  have "holds g R (?N + ob (page_sz ctx) (buffer ctx)) w"
    using assms(1) eq [where n = "page_sz ctx" and b = "buffer ctx"] by (simp add: add.assoc)
  then obtain w1 where w1: "buf_free (buffer ctx) (page_sz ctx) w = Some w1" "holds g R ?N w1" using holds_buf_free by blast
  obtain b w2 where b: "buf_malloc sz w1 = Some (b, w2)" "holds g R (?N + ob sz b) w2"
    "b = None \<or> (\<exists>a. b = Some (a, replicate (nat sz) 0))" using holds_buf_malloc [OF w1(2)] by blast
  have d: "sqlcipher_codec_ctx_set_pagesize ctx sz w =
      Some (if b = None then SQLITE_NOMEM else SQLITE_OK, ctx\<lparr>page_sz := sz, buffer := b\<rparr>, w2)"
    using True assms(2) w1(1) b(1) by (auto simp: sqlcipher_codec_ctx_set_pagesize_def page_size_ok_def)
  have h: "holds g R (M + codec_owned (ctx\<lparr>page_sz := sz, buffer := b\<rparr>)) w2" unfolding eq using b(2) by (simp only: add.assoc)
  have "sqlcipher_codec_ctx_set_pagesize ctx sz w \<noteq> Some (SQLITE_ERROR, ctx, w)" using d by (cases "b = None") simp_all
  moreover have "if b = None then (if b = None then SQLITE_NOMEM else SQLITE_OK) = SQLITE_NOMEM
      else (if b = None then SQLITE_NOMEM else SQLITE_OK) = SQLITE_OK \<and> contents b = Some (replicate (nat sz) 0)"
    using b(3) by auto
  ultimately show ?thesis unfolding page_size_ok_iff [symmetric] using True d h by blast
qed

theorem set_pagesize_behaviour_witness:
  "sqlcipher_codec_ctx_set_pagesize (codec_ctx_zero 1040 demo_btree) 1000 demo_ctx_world
     = Some (SQLITE_ERROR, codec_ctx_zero 1040 demo_btree, demo_ctx_world)
   \<and> (\<exists>rc b w'. sqlcipher_codec_ctx_set_pagesize (codec_ctx_zero 1040 demo_btree) 512 demo_ctx_world
          = Some (rc, (codec_ctx_zero 1040 demo_btree)\<lparr>page_sz := 512, buffer := b\<rparr>, w'))"
proof -
  have n: "\<not> (\<exists>k \<in> {9..16}. (1000::int) = 2 ^ k)" "\<exists>k \<in> {9..16}. (512::int) = 2 ^ k"
    unfolding page_size_ok_iff [symmetric] by (simp_all add: page_size_ok_def)
  have f: "\<not> SQLCIPHER_FLAG_GET (flags (codec_ctx_zero 1040 demo_btree)) CIPHER_FLAG_KEY_USED"
    by (simp add: codec_ctx_zero_def flag_simps)
  note b = set_pagesize_behaviour [OF demo_ctx_holds f]
  show ?thesis using b [of 1000] b [of 512] n by blast
qed

end
