(* ===== verification/SC_Page.thy ===== *)
theory SC_Page
  imports SC_CodecSettings
begin

unbundle bit_operations_syntax

text \<open>
  Page encryption of src/src/sqlcipher.c: the authentication code of a page and the
  encryption and decryption of one. A page is its usable bytes followed by the reserve: the
  initialization vector, the authentication code, and padding.

  The buffers \<open>inp\<close> and \<open>out\<close> are distinct, as at every call; an access outside one of them
  has no result. A key is unshielded for the provider call and shielded again right after,
  which leaves the context as it was. The host is little-endian.
\<close>

section \<open>Definitions\<close>

definition pgno_raw :: "u32 \<Rightarrow> u32 \<Rightarrow> bytes" where
  "pgno_raw fl pgno =
     (if SQLCIPHER_FLAG_GET fl CIPHER_FLAG_LE_PGNO then sqlcipher_put4byte_le pgno
      else if SQLCIPHER_FLAG_GET fl CIPHER_FLAG_BE_PGNO then sqlite3Put4byte pgno
      else sqlcipher_put4byte_le pgno)"

definition sqlcipher_page_hmac :: "world \<Rightarrow> codec_ctx \<Rightarrow> cipher_ctx \<Rightarrow> u32 \<Rightarrow> bytes \<Rightarrow> int \<Rightarrow> (rc \<times> bytes) option" where
  "sqlcipher_page_hmac w ctx c pgno inp in_sz = do {
     p \<leftarrow> x_provider ctx;
     (_, hk) \<leftarrow> hmac_key c;
     if in_sz < 0 \<or> int (length inp) < in_sz then None
     else Some (pv_hmac p (hmac_algorithm ctx) (sqlcipher_shield (shield_mask w) hk (nat (key_sz ctx)))
                  (take (nat in_sz) inp) (pgno_raw (flags ctx) pgno)) }"

text \<open>The error exit: the output is wiped.\<close>

definition page_error :: "int \<Rightarrow> bytes \<Rightarrow> world \<Rightarrow> (rc \<times> bytes \<times> world) option" where
  "page_error psz out w =
     (if psz < 0 \<or> int (length out) < psz then None
      else Some (SQLITE_ERROR, sqlcipher_memset out 0 (nat psz), w))"

text \<open>
  The check of the authentication code when decrypting. \<open>Inl\<close> is an early return with the
  result code and the output, \<open>Inr\<close> the output with which decryption goes on.
\<close>

definition page_check_hmac ::
    "codec_ctx \<Rightarrow> cipher_ctx \<Rightarrow> u32 \<Rightarrow> int \<Rightarrow> bytes \<Rightarrow> bytes \<Rightarrow> world \<Rightarrow> ((rc \<times> bytes) + bytes) option" where
  "page_check_hmac ctx c pgno psz inp out w = do {
     let sz = psz - reserve_sz ctx;
     let off = nat (sz + iv_sz ctx);
     (rc, mac) \<leftarrow> sqlcipher_page_hmac w ctx c pgno inp (sz + iv_sz ctx);
     let out = memcpy_at out off mac;
     if rc \<noteq> SQLITE_OK then Some (Inl (SQLITE_ERROR, sqlcipher_memset out 0 (nat psz)))
     else if sqlcipher_memcmp (drop off inp) (drop off out) (nat (hmac_sz ctx)) \<noteq> 0 then
       (if bt_autoVacuum (pBt ctx) \<noteq> 0 \<and> sqlcipher_ismemset inp 0 (nat psz) = 0
        then Some (Inl (SQLITE_OK, sqlcipher_memset out 0 (nat psz)))
        else Some (Inl (SQLITE_ERROR, sqlcipher_memset out 0 (nat psz))))
     else Some (Inr out) }"

definition page_run_cipher ::
    "codec_ctx \<Rightarrow> cipher_ctx \<Rightarrow> int \<Rightarrow> int \<Rightarrow> bytes \<Rightarrow> bytes \<Rightarrow> world \<Rightarrow> (rc \<times> bytes) option" where
  "page_run_cipher ctx c mode psz inp out w = do {
     p \<leftarrow> x_provider ctx;
     (_, k) \<leftarrow> key c;
     let sz = nat (psz - reserve_sz ctx);
     let (rc, res) = pv_cipher p mode (sqlcipher_shield (shield_mask w) k (nat (key_sz ctx)))
                       (slice out sz (nat (iv_sz ctx))) (take sz inp);
     Some (rc, memcpy_at out 0 res) }"

definition sqlcipher_page_cipher ::
    "codec_ctx \<Rightarrow> int \<Rightarrow> u32 \<Rightarrow> int \<Rightarrow> int \<Rightarrow> bytes \<Rightarrow> bytes \<Rightarrow> world \<Rightarrow> (rc \<times> bytes \<times> world) option" where
  "sqlcipher_page_cipher ctx for_ctx pgno mode psz inp out w = do {
     c \<leftarrow> (if for_ctx \<noteq> 0 then write_ctx ctx else read_ctx ctx);
     p \<leftarrow> x_provider ctx;
     let sz = psz - reserve_sz ctx;
     if pgno = 1 \<and> sz = 0 then Some (SQLITE_OK, out, w)
     else if key_sz ctx = 0 then page_error psz out w
     else if sz < 0 \<or> int (length inp) < psz \<or> int (length out) < psz then None
     else if mode = SQLCIPHER_ENCRYPT then do {
       let (rc, rnd) = pv_random p (w_calls w) (nat (reserve_sz ctx));
       let w = w\<lparr>w_calls := w_calls w + 1\<rparr>;
       let out = memcpy_at out (nat sz) rnd;
       if rc \<noteq> SQLITE_OK then page_error psz out w
       else do {
         (rc, out) \<leftarrow> page_run_cipher ctx c mode psz inp out w;
         if rc \<noteq> SQLITE_OK then page_error psz out w
         else if SQLCIPHER_FLAG_GET (flags ctx) CIPHER_FLAG_HMAC then do {
           (rc, mac) \<leftarrow> sqlcipher_page_hmac w ctx c pgno out (sz + iv_sz ctx);
           let out = memcpy_at out (nat (sz + iv_sz ctx)) mac;
           if rc \<noteq> SQLITE_OK then page_error psz out w else Some (SQLITE_OK, out, w) }
         else Some (SQLITE_OK, out, w) } }
     else do {
       let out = memcpy_at out (nat sz) (slice inp (nat sz) (nat (iv_sz ctx)));
       r \<leftarrow> (if SQLCIPHER_FLAG_GET (flags ctx) CIPHER_FLAG_HMAC \<and> mode = SQLCIPHER_DECRYPT
            then page_check_hmac ctx c pgno psz inp out w else Some (Inr out));
       case r of
         Inl (rc, out) \<Rightarrow> Some (rc, out, w)
       | Inr out \<Rightarrow> do {
           (rc, out) \<leftarrow> page_run_cipher ctx c mode psz inp out w;
           if rc \<noteq> SQLITE_OK then page_error psz out w else Some (SQLITE_OK, out, w) } } }"


section \<open>The page format\<close>

text \<open>
  What a page operation needs of the context, with sizes as natural numbers: \<open>S\<close> usable
  bytes, a reserve of \<open>Z\<close> that starts with \<open>I\<close> bytes of initialization vector and, with HMAC,
  \<open>H\<close> bytes of authentication code.
\<close>

definition page_params ::
    "codec_ctx \<Rightarrow> cipher_ctx \<Rightarrow> int \<Rightarrow> provider \<Rightarrow> nat \<Rightarrow> nat \<Rightarrow> nat \<Rightarrow> nat \<Rightarrow> bytes \<Rightarrow> bytes \<Rightarrow> bool" where
  "page_params ctx c psz p S Z I H k hk \<longleftrightarrow>
     x_provider ctx = Some p \<and> provider_ok p \<and> key_sz ctx \<noteq> 0 \<and> contents (key c) = Some k \<and> contents (hmac_key c) = Some hk
     \<and> reserve_sz ctx = int Z \<and> psz = int (S + Z) \<and> iv_sz ctx = int I \<and> hmac_sz ctx = int H
     \<and> pv_get_hmac_sz p (hmac_algorithm ctx) = int H
     \<and> (if SQLCIPHER_FLAG_GET (flags ctx) CIPHER_FLAG_HMAC then I + H \<le> Z else I \<le> Z)"

definition plain_key :: "world \<Rightarrow> codec_ctx \<Rightarrow> bytes \<Rightarrow> bytes" where
  "plain_key w ctx k = sqlcipher_shield (shield_mask w) k (nat (key_sz ctx))"

definition mac_of :: "world \<Rightarrow> codec_ctx \<Rightarrow> provider \<Rightarrow> bytes \<Rightarrow> u32 \<Rightarrow> bytes \<Rightarrow> rc \<times> bytes" where
  "mac_of w ctx p hk pgno body = pv_hmac p (hmac_algorithm ctx) (plain_key w ctx hk) body (pgno_raw (flags ctx) pgno)"

text \<open>The page that encryption produces: ciphertext, IV, authentication code, random padding.\<close>

definition page_format :: "world \<Rightarrow> codec_ctx \<Rightarrow> provider \<Rightarrow> bytes \<Rightarrow> u32 \<Rightarrow> nat \<Rightarrow> bytes \<Rightarrow> bytes \<Rightarrow> bytes" where
  "page_format w ctx p hk pgno I ct rnd =
     (let iv = take I rnd
      in if SQLCIPHER_FLAG_GET (flags ctx) CIPHER_FLAG_HMAC
         then ct @ iv @ snd (mac_of w ctx p hk pgno (ct @ iv)) @ drop (nat (iv_sz ctx + hmac_sz ctx)) rnd
         else ct @ rnd)"

lemma plain_key_calls [simp]: "plain_key (w\<lparr>w_calls := n\<rparr>) ctx x = plain_key w ctx x"
  by (simp add: plain_key_def)

lemma mac_of_calls [simp]: "mac_of (w\<lparr>w_calls := n\<rparr>) ctx p hk pgno x = mac_of w ctx p hk pgno x"
  by (simp add: mac_of_def)

lemma provider_lengths:
  assumes "provider_ok p"
  shows "length (snd (pv_random p k n)) = n" "length (snd (pv_hmac p a kk x y)) = nat (pv_get_hmac_sz p a)"
    "length (snd (pv_kdf p a x s i n)) = n" "length (snd (pv_cipher p m kk iv x)) = length x"
  using assms by (auto simp: provider_ok_def)

lemma page_error_zero:
  "psz = int n \<Longrightarrow> n \<le> length out \<Longrightarrow> page_error psz out w = Some (SQLITE_ERROR, replicate n 0 @ drop n out, w)"
  by (simp add: page_error_def sqlcipher_memset_eq)

lemma page_hmac_eq:
  assumes "page_params ctx c psz p S Z I H k hk" "S + Z \<le> length inp" "I \<le> Z"
  shows "sqlcipher_page_hmac w ctx c pgno inp (psz - reserve_sz ctx + iv_sz ctx) = Some (mac_of w ctx p hk pgno (take (S + I) inp))"
proof -
  obtain a where "hmac_key c = Some (a, hk)" using assms(1) by (auto simp: page_params_def contents_def)
  moreover have "psz - reserve_sz ctx + iv_sz ctx = int (S + I)" using assms(1) by (simp add: page_params_def)
  ultimately show ?thesis using assms
    by (simp add: sqlcipher_page_hmac_def page_params_def mac_of_def plain_key_def nat_plus_as_int)
qed

lemma page_run_cipher_eq:
  assumes "page_params ctx c psz p S Z I H k hk" "pv_cipher p mode (plain_key w ctx k) (slice out S I) (take S inp) = (rc, res)"
  shows "page_run_cipher ctx c mode psz inp out w = Some (rc, memcpy_at out 0 res)"
proof -
  obtain a where "key c = Some (a, k)" using assms(1) by (auto simp: page_params_def contents_def)
  then show ?thesis using assms by (simp add: page_run_cipher_def page_params_def plain_key_def)
qed


lemma memcpy_rnd: "length out = S + Z + E \<Longrightarrow> length rnd = Z \<Longrightarrow> memcpy_at out S rnd = take S out @ rnd @ drop (S + Z) out"
  by (simp add: memcpy_at_def)

lemma encrypt_fail_random:
  assumes "page_params ctx c psz p S Z I H k hk" "c' = Some c" "(if for_ctx \<noteq> 0 then write_ctx ctx else read_ctx ctx) = c'"
    "S + Z \<le> length inp" "S + Z \<le> length out" "\<not> (pgno = 1 \<and> S = 0)"
    "fst (pv_random p (w_calls w) Z) \<noteq> SQLITE_OK"
  shows "\<exists>out' w'. sqlcipher_page_cipher ctx for_ctx pgno SQLCIPHER_ENCRYPT psz inp out w = Some (SQLITE_ERROR, out', w')
    \<and> out' = replicate (S + Z) 0 @ drop (S + Z) out"
proof -
  obtain rc rnd where r: "pv_random p (w_calls w) Z = (rc, rnd)" by (cases "pv_random p (w_calls w) Z")
  have "length rnd = Z" using provider_lengths(1) [of p "w_calls w" Z] assms(1) r by (simp add: page_params_def)
  then have "page_error psz (memcpy_at out S rnd) w' = Some (SQLITE_ERROR, replicate (S + Z) 0 @ drop (S + Z) out, w')" for w'
    using assms(1,5) by (subst page_error_zero [of _ "S + Z"]) (simp_all add: page_params_def memcpy_at_def)
  then show ?thesis using assms r
    by (auto simp: sqlcipher_page_cipher_def page_params_def SQLCIPHER_ENCRYPT_def Let_def)
qed

lemma page_guards:
  assumes "page_params ctx c psz p S Z I H k hk" "S + Z \<le> length inp" "S + Z \<le> length out" "\<not> (pgno = 1 \<and> S = 0)"
  shows "x_provider ctx = Some p" "key_sz ctx \<noteq> 0" "\<not> psz < reserve_sz ctx" "(psz = reserve_sz ctx) = (S = 0)"
    "\<not> int (length inp) < psz" "\<not> int (length out) < psz" "\<not> (pgno = 1 \<and> psz = reserve_sz ctx)"
    "nat (psz - reserve_sz ctx) = S" "nat (psz - reserve_sz ctx + iv_sz ctx) = S + I" "nat (iv_sz ctx) = I" "nat psz = S + Z"
    "nat (reserve_sz ctx) = Z" "nat (hmac_sz ctx) = H"
  using assms by (auto simp: page_params_def)

lemma encrypt_page:
  assumes "page_params ctx c psz p S Z I H k hk" "(if for_ctx \<noteq> 0 then write_ctx ctx else read_ctx ctx) = Some c"
    "S + Z \<le> length inp" "S + Z \<le> length out" "\<not> (pgno = 1 \<and> S = 0)"
    "pv_random p (w_calls w) Z = (SQLITE_OK, rnd)"
    "pv_cipher p SQLCIPHER_ENCRYPT (plain_key w ctx k) (take I rnd) (take S inp) = (rc, ct)"
  shows "sqlcipher_page_cipher ctx for_ctx pgno SQLCIPHER_ENCRYPT psz inp out w =
     Some (if rc = SQLITE_OK \<and> (SQLCIPHER_FLAG_GET (flags ctx) CIPHER_FLAG_HMAC \<longrightarrow> fst (mac_of w ctx p hk pgno (ct @ take I rnd)) = SQLITE_OK)
           then (SQLITE_OK, page_format w ctx p hk pgno I ct rnd @ drop (S + Z) out, w\<lparr>w_calls := w_calls w + 1\<rparr>)
           else (SQLITE_ERROR, replicate (S + Z) 0 @ drop (S + Z) out, w\<lparr>w_calls := w_calls w + 1\<rparr>))"
proof -
  let ?w = "w\<lparr>w_calls := w_calls w + 1\<rparr>"
  let ?o1 = "memcpy_at out S rnd" and ?o2 = "ct @ rnd @ drop (S + Z) out"
  have ok: "provider_ok p" using assms(1) by (simp add: page_params_def)
  have IZ: "I \<le> Z" using assms(1) by (auto simp: page_params_def split: if_splits)
  have lr: "length rnd = Z" using provider_lengths(1) [OF ok, of "w_calls w" Z] assms(6) by simp
  have lc: "length ct = S" using provider_lengths(4) [OF ok, of SQLCIPHER_ENCRYPT "plain_key w ctx k" "take I rnd" "take S inp"] assms(3,7) by simp
  have "slice ?o1 S I = take I rnd" using assms(4) lr IZ by (simp add: slice_def memcpy_at_def)
  then have run: "page_run_cipher ctx c SQLCIPHER_ENCRYPT psz inp ?o1 ?w = Some (rc, memcpy_at ?o1 0 ct)"
    using assms(7) by (intro page_run_cipher_eq [OF assms(1)]) simp
  have o2: "memcpy_at ?o1 0 ct = ?o2" using lc lr assms(4) by (simp add: memcpy_at_def)
  have l2: "length ?o2 = length out" using lc lr assms(4) by simp
  have err: "page_error psz x v = Some (SQLITE_ERROR, replicate (S + Z) 0 @ drop (S + Z) out, v)"
    if "length x = length out" "drop (S + Z) x = drop (S + Z) out" for x v
    using that assms(1,4) by (subst page_error_zero [of _ "S + Z"]) (simp_all add: page_params_def)
  obtain mrc mac where m: "mac_of w ctx p hk pgno (ct @ take I rnd) = (mrc, mac)" by (cases "mac_of w ctx p hk pgno (ct @ take I rnd)")
  have hm: "sqlcipher_page_hmac ?w ctx c pgno ?o2 (psz - reserve_sz ctx + iv_sz ctx) = Some (mrc, mac)"
    using page_hmac_eq [OF assms(1) _ IZ, of ?o2 ?w pgno] assms(4) lc lr l2 m IZ by simp
  have lm: "length mac = H" using provider_lengths(2) [OF ok] m assms(1) by (metis mac_of_def nat_int page_params_def snd_conv)
  have o3: "memcpy_at ?o2 (S + I) mac = ct @ take I rnd @ mac @ drop (I + H) rnd @ drop (S + Z) out" if "I + H \<le> Z"
    using that lc lr lm by (simp add: memcpy_at_def)
  have nats: "nat (psz - reserve_sz ctx) = S" "nat (psz - reserve_sz ctx + iv_sz ctx) = S + I" "nat (iv_sz ctx + hmac_sz ctx) = I + H"
    "nat (reserve_sz ctx) = Z" using assms(1) by (auto simp: page_params_def)
  have start: "sqlcipher_page_cipher ctx for_ctx pgno SQLCIPHER_ENCRYPT psz inp out w =
      (if rc \<noteq> SQLITE_OK then page_error psz ?o2 ?w
       else if SQLCIPHER_FLAG_GET (flags ctx) CIPHER_FLAG_HMAC then
         (if mrc \<noteq> SQLITE_OK then page_error psz (memcpy_at ?o2 (S + I) mac) ?w else Some (SQLITE_OK, memcpy_at ?o2 (S + I) mac, ?w))
       else Some (SQLITE_OK, ?o2, ?w))"
    using assms(2,5,6) run hm page_guards [OF assms(1,3-5)] unfolding o2
    by (cases "pgno = 1") (simp_all add: sqlcipher_page_cipher_def nats Let_def)
  show ?thesis
  proof (cases "rc = SQLITE_OK")
    case False
    then show ?thesis using start err [of ?o2] l2 lc lr by simp
  next
    case True
    show ?thesis
    proof (cases "SQLCIPHER_FLAG_GET (flags ctx) CIPHER_FLAG_HMAC")
      case False
      then show ?thesis using start \<open>rc = SQLITE_OK\<close> by (simp add: page_format_def)
    next
      case hmac: True
      then have "I + H \<le> Z" using assms(1) by (simp add: page_params_def)
      note o3 = o3 [OF this]
      have "page_error psz (memcpy_at ?o2 (S + I) mac) ?w = Some (SQLITE_ERROR, replicate (S + Z) 0 @ drop (S + Z) out, ?w)"
        unfolding o3 using lc lr lm \<open>I + H \<le> Z\<close> assms(4) by (intro err) simp_all
      then show ?thesis using start True hmac m o3 nats(3) by (simp add: page_format_def Let_def)
    qed
  qed
qed


text \<open>The reference for decryption of the page \<open>inp\<close> into the buffer \<open>out\<close>.\<close>

definition decrypt_spec ::
    "world \<Rightarrow> codec_ctx \<Rightarrow> provider \<Rightarrow> bytes \<Rightarrow> bytes \<Rightarrow> u32 \<Rightarrow> nat \<Rightarrow> nat \<Rightarrow> nat \<Rightarrow> nat \<Rightarrow> bytes \<Rightarrow> bytes \<Rightarrow> rc \<times> bytes" where
  "decrypt_spec w ctx p k hk pgno S Z I H inp out =
     (let zero = replicate (S + Z) 0 @ drop (S + Z) out;
          iv = slice inp S I;
          mac = mac_of w ctx p hk pgno (take (S + I) inp);
          dec = pv_cipher p SQLCIPHER_DECRYPT (plain_key w ctx k) iv (take S inp);
          hm = SQLCIPHER_FLAG_GET (flags ctx) CIPHER_FLAG_HMAC
      in if hm \<and> fst mac \<noteq> SQLITE_OK then (SQLITE_ERROR, zero)
         else if hm \<and> snd mac \<noteq> slice inp (S + I) H then
           (if bt_autoVacuum (pBt ctx) \<noteq> 0 \<and> take (S + Z) inp = replicate (S + Z) 0 then SQLITE_OK else SQLITE_ERROR, zero)
         else if fst dec \<noteq> SQLITE_OK then (SQLITE_ERROR, zero)
         else (SQLITE_OK, snd dec @ iv @ (if hm then snd mac @ drop (S + I + H) out else drop (S + I) out)))"

lemma page_check_hmac_eq:
  assumes "page_params ctx c psz p S Z I H k hk" "S + Z \<le> length inp" "S + Z \<le> length out" "I + H \<le> Z"
  shows "page_check_hmac ctx c pgno psz inp out w =
    (let mac = mac_of w ctx p hk pgno (take (S + I) inp); zero = replicate (S + Z) 0 @ drop (S + Z) out
     in if fst mac \<noteq> SQLITE_OK then Some (Inl (SQLITE_ERROR, zero))
        else if snd mac \<noteq> slice inp (S + I) H then
          Some (Inl (if bt_autoVacuum (pBt ctx) \<noteq> 0 \<and> take (S + Z) inp = replicate (S + Z) 0 then SQLITE_OK else SQLITE_ERROR, zero))
        else Some (Inr (memcpy_at out (S + I) (snd mac))))"
proof -
  obtain mrc mac where m: "mac_of w ctx p hk pgno (take (S + I) inp) = (mrc, mac)" by (cases "mac_of w ctx p hk pgno (take (S + I) inp)")
  have ok: "provider_ok p" using assms(1) by (simp add: page_params_def)
  have lm: "length mac = H" using provider_lengths(2) [OF ok] m assms(1) by (metis mac_of_def nat_int page_params_def snd_conv)
  have hm: "sqlcipher_page_hmac w ctx c pgno inp (psz - reserve_sz ctx + iv_sz ctx) = Some (mrc, mac)"
    using page_hmac_eq [OF assms(1,2)] m assms(4) by simp
  let ?o = "memcpy_at out (S + I) mac"
  have z: "sqlcipher_memset ?o 0 (S + Z) = replicate (S + Z) 0 @ drop (S + Z) out"
    using lm assms(3,4) by (subst sqlcipher_memset_eq) (simp_all add: memcpy_at_def add.commute [of Z S])
  have cmp: "sqlcipher_memcmp (drop (S + I) inp) (drop (S + I) ?o) H = 0 \<longleftrightarrow> mac = slice inp (S + I) H"
    using lm assms(2-4) by (subst sqlcipher_memcmp_eq_0_iff) (auto simp: slice_def memcpy_at_def)
  have ism: "sqlcipher_ismemset inp 0 (S + Z) = 0 \<longleftrightarrow> take (S + Z) inp = replicate (S + Z) 0"
    using assms(2) by (subst sqlcipher_ismemset_eq_0_iff) auto
  have g: "nat (psz - reserve_sz ctx + iv_sz ctx) = S + I" "nat psz = S + Z" "nat (hmac_sz ctx) = H"
    using assms(1) by (auto simp: page_params_def)
  show ?thesis
    by (simp add: page_check_hmac_def hm m g z cmp ism Let_def)
qed


lemma decrypt_page:
  assumes "page_params ctx c psz p S Z I H k hk" "(if for_ctx \<noteq> 0 then write_ctx ctx else read_ctx ctx) = Some c"
    "S + Z \<le> length inp" "S + Z \<le> length out" "\<not> (pgno = 1 \<and> S = 0)"
  shows "sqlcipher_page_cipher ctx for_ctx pgno SQLCIPHER_DECRYPT psz inp out w =
     (let (rc, out') = decrypt_spec w ctx p k hk pgno S Z I H inp out in Some (rc, out', w))"
proof -
  have ok: "provider_ok p" using assms(1) by (simp add: page_params_def)
  have IZ: "I \<le> Z" using assms(1) by (auto simp: page_params_def split: if_splits)
  let ?iv = "slice inp S I"
  let ?o1 = "memcpy_at out S ?iv"
  let ?hm = "SQLCIPHER_FLAG_GET (flags ctx) CIPHER_FLAG_HMAC"
  obtain crc pt where dec: "pv_cipher p SQLCIPHER_DECRYPT (plain_key w ctx k) ?iv (take S inp) = (crc, pt)"
    by (cases "pv_cipher p SQLCIPHER_DECRYPT (plain_key w ctx k) ?iv (take S inp)")
  obtain mrc mac where m: "mac_of w ctx p hk pgno (take (S + I) inp) = (mrc, mac)" by (cases "mac_of w ctx p hk pgno (take (S + I) inp)")
  have lm: "length mac = H" using provider_lengths(2) [OF ok] m assms(1) by (metis mac_of_def nat_int page_params_def snd_conv)
  have li: "length ?iv = I" using assms(3) IZ by simp
  have lp: "length pt = S" using provider_lengths(4) [OF ok, of SQLCIPHER_DECRYPT "plain_key w ctx k" ?iv "take S inp"] dec assms(3) by simp
  have o1: "?o1 = take S out @ ?iv @ drop (S + I) out" using li assms(4) IZ by (simp add: memcpy_at_def)
  let ?zero = "replicate (S + Z) 0 @ drop (S + Z) out"
  have run: "page_run_cipher ctx c SQLCIPHER_DECRYPT psz inp x w = Some (crc, memcpy_at x 0 pt)" if "slice x S I = ?iv" for x
    using that dec by (intro page_run_cipher_eq [OF assms(1)]) simp
  have err: "page_error psz x w = Some (SQLITE_ERROR, ?zero, w)"
    if "length x = length out" "drop (S + Z) x = drop (S + Z) out" for x
    using that assms(1,4) by (subst page_error_zero [of _ "S + Z"]) (simp_all add: page_params_def)
  note g = page_guards [OF assms(1,3-5)]
  have start: "sqlcipher_page_cipher ctx for_ctx pgno SQLCIPHER_DECRYPT psz inp out w =
      do { r \<leftarrow> (if ?hm then page_check_hmac ctx c pgno psz inp ?o1 w else Some (Inr ?o1));
        case r of
          Inl (rc, out) \<Rightarrow> Some (rc, out, w)
        | Inr out \<Rightarrow> do {
            (rc, out) \<leftarrow> page_run_cipher ctx c SQLCIPHER_DECRYPT psz inp out w;
            if rc \<noteq> SQLITE_OK then page_error psz out w else Some (SQLITE_OK, out, w) } }"
    using assms(2,5) g by (cases "pgno = 1") (simp_all add: sqlcipher_page_cipher_def Let_def SQLCIPHER_ENCRYPT_def SQLCIPHER_DECRYPT_def)
  show ?thesis
  proof (cases ?hm)
    case False
    have "memcpy_at ?o1 0 pt = pt @ ?iv @ drop (S + I) out" unfolding o1 using lp li assms(4) by (simp add: memcpy_at_def)
    moreover have "page_error psz (pt @ ?iv @ drop (S + I) out) w = Some (SQLITE_ERROR, ?zero, w)"
      using lp li assms(4) IZ by (intro err) (simp_all add: add.commute [of Z S])
    moreover have "slice ?o1 S I = ?iv" unfolding o1 using assms(4) li by (simp add: slice_def)
    ultimately show ?thesis using start False run [of ?o1] dec by (simp add: decrypt_spec_def Let_def)
  next
    case True
    then have IH: "I + H \<le> Z" using assms(1) by (simp add: page_params_def)
    have lo: "S + Z \<le> length ?o1" using assms(4) li IZ unfolding o1 by simp
    have dz: "drop (S + Z) ?o1 = drop (S + Z) out" unfolding o1 using li assms(4) IZ by (simp add: add.commute [of Z S])
    have chk: "page_check_hmac ctx c pgno psz inp ?o1 w =
      (if mrc \<noteq> SQLITE_OK then Some (Inl (SQLITE_ERROR, ?zero))
       else if mac \<noteq> slice inp (S + I) H then
         Some (Inl (if bt_autoVacuum (pBt ctx) \<noteq> 0 \<and> take (S + Z) inp = replicate (S + Z) 0 then SQLITE_OK else SQLITE_ERROR, ?zero))
       else Some (Inr (memcpy_at ?o1 (S + I) mac)))"
      unfolding page_check_hmac_eq [OF assms(1,3) lo IH] m by (simp add: Let_def dz)
    let ?o2 = "take S out @ ?iv @ mac @ drop (S + I + H) out"
    have o2: "memcpy_at ?o1 (S + I) mac = ?o2" unfolding o1 using li lm assms(4) by (simp add: memcpy_at_def ac_simps)
    have o3: "memcpy_at ?o2 0 pt = pt @ ?iv @ mac @ drop (S + I + H) out" using lp assms(4) by (simp add: memcpy_at_def)
    have "page_error psz (pt @ ?iv @ mac @ drop (S + I + H) out) w = Some (SQLITE_ERROR, ?zero, w)"
      using lp li lm assms(4) IH by (intro err) (simp_all add: add.commute [of Z S])
    moreover have "slice ?o2 S I = ?iv" using assms(4) li by (simp add: slice_def)
    ultimately show ?thesis using start True chk run [of ?o2] dec m unfolding o2 o3
      by (cases "mac = slice inp (S + I) H") (simp_all add: decrypt_spec_def Let_def)
  qed
qed


section \<open>Well-formed contexts\<close>

definition ctx_of :: "codec_ctx \<Rightarrow> int \<Rightarrow> cipher_ctx option" where
  "ctx_of ctx for_ctx = (if for_ctx \<noteq> 0 then write_ctx ctx else read_ctx ctx)"

definition page_args :: "codec_ctx \<Rightarrow> u32 \<Rightarrow> int \<Rightarrow> bytes \<Rightarrow> bytes \<Rightarrow> bool" where
  "page_args ctx pgno psz inp out \<longleftrightarrow> reserve_sz ctx \<le> psz \<and> psz \<le> int (length inp) \<and> psz \<le> int (length out)
     \<and> \<not> (pgno = 1 \<and> psz = reserve_sz ctx)"

lemma reserve_for_bounds:
  assumes "provider_ok p"
  shows "pv_get_iv_sz p \<le> reserve_for p fl a"
    "SQLCIPHER_FLAG_GET fl CIPHER_FLAG_HMAC \<Longrightarrow> pv_get_iv_sz p + pv_get_hmac_sz p a \<le> reserve_for p fl a"
proof -
  have nn: "0 \<le> pv_get_hmac_sz p a" "0 < pv_get_iv_sz p" "0 < pv_get_block_sz p" using assms by (auto simp: provider_ok_def)
  show "pv_get_iv_sz p \<le> reserve_for p fl a"
    using round_up_block [of "pv_get_iv_sz p + pv_get_hmac_sz p a" "pv_get_block_sz p"]
      round_up_block [of "pv_get_iv_sz p" "pv_get_block_sz p"] nn by (auto simp: reserve_for_def Let_def)
  show "SQLCIPHER_FLAG_GET fl CIPHER_FLAG_HMAC \<Longrightarrow> pv_get_iv_sz p + pv_get_hmac_sz p a \<le> reserve_for p fl a"
    using round_up_block [of "pv_get_iv_sz p + pv_get_hmac_sz p a" "pv_get_block_sz p"] nn by (auto simp: reserve_for_def Let_def)
qed

lemma codec_wf_ctx_of: "codec_wf ctx \<Longrightarrow> \<exists>c. ctx_of ctx f = Some c \<and> cipher_wf (key_sz ctx) c"
  by (auto simp: wf_defs ctx_of_def)

lemma codec_wf_params:
  assumes "codec_wf ctx" "ctx_of ctx f = Some c" "page_args ctx pgno psz inp out"
  obtains p S Z I H k hk where "page_params ctx c psz p S Z I H k hk" "S + Z \<le> length inp" "S + Z \<le> length out"
    "\<not> (pgno = 1 \<and> S = 0)" "(if f \<noteq> 0 then write_ctx ctx else read_ctx ctx) = Some c"
proof -
  obtain p where p: "x_provider ctx = Some p" "provider_ok p" "key_sz ctx = pv_get_key_sz p" "iv_sz ctx = pv_get_iv_sz p"
    "hmac_sz ctx = pv_get_hmac_sz p (hmac_algorithm ctx)" "reserve_sz ctx = reserve_for p (flags ctx) (hmac_algorithm ctx)"
    using assms(1) by (auto simp: wf_defs)
  have nn: "0 < key_sz ctx" "0 < iv_sz ctx" "0 \<le> hmac_sz ctx" using p by (auto simp: provider_ok_def)
  have r: "iv_sz ctx \<le> reserve_sz ctx"
    "SQLCIPHER_FLAG_GET (flags ctx) CIPHER_FLAG_HMAC \<Longrightarrow> iv_sz ctx + hmac_sz ctx \<le> reserve_sz ctx"
    using reserve_for_bounds [OF p(2), of "flags ctx" "hmac_algorithm ctx"] p by simp_all
  obtain k hk where k: "contents (key c) = Some k" "contents (hmac_key c) = Some hk"
    using codec_wf_ctx_of [OF assms(1), of f] assms(2) by (auto simp: cipher_wf_def buf_ok_def)
  let ?S = "nat (psz - reserve_sz ctx)" and ?Z = "nat (reserve_sz ctx)" and ?I = "nat (iv_sz ctx)" and ?H = "nat (hmac_sz ctx)"
  have "page_params ctx c psz p ?S ?Z ?I ?H k hk"
    using p k nn r assms(3) by (auto simp: page_params_def page_args_def nat_le_iff)
  moreover have "?S + ?Z \<le> length inp" "?S + ?Z \<le> length out" "\<not> (pgno = 1 \<and> ?S = 0)"
    using assms(3) r(1) nn by (auto simp: page_args_def)
  ultimately show ?thesis using that assms(2) by (auto simp: ctx_of_def)
qed

lemma decrypt_spec_cases:
  "decrypt_spec w ctx p k hk pgno S Z I H inp out = (rc, out') \<Longrightarrow>
    rc = SQLITE_OK \<or> rc = SQLITE_ERROR \<and> out' = replicate (S + Z) 0 @ drop (S + Z) out"
  by (auto simp: decrypt_spec_def Let_def split: if_splits)

lemma page_cipher_total:
  assumes "codec_wf ctx" "page_args ctx pgno psz inp out" "mode = SQLCIPHER_ENCRYPT \<or> mode = SQLCIPHER_DECRYPT"
  shows "\<exists>rc out' w'. sqlcipher_page_cipher ctx f pgno mode psz inp out w = Some (rc, out', w')
    \<and> (rc = SQLITE_OK \<or> rc = SQLITE_ERROR \<and> out' = replicate (nat psz) 0 @ drop (nat psz) out)"
proof -
  obtain c where c: "ctx_of ctx f = Some c" using codec_wf_ctx_of [OF assms(1)] by blast
  obtain p S Z I H k hk where g: "page_params ctx c psz p S Z I H k hk" "S + Z \<le> length inp" "S + Z \<le> length out"
    "\<not> (pgno = 1 \<and> S = 0)" "(if f \<noteq> 0 then write_ctx ctx else read_ctx ctx) = Some c"
    using codec_wf_params [OF assms(1) c assms(2)] by blast
  have n: "nat psz = S + Z" using g(1) by (auto simp: page_params_def)
  from assms(3) show ?thesis
  proof
    assume m: "mode = SQLCIPHER_DECRYPT"
    obtain rc out' where d: "decrypt_spec w ctx p k hk pgno S Z I H inp out = (rc, out')"
      by (cases "decrypt_spec w ctx p k hk pgno S Z I H inp out")
    then show ?thesis using decrypt_page [OF g(1,5,2-4), of w] decrypt_spec_cases [OF d] m n by auto
  next
    assume m: "mode = SQLCIPHER_ENCRYPT"
    obtain rrc rnd where r: "pv_random p (w_calls w) Z = (rrc, rnd)" by (cases "pv_random p (w_calls w) Z")
    obtain crc ct where e: "pv_cipher p SQLCIPHER_ENCRYPT (plain_key w ctx k) (take I rnd) (take S inp) = (crc, ct)"
      by (cases "pv_cipher p SQLCIPHER_ENCRYPT (plain_key w ctx k) (take I rnd) (take S inp)")
    show ?thesis
    proof (cases "rrc = SQLITE_OK")
      case True
      then show ?thesis using encrypt_page [OF g(1,5,2-4) _ e] r m n by auto
    next
      case False
      then have "fst (pv_random p (w_calls w) Z) \<noteq> SQLITE_OK" using r by simp
      from encrypt_fail_random [OF g(1) refl g(5,2-4) this] show ?thesis using m n by auto
    qed
  qed
qed


lemma decrypt_encrypt:
  assumes "codec_wf ctx" "page_args ctx pgno psz plain out" "page_args ctx pgno psz plain out2"
    and "ctx_of ctx f = Some c" "ctx_of ctx g = Some d"
    and "contents (key c) = contents (key d)" "contents (hmac_key c) = contents (hmac_key d)"
    and "sqlcipher_page_cipher ctx f pgno SQLCIPHER_ENCRYPT psz plain out w = Some (SQLITE_OK, page, w')"
    and "shield_mask v = shield_mask w"
  shows "\<exists>res. sqlcipher_page_cipher ctx g pgno SQLCIPHER_DECRYPT psz page out2 v = Some (SQLITE_OK, res, v)
    \<and> take (nat (psz - reserve_sz ctx)) res = take (nat (psz - reserve_sz ctx)) plain"
proof -
  obtain p S Z I H k hk where e: "page_params ctx c psz p S Z I H k hk" "S + Z \<le> length plain" "S + Z \<le> length out"
    "\<not> (pgno = 1 \<and> S = 0)" "(if f \<noteq> 0 then write_ctx ctx else read_ctx ctx) = Some c"
    using codec_wf_params [OF assms(1,4,2)] by blast
  have d: "page_params ctx d psz p S Z I H k hk" using e(1) assms(6,7) by (simp add: page_params_def)
  have gd: "(if g \<noteq> 0 then write_ctx ctx else read_ctx ctx) = Some d" using assms(5) by (simp add: ctx_of_def)
  have ok: "provider_ok p" using e(1) by (simp add: page_params_def)
  have IZ: "I \<le> Z" using e(1) by (auto simp: page_params_def split: if_splits)
  have n: "nat (psz - reserve_sz ctx) = S" "nat psz = S + Z" "nat (iv_sz ctx + hmac_sz ctx) = I + H" using e(1) by (auto simp: page_params_def)
  have l2: "S + Z \<le> length out2" using assms(3) n(2) e(1) by (auto simp: page_args_def page_params_def)
  obtain rrc rnd where r: "pv_random p (w_calls w) Z = (rrc, rnd)" by (cases "pv_random p (w_calls w) Z")
  have rok: "rrc = SQLITE_OK" using encrypt_fail_random [OF e(1) refl e(5,2-4), of w] r assms(8) by auto
  obtain crc ct where x: "pv_cipher p SQLCIPHER_ENCRYPT (plain_key w ctx k) (take I rnd) (take S plain) = (crc, ct)"
    by (cases "pv_cipher p SQLCIPHER_ENCRYPT (plain_key w ctx k) (take I rnd) (take S plain)")
  let ?hm = "SQLCIPHER_FLAG_GET (flags ctx) CIPHER_FLAG_HMAC" and ?m = "mac_of w ctx p hk pgno (ct @ take I rnd)"
  have c: "crc = SQLITE_OK" "?hm \<Longrightarrow> fst ?m = SQLITE_OK" "page = page_format w ctx p hk pgno I ct rnd @ drop (S + Z) out"
    using encrypt_page [OF e(1,5,2-4) _ x] r rok assms(8) by (auto split: if_splits)
  have lr: "length rnd = Z" using provider_lengths(1) [OF ok, of "w_calls w" Z] r by simp
  have lc: "length ct = S" using provider_lengths(4) [OF ok, of SQLCIPHER_ENCRYPT "plain_key w ctx k" "take I rnd" "take S plain"] x e(2) by simp
  have lm: "length (snd ?m) = H" using provider_lengths(2) [OF ok] e(1) by (simp add: mac_of_def page_params_def)
  have same: "plain_key v ctx y = plain_key w ctx y" "mac_of v ctx p hk pgno y = mac_of w ctx p hk pgno y" for y
    using assms(9) by (simp_all add: plain_key_def mac_of_def)
  have pg: "S + Z \<le> length page" "take S page = ct" "slice page S I = take I rnd" "take (S + I) page = ct @ take I rnd"
    using c(3) lr lc lm IZ e(1,3) n(3) by (auto simp: page_format_def page_params_def slice_def Let_def)
  have st: "slice page (S + I) H = snd ?m" if ?hm
    using that c(3) lr lc lm IZ e(1) by (auto simp: page_format_def page_params_def slice_def Let_def)
  have "pv_cipher p SQLCIPHER_DECRYPT (plain_key w ctx k) (take I rnd) ct = (SQLITE_OK, take S plain)"
    using ok x c(1) by (simp add: provider_ok_def)
  then have "decrypt_spec v ctx p k hk pgno S Z I H page out2 =
      (SQLITE_OK, take S plain @ take I rnd @ (if ?hm then snd ?m @ drop (S + I + H) out2 else drop (S + I) out2))"
    using pg st c(2) by (cases ?hm) (simp_all add: decrypt_spec_def Let_def same)
  then show ?thesis using decrypt_page [OF d gd pg(1) l2 e(4), of v] n(1) e(2) by simp
qed

section \<open>Properties\<close>

text \<open>
  C13: On a well-formed context and buffers of at least a page, encryption and decryption of a
  page return \<open>SQLITE_OK\<close> or \<open>SQLITE_ERROR\<close>, and after an error the whole output page is
  zero: no partial plaintext or ciphertext reaches the caller.
\<close>

theorem page_cipher_error_wipes:
  assumes "codec_wf ctx" "page_args ctx pgno psz inp out" "mode = SQLCIPHER_ENCRYPT \<or> mode = SQLCIPHER_DECRYPT"
  shows "\<exists>rc out' w'. sqlcipher_page_cipher ctx f pgno mode psz inp out w = Some (rc, out', w')
    \<and> (rc = SQLITE_OK \<or> rc = SQLITE_ERROR \<and> out' = replicate (nat psz) 0 @ drop (nat psz) out)"
  using assms by (rule page_cipher_total)

text \<open>
  C7: A page that was encrypted decrypts, with a context that holds the same keys, to the
  bytes it was made from.
\<close>

theorem page_roundtrip:
  assumes "codec_wf ctx" "page_args ctx pgno psz plain out" "page_args ctx pgno psz plain out2"
    and "ctx_of ctx f = Some c" "ctx_of ctx g = Some d"
    and "contents (key c) = contents (key d)" "contents (hmac_key c) = contents (hmac_key d)"
    and "sqlcipher_page_cipher ctx f pgno SQLCIPHER_ENCRYPT psz plain out w = Some (SQLITE_OK, page, w')"
    and "shield_mask v = shield_mask w"
  shows "\<exists>res. sqlcipher_page_cipher ctx g pgno SQLCIPHER_DECRYPT psz page out2 v = Some (SQLITE_OK, res, v)
    \<and> take (nat (psz - reserve_sz ctx)) res = take (nat (psz - reserve_sz ctx)) plain"
  using assms by (rule decrypt_encrypt)


lemma pgno_raw_inj: "pgno_raw fl a = pgno_raw fl b \<longleftrightarrow> a = b"
  by (simp add: pgno_raw_def put4byte_le_inj sqlite3Put4byte_inj)

lemma length_pgno_raw [simp]: "length (pgno_raw fl a) = 4"
  by (simp add: pgno_raw_def)


section \<open>Instances\<close>

definition demo_mac_provider :: provider where
  "demo_mac_provider = demo_provider\<lparr>pv_hmac := (\<lambda>a k x y. (0, take 4 (y @ replicate 4 0)))\<rparr>"

definition demo_mac_codec :: codec_ctx where
  "demo_mac_codec = demo_codec\<lparr>x_provider := Some demo_mac_provider\<rparr>"

lemma demo_mac_provider_ok: "provider_ok demo_mac_provider"
  using demo_provider_ok by (auto simp: provider_ok_def demo_mac_provider_def) (simp add: demo_provider_def)

lemma demo_mac_codec_wf: "codec_wf demo_mac_codec"
proof -
  have "reserve_for demo_mac_provider fl a = reserve_for demo_provider fl a" for fl a
    by (simp add: reserve_for_def demo_mac_provider_def Let_def)
  then show ?thesis using demo_codec_wf demo_mac_provider_ok
    by (auto simp: wf_defs demo_mac_codec_def demo_codec_def) (simp_all add: demo_mac_provider_def)
qed

definition demo_page :: bytes where
  "demo_page = [1, 2, 3, 4, 5, 6, 7, 8, 9, 10]"

lemma demo_page_args: "page_args demo_codec 2 10 demo_page (replicate 10 0)" "page_args demo_mac_codec n 10 demo_page (replicate 10 0)"
  by (simp_all add: page_args_def demo_codec_def demo_mac_codec_def demo_page_def)

definition fst_two :: "(rc \<times> bytes \<times> world) option \<Rightarrow> (rc \<times> bytes) option" where
  "fst_two r = map_option (\<lambda>(rc, pg, _). (rc, pg)) r"

lemma replicate_numeral: "replicate (numeral v) x = x # replicate (pred_numeral v) x"
  by (simp add: numeral_eq_Suc)

lemma demo_params:
  "page_params demo_codec (demo_cipher a) 10 demo_provider 4 6 2 4 [0, 0] [0, 0]"
  "page_params demo_mac_codec (demo_cipher a) 10 demo_mac_provider 4 6 2 4 [0, 0] [0, 0]"
  using demo_provider_ok demo_mac_provider_ok
  by (simp_all add: page_params_def demo_codec_def demo_mac_codec_def demo_cipher_def demo_provider_def demo_mac_provider_def)

lemma demo_hmac: "SQLCIPHER_FLAG_GET (flags demo_codec) CIPHER_FLAG_HMAC" "flags demo_mac_codec = flags demo_codec"
  by (simp_all add: demo_mac_codec_def demo_codec_def DEFAULT_CIPHER_FLAGS_def bit_or_iff flag_simps)

lemma demo_key: "plain_key demo_world demo_codec [0, 0] = [0x5C, 0x36]" "plain_key demo_world demo_mac_codec [0, 0] = [0x5C, 0x36]"
  by (simp_all add: plain_key_def demo_world_def demo_codec_def demo_mac_codec_def sqlcipher_shield_def upt_rec)

lemma demo_pgno: "pgno_raw (flags demo_codec) n = sqlcipher_put4byte_le n"
  by (simp add: demo_codec_def DEFAULT_CIPHER_FLAGS_def pgno_raw_def bit_or_iff flag_simps)

lemma demo_encrypt: "fst_two (sqlcipher_page_cipher demo_codec 1 2 SQLCIPHER_ENCRYPT 10 demo_page (replicate 10 0) demo_world)
    = Some (0, [171, 168, 169, 174, 0, 0, 108, 108, 108, 108])"
proof -
  have m: "mac_of demo_world demo_codec demo_provider [0, 0] 2 ([171, 168, 169, 174] @ [0, 0]) = (SQLITE_OK, [108, 108, 108, 108])"
    by (simp add: mac_of_def demo_key demo_pgno) (simp add: demo_provider_def sqlcipher_put4byte_le_def replicate_numeral)
  have r: "pv_random demo_provider (w_calls demo_world) 6 = (SQLITE_OK, replicate 6 0)"
    by (simp add: demo_provider_def demo_world_def)
  have x: "pv_cipher demo_provider SQLCIPHER_ENCRYPT (plain_key demo_world demo_codec [0, 0]) (take 2 (replicate 6 0)) (take 4 demo_page)
      = (SQLITE_OK, [171, 168, 169, 174])" by (simp add: demo_provider_def demo_page_def)
  have c: "(if (1::int) \<noteq> 0 then write_ctx demo_codec else read_ctx demo_codec) = Some (demo_cipher 8192)" by (simp add: demo_codec_def)
  show ?thesis
    using encrypt_page [OF demo_params(1) c _ _ _ r x, of "replicate 10 0" 2] m
    by (simp add: fst_two_def page_format_def demo_hmac demo_page_def replicate_numeral Let_def) (simp add: demo_codec_def)
qed

lemma demo_decrypt: "fst_two (sqlcipher_page_cipher demo_codec 0 2 SQLCIPHER_DECRYPT 10
     [171, 168, 169, 174, 0, 0, 108, 108, 108, 108] (replicate 10 0) demo_world)
    = Some (0, [1, 2, 3, 4, 0, 0, 108, 108, 108, 108])"
proof -
  have m: "mac_of demo_world demo_codec demo_provider [0, 0] 2 [171, 168, 169, 174, 0, 0] = (SQLITE_OK, [108, 108, 108, 108])"
    by (simp add: mac_of_def demo_key demo_pgno) (simp add: demo_provider_def sqlcipher_put4byte_le_def replicate_numeral)
  have x: "pv_cipher demo_provider SQLCIPHER_DECRYPT (plain_key demo_world demo_codec [0, 0]) [0, 0] [171, 168, 169, 174]
      = (SQLITE_OK, [1, 2, 3, 4])" by (simp add: demo_provider_def)
  have c: "(if (0::int) \<noteq> 0 then write_ctx demo_codec else read_ctx demo_codec) = Some (demo_cipher 4096)" by (simp add: demo_codec_def)
  show ?thesis
    using decrypt_page [OF demo_params(1) c, of "[171, 168, 169, 174, 0, 0, 108, 108, 108, 108]" "replicate 10 0" 2 demo_world]
    by (simp add: fst_two_def decrypt_spec_def demo_hmac m x slice_def Let_def)
qed

lemma demo_mac_encrypt: "fst_two (sqlcipher_page_cipher demo_mac_codec 1 2 SQLCIPHER_ENCRYPT 10 demo_page (replicate 10 0) demo_world)
    = Some (0, [171, 168, 169, 174, 0, 0, 2, 0, 0, 0])"
proof -
  have m: "mac_of demo_world demo_mac_codec demo_mac_provider [0, 0] 2 ([171, 168, 169, 174] @ [0, 0]) = (SQLITE_OK, [2, 0, 0, 0])"
    by (simp add: mac_of_def demo_hmac demo_pgno) (simp add: demo_mac_provider_def sqlcipher_put4byte_le_def)
  have r: "pv_random demo_mac_provider (w_calls demo_world) 6 = (SQLITE_OK, replicate 6 0)"
    by (simp add: demo_provider_def demo_mac_provider_def demo_world_def)
  have x: "pv_cipher demo_mac_provider SQLCIPHER_ENCRYPT (plain_key demo_world demo_mac_codec [0, 0]) (take 2 (replicate 6 0)) (take 4 demo_page)
      = (SQLITE_OK, [171, 168, 169, 174])" by (simp add: demo_provider_def demo_mac_provider_def demo_page_def)
  have c: "(if (1::int) \<noteq> 0 then write_ctx demo_mac_codec else read_ctx demo_mac_codec) = Some (demo_cipher 8192)"
    by (simp add: demo_codec_def demo_mac_codec_def)
  show ?thesis
    using encrypt_page [OF demo_params(2) c _ _ _ r x, of "replicate 10 0" 2] m
    by (simp add: fst_two_def page_format_def demo_hmac demo_page_def replicate_numeral Let_def) (simp add: demo_mac_codec_def demo_codec_def)
qed

lemma fst_twoD: "fst_two r = Some (rc, pg) \<Longrightarrow> \<exists>w. r = Some (rc, pg, w)"
  by (auto simp: fst_two_def)

theorem page_cipher_error_wipes_witness:
  "\<exists>rc out' w'. sqlcipher_page_cipher demo_codec 0 2 SQLCIPHER_DECRYPT 10 demo_page (replicate 10 0) demo_world = Some (rc, out', w')
    \<and> (rc = SQLITE_OK \<or> rc = SQLITE_ERROR \<and> out' = replicate 10 0)"
  using page_cipher_error_wipes [OF demo_codec_wf demo_page_args(1), of SQLCIPHER_DECRYPT 0 demo_world] by simp

theorem page_roundtrip_witness:
  "\<exists>page w' res. sqlcipher_page_cipher demo_codec 1 2 SQLCIPHER_ENCRYPT 10 demo_page (replicate 10 0) demo_world = Some (SQLITE_OK, page, w')
     \<and> sqlcipher_page_cipher demo_codec 0 2 SQLCIPHER_DECRYPT 10 page (replicate 10 0) demo_world = Some (SQLITE_OK, res, demo_world)
     \<and> take 4 res = [1, 2, 3, 4]"
proof -
  obtain w' where e: "sqlcipher_page_cipher demo_codec 1 2 SQLCIPHER_ENCRYPT 10 demo_page (replicate 10 0) demo_world
      = Some (SQLITE_OK, [171, 168, 169, 174, 0, 0, 108, 108, 108, 108], w')"
    using fst_twoD [OF demo_encrypt] by blast
  have c: "ctx_of demo_codec 1 = Some (demo_cipher 8192)" "ctx_of demo_codec 0 = Some (demo_cipher 4096)"
    by (simp_all add: ctx_of_def demo_codec_def)
  have k: "contents (key (demo_cipher 8192)) = contents (key (demo_cipher 4096))"
    "contents (hmac_key (demo_cipher 8192)) = contents (hmac_key (demo_cipher 4096))" by (simp_all add: demo_cipher_def)
  have "reserve_sz demo_codec = 6" by (simp add: demo_codec_def)
  then show ?thesis
    using page_roundtrip [OF demo_codec_wf demo_page_args(1) demo_page_args(1) c k e refl] e by (auto simp: demo_page_def)
qed



end
