(* ===== verification/SC_Strings.thy ===== *)
theory SC_Strings
  imports SC_Prelude
begin

unbundle bit_operations_syntax

text \<open>
  The string helpers of src/src/util.c and src/src/pragma.c that the codec's pragmas and key
  handling use: case-insensitive comparison, 32-bit integers and booleans from text.

  A zero-terminated string is the list of its bytes without the terminator; reading past the
  end reads the terminator. \<open>str\<close> is a string literal.
\<close>

section \<open>Definitions\<close>

definition str :: "string \<Rightarrow> bytes" where
  "str s = map of_char s"

definition hd0 :: "bytes \<Rightarrow> byte" where
  "hd0 z = (case z of [] \<Rightarrow> 0 | c # _ \<Rightarrow> c)"

definition cstr :: "bytes \<Rightarrow> bool" where
  "cstr z \<longleftrightarrow> 0 \<notin> set z"

definition sqlite3UpperToLower :: "byte \<Rightarrow> byte" where
  "sqlite3UpperToLower c = (if 65 \<le> c \<and> c \<le> 90 then c + 32 else c)"

definition sqlite3Isdigit :: "byte \<Rightarrow> bool" where
  "sqlite3Isdigit c \<longleftrightarrow> 48 \<le> c \<and> c \<le> 57"

definition sqlite3Isxdigit :: "byte \<Rightarrow> bool" where
  "sqlite3Isxdigit c \<longleftrightarrow> 48 \<le> c \<and> c \<le> 57 \<or> 65 \<le> c \<and> c \<le> 70 \<or> 97 \<le> c \<and> c \<le> 102"

definition sqlite3Strlen30 :: "bytes option \<Rightarrow> int" where
  "sqlite3Strlen30 z = (case z of None \<Rightarrow> 0 | Some z \<Rightarrow> int (length z mod 2 ^ 30))"

fun sqlite3StrICmp :: "bytes \<Rightarrow> bytes \<Rightarrow> int" where
  "sqlite3StrICmp [] b = (if hd0 b = 0 then 0 else 0 - uint (sqlite3UpperToLower (hd0 b)))"
| "sqlite3StrICmp (c # a) [] = (if c = 0 then 0 else uint (sqlite3UpperToLower c))"
| "sqlite3StrICmp (c # a) (x # b) =
     (if c = x then (if c = 0 then 0 else sqlite3StrICmp a b)
      else let d = uint (sqlite3UpperToLower c) - uint (sqlite3UpperToLower x)
           in if d \<noteq> 0 then d else sqlite3StrICmp a b)"

definition sqlite3_stricmp :: "bytes option \<Rightarrow> bytes option \<Rightarrow> int" where
  "sqlite3_stricmp zLeft zRight =
     (case (zLeft, zRight) of
        (None, None) \<Rightarrow> 0
      | (None, Some _) \<Rightarrow> - 1
      | (Some _, None) \<Rightarrow> 1
      | (Some a, Some b) \<Rightarrow> sqlite3StrICmp a b)"

text \<open>The loop of \<open>sqlite3_strnicmp\<close> with \<open>n\<close> characters left.\<close>

fun strnicmp_loop :: "bytes \<Rightarrow> bytes \<Rightarrow> nat \<Rightarrow> int" where
  "strnicmp_loop a b 0 = 0"
| "strnicmp_loop a b (Suc n) =
     (if hd0 a \<noteq> 0 \<and> sqlite3UpperToLower (hd0 a) = sqlite3UpperToLower (hd0 b)
      then strnicmp_loop (tl a) (tl b) n
      else uint (sqlite3UpperToLower (hd0 a)) - uint (sqlite3UpperToLower (hd0 b)))"

definition sqlite3_strnicmp :: "bytes option \<Rightarrow> bytes option \<Rightarrow> int \<Rightarrow> int" where
  "sqlite3_strnicmp zLeft zRight N =
     (case (zLeft, zRight) of
        (None, None) \<Rightarrow> 0
      | (None, Some _) \<Rightarrow> - 1
      | (Some _, None) \<Rightarrow> 1
      | (Some a, Some b) \<Rightarrow> strnicmp_loop a b (nat N))"

definition sqlite3StrIHash :: "bytes option \<Rightarrow> byte" where
  "sqlite3StrIHash z = (case z of None \<Rightarrow> 0 | Some z \<Rightarrow> fold (\<lambda>c h. h + sqlite3UpperToLower c) z 0)"

definition sqlite3HexToInt :: "byte \<Rightarrow> byte" where
  "sqlite3HexToInt h = (h + 9 * (1 AND drop_bit 6 h)) AND 0xf"

definition hex_prefix :: "bytes \<Rightarrow> bool" where
  "hex_prefix z \<longleftrightarrow> hd0 z = 48 \<and> (hd0 (tl z) = 120 \<or> hd0 (tl z) = 88) \<and> sqlite3Isxdigit (hd0 (tl (tl z)))"

definition GetInt32_hex :: "bytes \<Rightarrow> int option" where
  "GetInt32_hex z =
     (let z = dropWhile (\<lambda>c. c = 48) (drop 2 z);
          ds = takeWhile sqlite3Isxdigit (take 8 z);
          u = foldl (\<lambda>u c. u * 16 + ucast (sqlite3HexToInt c)) (0 :: u32) ds
      in if u AND 0x80000000 = 0 \<and> \<not> sqlite3Isxdigit (hd0 (drop (length ds) z)) then Some (uint u) else None)"

definition GetInt32_dec :: "bool \<Rightarrow> bytes \<Rightarrow> int option" where
  "GetInt32_dec neg z =
     (if \<not> sqlite3Isdigit (hd0 z) then None
      else
        let ds = takeWhile sqlite3Isdigit (take 11 (dropWhile (\<lambda>c. c = 48) z));
            v = foldl (\<lambda>v c. v * 10 + (uint c - 48)) 0 ds
        in if length ds > 10 then None
           else if v - (if neg then 1 else 0) > 2147483647 then None
           else Some (if neg then - v else v))"

definition sqlite3GetInt32 :: "bytes \<Rightarrow> int option" where
  "sqlite3GetInt32 z =
     (if hd0 z = 45 then GetInt32_dec True (tl z)
      else if hd0 z = 43 then GetInt32_dec False (tl z)
      else if hex_prefix z then GetInt32_hex z
      else GetInt32_dec False z)"

definition sqlite3Atoi :: "bytes \<Rightarrow> int" where
  "sqlite3Atoi z = (case sqlite3GetInt32 z of None \<Rightarrow> 0 | Some v \<Rightarrow> v)"

text \<open>The table of \<open>getSafetyLevel\<close>: the words its offsets and lengths cut out, and their values.\<close>

definition safety_words :: "(bytes \<times> int) list" where
  "safety_words =
     (let zText = str ''onoffalseyestruextrafull''
      in map (\<lambda>(off, len, v). (slice zText off len, v))
           [(0, 2, 1), (1, 2, 0), (2, 3, 0), (4, 5, 0), (9, 3, 1), (12, 4, 1), (15, 5, 3), (20, 4, 2)])"

definition getSafetyLevel :: "bytes \<Rightarrow> bool \<Rightarrow> int \<Rightarrow> int" where
  "getSafetyLevel z omitFull dflt =
     (if sqlite3Isdigit (hd0 z) then (if sqlite3Atoi z \<noteq> 0 then 1 else 0)
      else let n = sqlite3Strlen30 (Some z)
           in case find (\<lambda>(t, v). int (length t) = n \<and> sqlite3_strnicmp (Some t) (Some z) n = 0 \<and> (\<not> omitFull \<or> v \<le> 1)) safety_words of
                None \<Rightarrow> dflt
              | Some (_, v) \<Rightarrow> v)"

definition sqlite3GetBoolean :: "bytes \<Rightarrow> int \<Rightarrow> int" where
  "sqlite3GetBoolean z dflt = (if getSafetyLevel z True dflt \<noteq> 0 then 1 else 0)"

section \<open>Comparison\<close>

lemma lower_eq_0 [simp]: "sqlite3UpperToLower c = 0 \<longleftrightarrow> c = 0"
proof -
  have "unat (c + 32) = unat c + 32" if "c \<le> 90"
    using that by (simp add: unat_word_ariths word_le_nat_alt)
  then have "c + 32 \<noteq> 0" if "c \<le> 90" using that by (metis add_is_0 unat_0 zero_neq_numeral)
  then show ?thesis by (auto simp: sqlite3UpperToLower_def)
qed

lemma lower_0 [simp]: "sqlite3UpperToLower 0 = 0"
  by (simp add: sqlite3UpperToLower_def)

lemma uint_diff_0: "uint (a :: byte) = uint b \<longleftrightarrow> a = b"
  by (simp add: word_uint_eq_iff)

lemma StrICmp_0_iff: "cstr a \<Longrightarrow> cstr b \<Longrightarrow>
    sqlite3StrICmp a b = 0 \<longleftrightarrow> map sqlite3UpperToLower a = map sqlite3UpperToLower b"
proof (induction a b rule: sqlite3StrICmp.induct)
  case (1 b)
  then show ?case by (cases b) (auto simp: hd0_def cstr_def uint_0_iff)
next
  case (2 c a)
  then show ?case by (simp add: cstr_def uint_0_iff)
next
  case (3 c a x b)
  then have "cstr a" "cstr b" "c \<noteq> 0" by (auto simp: cstr_def)
  then show ?case using 3 by (simp add: Let_def uint_diff_0)
qed

lemma strnicmp_loop_0_iff:
  "cstr a \<Longrightarrow> cstr b \<Longrightarrow> strnicmp_loop a b n = 0 \<longleftrightarrow>
     map sqlite3UpperToLower (take n a) = map sqlite3UpperToLower (take n b)"
proof (induction a b n rule: strnicmp_loop.induct)
  case (2 a b n)
  have z: "hd0 x = 0 \<longleftrightarrow> x = []" if "cstr x" for x using that by (cases x) (auto simp: hd0_def cstr_def)
  have t: "cstr (tl x)" if "cstr x" for x using that by (cases x) (auto simp: cstr_def)
  show ?case
  proof (cases "hd0 a \<noteq> 0 \<and> sqlite3UpperToLower (hd0 a) = sqlite3UpperToLower (hd0 b)")
    case True
    then obtain c a' x b' where "a = c # a'" "b = x # b'"
      using z [OF 2(2)] z [OF 2(3)] by (cases a; cases b) (auto simp: hd0_def)
    then show ?thesis using True 2 t [of a] t [of b] by (simp add: hd0_def)
  next
    case False
    have "strnicmp_loop a b (Suc n) = uint (sqlite3UpperToLower (hd0 a)) - uint (sqlite3UpperToLower (hd0 b))"
      by (subst strnicmp_loop.simps) (rule if_not_P [OF False])
    moreover have "hd0 a = 0 \<longleftrightarrow> a = []" "hd0 b = 0 \<longleftrightarrow> b = []" using z 2 by simp_all
    moreover have "map sqlite3UpperToLower (take (Suc n) a) = map sqlite3UpperToLower (take (Suc n) b) \<longrightarrow>
        sqlite3UpperToLower (hd0 a) = sqlite3UpperToLower (hd0 b)" by (cases a; cases b) (simp_all add: hd0_def)
    ultimately show ?thesis using False by (auto simp: uint_diff_0)
  qed
qed simp

text \<open>
  C22: Two strings compare equal exactly when they are equal after mapping ASCII capitals to
  small letters, and with a length bound exactly when their prefixes of that length are.
\<close>

theorem stricmp_case_insensitive:
  assumes "cstr a" "cstr b"
  shows "(sqlite3_stricmp (Some a) (Some b) = 0 \<longleftrightarrow> map sqlite3UpperToLower a = map sqlite3UpperToLower b)
    \<and> (sqlite3_strnicmp (Some a) (Some b) n = 0 \<longleftrightarrow>
         map sqlite3UpperToLower (take (nat n) a) = map sqlite3UpperToLower (take (nat n) b))"
  using StrICmp_0_iff [OF assms] strnicmp_loop_0_iff [OF assms] by (simp add: sqlite3_stricmp_def sqlite3_strnicmp_def)

theorem stricmp_case_insensitive_witness:
  "sqlite3_stricmp (Some (str ''CIPHER'')) (Some (str ''cipher'')) = 0"
proof -
  have "cstr (str ''CIPHER'')" "cstr (str ''cipher'')" "map sqlite3UpperToLower (str ''CIPHER'') = map sqlite3UpperToLower (str ''cipher'')"
    by (simp_all add: cstr_def str_def sqlite3UpperToLower_def)
  then show ?thesis using stricmp_case_insensitive [of "str ''CIPHER''" "str ''cipher''"] by simp
qed

end
