(* ===== verification/SC_KeyDerive.thy ===== *)
theory SC_KeyDerive
  imports SC_Page SC_Strings
begin

unbundle bit_operations_syntax

text \<open>
  Key derivation of src/src/sqlcipher.c: from the passphrase of a cipher context to its
  encryption key and HMAC key, either read from a raw key in BLOB form or computed by the
  provider's KDF, and the derivation for both contexts of a codec on first use.

  \<open>sqlcipher_cipher_ctx_key_derive\<close> gets the codec context and one of its cipher contexts and
  returns both; the caller stores the cipher context back.
\<close>

section \<open>Definitions\<close>

text \<open>\<open>xoshiro_randomness(b, n)\<close> on a buffer of a context.\<close>

definition buf_randomness :: "buf option \<Rightarrow> int \<Rightarrow> world \<Rightarrow> (buf option \<times> world) option" where
  "buf_randomness b n w = do {
     (a, d) \<leftarrow> b;
     let (bs, s) = xoshiro_randomness (hp_rng_addr (w_heap w)) (hp_rng (w_heap w)) (nat n);
     Some (Some (a, memcpy_at d 0 bs), w\<lparr>w_heap := (w_heap w)\<lparr>hp_rng := s\<rparr>\<rparr>) }"

definition blob_format :: "bytes \<Rightarrow> int \<Rightarrow> bool" where
  "blob_format pw sz \<longleftrightarrow>
     5 \<le> sz \<and> sqlite3_strnicmp (Some pw) (Some (str [CHR ''x'', CHR 0x27])) 2 = 0
     \<and> pw ! nat (sz - 1) = 0x27 \<and> (sz - 3) smod 2 = 0 \<and> cipher_isHex (drop 2 pw) (nat (sz - 3))"

text \<open>
  The encryption key: a raw key, a raw key and salt, a raw key, HMAC key and salt, or the
  provider's KDF. The flag says whether the HMAC key is still to be derived.
\<close>

definition derive_main_key :: "codec_ctx \<Rightarrow> cipher_ctx \<Rightarrow> (rc \<times> bool \<times> codec_ctx \<times> cipher_ctx) option" where
  "derive_main_key ctx c = do {
     p \<leftarrow> x_provider ctx;
     (_, pw) \<leftarrow> pass c;
     (ka, k) \<leftarrow> key c;
     (ha, hk) \<leftarrow> hmac_key c;
     (sa, salt) \<leftarrow> kdf_salt ctx;
     let raw_key_sz = key_sz ctx * 2;
     let raw_salt_sz = kdf_salt_sz ctx * 2;
     let blob = blob_format pw (pass_sz c);
     let z = drop 2 pw;
     let K = nat raw_key_sz;
     if blob \<and> pass_sz c = raw_key_sz + 3 then
       Some (SQLITE_OK, True, ctx, c\<lparr>key := Some (ka, memcpy_at k 0 (cipher_hex2bin z K))\<rparr>)
     else if blob \<and> pass_sz c = raw_key_sz + raw_salt_sz + 3 then
       Some (SQLITE_OK, True,
             ctx\<lparr>kdf_salt := Some (sa, memcpy_at salt 0 (cipher_hex2bin (drop K z) (nat raw_salt_sz)))\<rparr>,
             c\<lparr>key := Some (ka, memcpy_at k 0 (cipher_hex2bin z K))\<rparr>)
     else if blob \<and> pass_sz c = raw_key_sz + raw_key_sz + raw_salt_sz + 3 then
       Some (SQLITE_OK, False,
             ctx\<lparr>kdf_salt := Some (sa, memcpy_at salt 0 (cipher_hex2bin (drop (K + K) z) (nat raw_salt_sz)))\<rparr>,
             c\<lparr>key := Some (ka, memcpy_at k 0 (cipher_hex2bin z K)),
               hmac_key := Some (ha, memcpy_at hk 0 (cipher_hex2bin (drop K z) K))\<rparr>)
     else
       let (rc, out) = pv_kdf p (kdf_algorithm ctx) (take (nat (pass_sz c)) pw) (take (nat (kdf_salt_sz ctx)) salt)
                         (kdf_iter ctx) (nat (key_sz ctx))
       in Some (rc, True, ctx, c\<lparr>key := Some (ka, memcpy_at k 0 out)\<rparr>) }"

text \<open>The HMAC key: the KDF over the encryption key, with the masked salt.\<close>

definition hmac_salt :: "byte \<Rightarrow> nat \<Rightarrow> bytes \<Rightarrow> bytes" where
  "hmac_salt msk n hs = fold (\<lambda>i b. b[i := b ! i XOR msk]) [0..<n] hs"

definition derive_hmac_key :: "codec_ctx \<Rightarrow> cipher_ctx \<Rightarrow> world \<Rightarrow> (rc \<times> codec_ctx \<times> cipher_ctx) option" where
  "derive_hmac_key ctx c w = do {
     p \<leftarrow> x_provider ctx;
     (_, k) \<leftarrow> key c;
     (ha, hk) \<leftarrow> hmac_key c;
     hs \<leftarrow> buf_copy (hmac_kdf_salt ctx) (kdf_salt ctx) (kdf_salt_sz ctx);
     (sa, s) \<leftarrow> hs;
     let s = hmac_salt (hmac_salt_mask w) (nat (kdf_salt_sz ctx)) s;
     let (rc, out) = pv_kdf p (kdf_algorithm ctx) (take (nat (key_sz ctx)) k) (take (nat (kdf_salt_sz ctx)) s)
                       (fast_kdf_iter ctx) (nat (key_sz ctx));
     Some (rc, ctx\<lparr>hmac_kdf_salt := Some (sa, s)\<rparr>, c\<lparr>hmac_key := Some (ha, memcpy_at hk 0 out)\<rparr>) }"

text \<open>The error exit: the key material is overwritten.\<close>

definition derive_error :: "codec_ctx \<Rightarrow> cipher_ctx \<Rightarrow> world \<Rightarrow> (rc \<times> codec_ctx \<times> cipher_ctx \<times> world) option" where
  "derive_error ctx c w = do {
     (k, w) \<leftarrow> buf_randomness (key c) (key_sz ctx) w;
     (hk, w) \<leftarrow> buf_randomness (hmac_key c) (key_sz ctx) w;
     Some (SQLITE_ERROR, ctx, c\<lparr>key := k, hmac_key := hk\<rparr>, w) }"

definition shield_buf :: "world \<Rightarrow> int \<Rightarrow> buf option \<Rightarrow> buf option option" where
  "shield_buf w n b = map_option (\<lambda>(a, d). Some (a, sqlcipher_shield (shield_mask w) d (nat n))) b"

text \<open>The derivation once the salt is there: encryption key, HMAC key, shield.\<close>

definition derive_keys :: "codec_ctx \<Rightarrow> cipher_ctx \<Rightarrow> world \<Rightarrow> (rc \<times> codec_ctx \<times> cipher_ctx \<times> world) option" where
  "derive_keys ctx c w = do {
     (rc, todo, ctx, c) \<leftarrow> derive_main_key ctx c;
     if rc \<noteq> SQLITE_OK then derive_error ctx c w
     else do {
       (rc, ctx, c) \<leftarrow> (if SQLCIPHER_FLAG_GET (flags ctx) CIPHER_FLAG_HMAC \<and> todo then derive_hmac_key ctx c w
                       else Some (SQLITE_OK, ctx, c));
       if rc \<noteq> SQLITE_OK then derive_error ctx c w
       else do {
         k \<leftarrow> shield_buf w (key_sz ctx) (key c);
         hk \<leftarrow> shield_buf w (key_sz ctx) (hmac_key c);
         Some (SQLITE_OK, ctx, c\<lparr>key := k, hmac_key := hk, derive_key := 0\<rparr>, w) } } }"

definition sqlcipher_cipher_ctx_key_derive ::
    "codec_ctx \<Rightarrow> cipher_ctx \<Rightarrow> world \<Rightarrow> (rc \<times> codec_ctx \<times> cipher_ctx \<times> world) option" where
  "sqlcipher_cipher_ctx_key_derive ctx c w =
     (if pass c = None \<or> pass_sz c = 0 then Some (SQLITE_ERROR, ctx, c, w)
      else do {
        (rc, ctx, w) \<leftarrow> (if \<not> SQLCIPHER_FLAG_GET (flags ctx) CIPHER_FLAG_HAS_KDF_SALT
                        then sqlcipher_codec_ctx_init_kdf_salt ctx w else Some (SQLITE_OK, ctx, w));
        if rc \<noteq> SQLITE_OK then derive_error ctx c w else derive_keys ctx c w })"

text \<open>The two cipher contexts of a codec in turn, and the release of the passphrases.\<close>

definition derive_read :: ctx_step where
  "derive_read ctx w = do {
     r \<leftarrow> read_ctx ctx;
     if derive_key r \<noteq> 0 then do {
       (rc, ctx, r, w) \<leftarrow> sqlcipher_cipher_ctx_key_derive ctx r w;
       Some (if rc \<noteq> SQLITE_OK then SQLITE_ERROR else SQLITE_OK, ctx\<lparr>read_ctx := Some r\<rparr>, w) }
     else Some (SQLITE_OK, ctx, w) }"

definition derive_write :: ctx_step where
  "derive_write ctx w = do {
     r \<leftarrow> read_ctx ctx;
     t \<leftarrow> write_ctx ctx;
     if derive_key t \<noteq> 0 then do {
       n \<leftarrow> sqlcipher_cipher_ctx_cmp t r;
       if n = 0 then do {
         (rc, t, w) \<leftarrow> sqlcipher_cipher_ctx_copy ctx t r w;
         Some (if rc \<noteq> SQLITE_OK then SQLITE_ERROR else SQLITE_OK, ctx\<lparr>write_ctx := Some t\<rparr>, w) }
       else do {
         (rc, ctx, t, w) \<leftarrow> sqlcipher_cipher_ctx_key_derive ctx t w;
         Some (if rc \<noteq> SQLITE_OK then SQLITE_ERROR else SQLITE_OK, ctx\<lparr>write_ctx := Some t\<rparr>, w) } }
     else Some (SQLITE_OK, ctx, w) }"

definition derive_forget :: ctx_step where
  "derive_forget ctx w =
     (if store_pass ctx \<noteq> 1 then do {
        r \<leftarrow> read_ctx ctx;
        (_, r, w) \<leftarrow> sqlcipher_cipher_ctx_set_pass r None 0 w;
        let ctx = ctx\<lparr>read_ctx := Some r\<rparr>;
        t \<leftarrow> write_ctx ctx;
        (_, t, w) \<leftarrow> sqlcipher_cipher_ctx_set_pass t None 0 w;
        Some (SQLITE_OK, ctx\<lparr>write_ctx := Some t\<rparr>, w) }
      else Some (SQLITE_OK, ctx, w))"

definition sqlcipher_codec_key_derive :: ctx_step where
  "sqlcipher_codec_key_derive = run_steps [derive_read, derive_write, derive_forget]"

definition sqlcipher_codec_key_copy :: "codec_ctx \<Rightarrow> int \<Rightarrow> world \<Rightarrow> (rc \<times> codec_ctx \<times> world) option" where
  "sqlcipher_codec_key_copy ctx source w = do {
     r \<leftarrow> read_ctx ctx;
     t \<leftarrow> write_ctx ctx;
     if source = CIPHER_READ_CTX then do {
       (rc, t, w) \<leftarrow> sqlcipher_cipher_ctx_copy ctx t r w;
       Some (rc, ctx\<lparr>write_ctx := Some t\<rparr>, w) }
     else do {
       (rc, r, w) \<leftarrow> sqlcipher_cipher_ctx_copy ctx r t w;
       Some (rc, ctx\<lparr>read_ctx := Some r\<rparr>, w) } }"

section \<open>What derivation may change\<close>

text \<open>
  Derivation rewrites buffers in place: \<open>same_buf\<close> relates a buffer before and after. Of the
  codec context it touches the two salts and the salt flag, of a cipher context the two keys
  and the derive flag.
\<close>

definition same_buf :: "int \<Rightarrow> buf option \<Rightarrow> buf option \<Rightarrow> bool" where
  "same_buf n b b' \<longleftrightarrow> (\<exists>a d d'. b = Some (a, d) \<and> b' = Some (a, d') \<and> length d = nat n \<and> length d' = nat n)"

definition ctx_frame :: "codec_ctx \<Rightarrow> codec_ctx \<Rightarrow> bool" where
  "ctx_frame ctx ctx' \<longleftrightarrow>
     (\<exists>s hs fl. ctx' = ctx\<lparr>kdf_salt := s, hmac_kdf_salt := hs, flags := fl\<rparr>
        \<and> same_buf (kdf_salt_sz ctx) (kdf_salt ctx) s \<and> same_buf (kdf_salt_sz ctx) (hmac_kdf_salt ctx) hs
        \<and> (\<forall>i < 4. bit fl i = bit (flags ctx) i))"

definition cipher_frame :: "int \<Rightarrow> cipher_ctx \<Rightarrow> cipher_ctx \<Rightarrow> bool" where
  "cipher_frame n c c' \<longleftrightarrow>
     (\<exists>k hk d. c' = c\<lparr>key := k, hmac_key := hk, derive_key := d\<rparr>
        \<and> same_buf n (key c) k \<and> same_buf n (hmac_key c) hk)"

lemma ctx_frameE:
  assumes "ctx_frame ctx ctx'"
  obtains s hs fl where "ctx' = ctx\<lparr>kdf_salt := s, hmac_kdf_salt := hs, flags := fl\<rparr>"
    "same_buf (kdf_salt_sz ctx) (kdf_salt ctx) s" "same_buf (kdf_salt_sz ctx) (hmac_kdf_salt ctx) hs"
    "\<forall>i < 4. bit fl i = bit (flags ctx) i"
  using assms unfolding ctx_frame_def by (elim exE conjE) (rule that)

lemma cipher_frameE:
  assumes "cipher_frame n c c'"
  obtains k hk d where "c' = c\<lparr>key := k, hmac_key := hk, derive_key := d\<rparr>" "same_buf n (key c) k" "same_buf n (hmac_key c) hk"
  using assms unfolding cipher_frame_def by (elim exE conjE) (rule that)

lemma same_buf_refl: "buf_ok n b \<Longrightarrow> same_buf n b b"
  by (auto simp: same_buf_def buf_ok_def)

lemma same_buf_trans: "same_buf n a b \<Longrightarrow> same_buf n b c \<Longrightarrow> same_buf n a c"
  by (auto simp: same_buf_def)

lemma same_buf_ok: "same_buf n b b' \<Longrightarrow> buf_ok n b' \<and> ob m b' = ob m b"
  by (auto simp: same_buf_def buf_ok_def)

lemma same_buf_memcpy: "length d = nat n \<Longrightarrow> length x = nat n \<Longrightarrow> same_buf n (Some (a, d)) (Some (a, memcpy_at d 0 x))"
  by (simp add: same_buf_def)

lemma ctx_frame_refl: "buffers_wf ctx \<Longrightarrow> ctx_frame ctx ctx"
  unfolding ctx_frame_def buffers_wf_def
  by (rule exI [of _ "kdf_salt ctx"], rule exI [of _ "hmac_kdf_salt ctx"], rule exI [of _ "flags ctx"]) (simp add: same_buf_refl)

lemma ctx_frame_trans:
  assumes "ctx_frame a b" "ctx_frame b c"
  shows "ctx_frame a c"
proof -
  obtain s hs fl where b: "b = a\<lparr>kdf_salt := s, hmac_kdf_salt := hs, flags := fl\<rparr>" "same_buf (kdf_salt_sz a) (kdf_salt a) s"
    "same_buf (kdf_salt_sz a) (hmac_kdf_salt a) hs" "\<forall>i < 4. bit fl i = bit (flags a) i"
    by (rule ctx_frameE [OF assms(1)])
  obtain s2 hs2 fl2 where c: "c = b\<lparr>kdf_salt := s2, hmac_kdf_salt := hs2, flags := fl2\<rparr>" "same_buf (kdf_salt_sz b) (kdf_salt b) s2"
    "same_buf (kdf_salt_sz b) (hmac_kdf_salt b) hs2" "\<forall>i < 4. bit fl2 i = bit (flags b) i"
    by (rule ctx_frameE [OF assms(2)])
  have "c = a\<lparr>kdf_salt := s2, hmac_kdf_salt := hs2, flags := fl2\<rparr>" unfolding c(1) b(1) by simp
  moreover have "same_buf (kdf_salt_sz a) (kdf_salt a) s2" by (rule same_buf_trans [OF b(2)]) (use c(2) b(1) in simp)
  moreover have "same_buf (kdf_salt_sz a) (hmac_kdf_salt a) hs2" by (rule same_buf_trans [OF b(3)]) (use c(3) b(1) in simp)
  moreover have "\<forall>i < 4. bit fl2 i = bit (flags a) i" using b(1,4) c(4) by simp
  ultimately show ?thesis unfolding ctx_frame_def by (intro exI conjI)
qed

lemma cipher_frame_refl: "cipher_wf n c \<Longrightarrow> cipher_frame n c c"
  unfolding cipher_frame_def cipher_wf_def
  by (rule exI [of _ "key c"], rule exI [of _ "hmac_key c"], rule exI [of _ "derive_key c"]) (simp add: same_buf_refl)

lemma cipher_frame_trans:
  assumes "cipher_frame n a b" "cipher_frame n b c"
  shows "cipher_frame n a c"
proof -
  obtain k hk d where b: "b = a\<lparr>key := k, hmac_key := hk, derive_key := d\<rparr>" "same_buf n (key a) k" "same_buf n (hmac_key a) hk"
    by (rule cipher_frameE [OF assms(1)])
  obtain k2 hk2 d2 where c: "c = b\<lparr>key := k2, hmac_key := hk2, derive_key := d2\<rparr>" "same_buf n (key b) k2" "same_buf n (hmac_key b) hk2"
    by (rule cipher_frameE [OF assms(2)])
  have "c = a\<lparr>key := k2, hmac_key := hk2, derive_key := d2\<rparr>" unfolding c(1) b(1) by simp
  moreover have "same_buf n (key a) k2" by (rule same_buf_trans [OF b(2)]) (use c(2) b(1) in simp)
  moreover have "same_buf n (hmac_key a) hk2" by (rule same_buf_trans [OF b(3)]) (use c(3) b(1) in simp)
  ultimately show ?thesis unfolding cipher_frame_def by (intro exI conjI)
qed

lemma flag_hmac_bit: "SQLCIPHER_FLAG_GET f CIPHER_FLAG_HMAC = bit f 0"
  by (simp add: flag_simps)

lemma ctx_frame_owned:
  assumes "ctx_frame ctx ctx'"
  shows "codec_owned ctx' = codec_owned ctx"
proof -
  obtain s hs fl where c: "ctx' = ctx\<lparr>kdf_salt := s, hmac_kdf_salt := hs, flags := fl\<rparr>"
    "same_buf (kdf_salt_sz ctx) (kdf_salt ctx) s" "same_buf (kdf_salt_sz ctx) (hmac_kdf_salt ctx) hs"
    by (rule ctx_frameE [OF assms])
  show ?thesis using same_buf_ok [OF c(2)] same_buf_ok [OF c(3)] by (simp add: c(1) codec_owned_def)
qed

lemma ctx_frame_fields:
  assumes "ctx_frame ctx ctx'"
  shows "key_sz ctx' = key_sz ctx" "read_ctx ctx' = read_ctx ctx"
    "write_ctx ctx' = write_ctx ctx" "store_pass ctx' = store_pass ctx" "x_provider ctx' = x_provider ctx"
    "buffer ctx' = buffer ctx" "page_sz ctx' = page_sz ctx" "kdf_salt_sz ctx' = kdf_salt_sz ctx"
    "plaintext_header_sz ctx' = plaintext_header_sz ctx" "reserve_sz ctx' = reserve_sz ctx" "pBt ctx' = pBt ctx"
    "x_error ctx' = x_error ctx" "iv_sz ctx' = iv_sz ctx" "hmac_sz ctx' = hmac_sz ctx" "hmac_algorithm ctx' = hmac_algorithm ctx"
    "kdf_algorithm ctx' = kdf_algorithm ctx" "kdf_iter ctx' = kdf_iter ctx" "fast_kdf_iter ctx' = fast_kdf_iter ctx"
proof -
  obtain s hs fl where c: "ctx' = ctx\<lparr>kdf_salt := s, hmac_kdf_salt := hs, flags := fl\<rparr>"
    by (rule ctx_frameE [OF assms])
  show "key_sz ctx' = key_sz ctx" by (simp add: c)
  show "read_ctx ctx' = read_ctx ctx" by (simp add: c)
  show "write_ctx ctx' = write_ctx ctx" by (simp add: c)
  show "store_pass ctx' = store_pass ctx" by (simp add: c)
  show "x_provider ctx' = x_provider ctx" by (simp add: c)
  show "buffer ctx' = buffer ctx" by (simp add: c)
  show "page_sz ctx' = page_sz ctx" by (simp add: c)
  show "kdf_salt_sz ctx' = kdf_salt_sz ctx" by (simp add: c)
  show "plaintext_header_sz ctx' = plaintext_header_sz ctx" by (simp add: c)
  show "reserve_sz ctx' = reserve_sz ctx" by (simp add: c)
  show "pBt ctx' = pBt ctx" by (simp add: c)
  show "x_error ctx' = x_error ctx" by (simp add: c)
  show "iv_sz ctx' = iv_sz ctx" by (simp add: c)
  show "hmac_sz ctx' = hmac_sz ctx" by (simp add: c)
  show "hmac_algorithm ctx' = hmac_algorithm ctx" by (simp add: c)
  show "kdf_algorithm ctx' = kdf_algorithm ctx" by (simp add: c)
  show "kdf_iter ctx' = kdf_iter ctx" by (simp add: c)
  show "fast_kdf_iter ctx' = fast_kdf_iter ctx" by (simp add: c)
qed

lemma ctx_frame_wf:
  assumes "ctx_frame ctx ctx'" "codec_wf ctx"
  shows "codec_wf ctx'"
proof -
  obtain s hs fl where c: "ctx' = ctx\<lparr>kdf_salt := s, hmac_kdf_salt := hs, flags := fl\<rparr>"
    "same_buf (kdf_salt_sz ctx) (kdf_salt ctx) s" "same_buf (kdf_salt_sz ctx) (hmac_kdf_salt ctx) hs"
    "bit fl 0 = bit (flags ctx) 0" by (rule ctx_frameE [OF assms(1)]) simp
  have "reserve_for p fl a = reserve_for p (flags ctx) a" for p a using c(4) by (simp add: reserve_for_def flag_hmac_bit)
  then show ?thesis using assms(2) c(1) same_buf_ok [OF c(2)] same_buf_ok [OF c(3)] by (auto simp: wf_defs)
qed

lemma cipher_frame_wf:
  assumes "cipher_frame n c c'" "cipher_wf n c"
  shows "cipher_wf n c'" "cipher_owned n (Some c') = cipher_owned n (Some c)" "pass c' = pass c" "pass_sz c' = pass_sz c"
    "c_addr c' = c_addr c"
proof -
  obtain k hk d where c: "c' = c\<lparr>key := k, hmac_key := hk, derive_key := d\<rparr>" "same_buf n (key c) k" "same_buf n (hmac_key c) hk"
    by (rule cipher_frameE [OF assms(1)])
  show "cipher_wf n c'" using assms(2) same_buf_ok [OF c(2)] same_buf_ok [OF c(3)] by (simp add: cipher_wf_def c(1))
  show "cipher_owned n (Some c') = cipher_owned n (Some c)" using same_buf_ok [OF c(2)] same_buf_ok [OF c(3)]
    by (simp add: cipher_owned_def c(1))
  show "pass c' = pass c" "pass_sz c' = pass_sz c" "c_addr c' = c_addr c" by (simp_all add: c(1))
qed

section \<open>Steps of the derivation\<close>

lemma heap_view_rng [simp]: "heap_view (h\<lparr>hp_rng := s\<rparr>) = heap_view h"
  by (simp add: heap_view_def)

lemma live_rng [simp]: "live (h\<lparr>hp_rng := s\<rparr>) = live h" "heap_inv (h\<lparr>hp_rng := s\<rparr>) = heap_inv h"
  by (simp_all add: live_def heap_inv_def heap_inv_of_def region_inv_def)

lemma holds_rng:
  assumes "holds g R M w"
  shows "holds g R M (w\<lparr>w_heap := (w_heap w)\<lparr>hp_rng := s\<rparr>\<rparr>)"
proof -
  obtain h n where "w = g\<lparr>w_heap := h, w_calls := n\<rparr>" "heap_inv h" "owns (live h) R M" using assms by (auto simp: holds_def)
  then show ?thesis unfolding holds_def by (intro exI [of _ "h\<lparr>hp_rng := s\<rparr>"] exI [of _ n]) simp
qed

lemma buf_randomness_ok:
  assumes "holds g R M w" "buf_ok n b"
  obtains b' w' where "buf_randomness b n w = Some (b', w')" "holds g R M w'" "same_buf n b b'"
    "contents b' = Some (fst (xoshiro_randomness (hp_rng_addr (w_heap w)) (hp_rng (w_heap w)) (nat n)))"
    "w' = w\<lparr>w_heap := (w_heap w)\<lparr>hp_rng := snd (xoshiro_randomness (hp_rng_addr (w_heap w)) (hp_rng (w_heap w)) (nat n))\<rparr>\<rparr>"
proof -
  let ?x = "xoshiro_randomness (hp_rng_addr (w_heap w)) (hp_rng (w_heap w)) (nat n)"
  obtain a d where b: "b = Some (a, d)" "length d = nat n" using assms(2) by (auto simp: buf_ok_def)
  have "buf_randomness b n w = Some (Some (a, fst ?x), w\<lparr>w_heap := (w_heap w)\<lparr>hp_rng := snd ?x\<rparr>\<rparr>)"
    using b by (simp add: buf_randomness_def split_beta)
  moreover have "same_buf n b (Some (a, fst ?x))" using b by (simp add: same_buf_def)
  ultimately show ?thesis using that holds_rng [OF assms(1)] by (metis contents_simps(2))
qed

lemma init_kdf_salt_ok:
  assumes "codec_wf ctx" "holds g R M w"
  obtains rc ctx' w' where "sqlcipher_codec_ctx_init_kdf_salt ctx w = Some (rc, ctx', w')" "ctx_frame ctx ctx'" "holds g R M w'"
    "w_heap w' = w_heap w" "rc = SQLITE_OK \<or> rc = SQLITE_ERROR" "rc = SQLITE_OK \<longrightarrow> bit (flags ctx') 4"
proof (cases "bit (flags ctx) 4")
  case True
  then have "sqlcipher_codec_ctx_init_kdf_salt ctx w = Some (SQLITE_OK, ctx, w)"
    by (simp add: sqlcipher_codec_ctx_init_kdf_salt_def flag_simps)
  then show ?thesis using that True assms ctx_frame_refl by (auto simp: codec_wf_def)
next
  case False
  obtain a d p where c: "kdf_salt ctx = Some (a, d)" "length d = nat (kdf_salt_sz ctx)" "x_provider ctx = Some p" "provider_ok p"
    using assms(1) by (auto simp: wf_defs buf_ok_def)
  let ?n = "nat (kdf_salt_sz ctx)"
  define d1 where "d1 = (case bt_header (pBt ctx) of None \<Rightarrow> d | Some (_, bs) \<Rightarrow> memcpy_at d 0 (take ?n bs))"
  define found where "found = (case bt_header (pBt ctx) of None \<Rightarrow> False | Some (rc, _) \<Rightarrow> rc = SQLITE_OK)"
  obtain rc bs where r: "pv_random p (w_calls w) ?n = (rc, bs)" by (cases "pv_random p (w_calls w) ?n")
  have l: "length d1 = ?n" "length bs = ?n"
    using c(2) provider_lengths(1) [OF c(4), of "w_calls w" ?n] r by (auto simp: d1_def split: option.splits)
  let ?fl = "SQLCIPHER_FLAG_SET (flags ctx) CIPHER_FLAG_HAS_KDF_SALT"
  have b: "\<forall>i < 4. bit ?fl i = bit (flags ctx) i" "bit ?fl 4" by (simp_all add: flag_simps)
  have f: "ctx_frame ctx (ctx\<lparr>kdf_salt := Some (a, x), flags := fl\<rparr>)"
    if "length x = ?n" "\<forall>i < 4. bit fl i = bit (flags ctx) i" for x fl
    unfolding ctx_frame_def using that c(1,2) assms(1) same_buf_refl [of _ "hmac_kdf_salt ctx"]
    by (intro exI [of _ "Some (a, x)"] exI [of _ "hmac_kdf_salt ctx"] exI [of _ fl]) (auto simp: same_buf_def wf_defs)
  have run: "sqlcipher_codec_ctx_init_kdf_salt ctx w =
      (if found then Some (SQLITE_OK, ctx\<lparr>kdf_salt := Some (a, d1), flags := ?fl\<rparr>, w)
       else if rc \<noteq> SQLITE_OK then Some (SQLITE_ERROR, ctx\<lparr>kdf_salt := Some (a, bs), flags := flags ctx\<rparr>, w\<lparr>w_calls := w_calls w + 1\<rparr>)
       else Some (SQLITE_OK, ctx\<lparr>kdf_salt := Some (a, bs), flags := ?fl\<rparr>, w\<lparr>w_calls := w_calls w + 1\<rparr>))"
    using False c r l by (simp add: sqlcipher_codec_ctx_init_kdf_salt_def flag_get_bits Let_def d1_def found_def)
  show ?thesis
  proof (cases found)
    case True
    show ?thesis by (rule that, use run True in simp) (use f [OF l(1) b(1)] b(2) assms(2) in simp_all)
  next
    case nf: False
    show ?thesis
    proof (cases "rc = SQLITE_OK")
      case True
      show ?thesis by (rule that, use run nf True in simp) (use f [OF l(2) b(1)] b(2) holds_calls [OF assms(2)] in simp_all)
    next
      case False
      show ?thesis by (rule that, use run nf False in simp) (use f [OF l(2), of "flags ctx"] holds_calls [OF assms(2)] in simp_all)
    qed
  qed
qed

lemma length_cipher_hex2bin: "length (cipher_hex2bin z n) = (n + 1) div 2"
  by (simp add: cipher_hex2bin_def)

lemma nat_double: "0 \<le> n \<Longrightarrow> (nat (n * 2) + 1) div 2 = nat n"
  by (simp add: nat_mult_distrib)

lemma ctx_frame_salt:
  assumes "buffers_wf ctx" "kdf_salt ctx = Some (a, d)" "length d' = nat (kdf_salt_sz ctx)"
  shows "ctx_frame ctx (ctx\<lparr>kdf_salt := Some (a, d')\<rparr>)"
proof -
  have "same_buf (kdf_salt_sz ctx) (hmac_kdf_salt ctx) (hmac_kdf_salt ctx)" "length d = nat (kdf_salt_sz ctx)"
    using assms(1,2) same_buf_refl [of "kdf_salt_sz ctx" "hmac_kdf_salt ctx"] by (auto simp: buffers_wf_def buf_ok_def)
  then show ?thesis unfolding ctx_frame_def
    by (intro exI [of _ "Some (a, d')"] exI [of _ "hmac_kdf_salt ctx"] exI [of _ "flags ctx"]) (simp add: same_buf_def assms)
qed

lemma cipher_frame_keys:
  assumes "key c = Some (a, k)" "hmac_key c = Some (b, hk)" "length k = nat n" "length hk = nat n"
    "length k' = nat n" "length hk' = nat n"
  shows "cipher_frame n c (c\<lparr>key := Some (a, k'), hmac_key := Some (b, hk')\<rparr>)"
  unfolding cipher_frame_def using assms
  by (intro exI [of _ "Some (a, k')"] exI [of _ "Some (b, hk')"] exI [of _ "derive_key c"]) (simp add: same_buf_def)

lemma cipher_frame_key:
  assumes "key c = Some (a, k)" "hmac_key c = Some (b, hk)" "length k = nat n" "length hk = nat n" "length k' = nat n"
  shows "cipher_frame n c (c\<lparr>key := Some (a, k')\<rparr>)"
  unfolding cipher_frame_def using assms
  by (intro exI [of _ "Some (a, k')"] exI [of _ "hmac_key c"] exI [of _ "derive_key c"]) (simp add: same_buf_def)

lemma cipher_frame_hmac:
  assumes "key c = Some (a, k)" "hmac_key c = Some (b, hk)" "length k = nat n" "length hk = nat n" "length hk' = nat n"
  shows "cipher_frame n c (c\<lparr>hmac_key := Some (b, hk')\<rparr>)"
  unfolding cipher_frame_def using assms
  by (intro exI [of _ "key c"] exI [of _ "Some (b, hk')"] exI [of _ "derive_key c"]) (simp add: same_buf_def)

lemma if3_cases: "(if a then x else if b then y else if c then z else v) = x
  \<or> (if a then x else if b then y else if c then z else v) = y
  \<or> (if a then x else if b then y else if c then z else v) = z
  \<or> (if a then x else if b then y else if c then z else v) = v"
  by simp

text \<open>The three raw-key forms and the KDF, on well-formed contexts.\<close>

lemma derive_main_key_eq:
  assumes "x_provider ctx = Some p" "provider_ok p" "0 < key_sz ctx" "kdf_salt_sz ctx = 16"
    "kdf_salt ctx = Some (sa, salt)" "length salt = 16" "pass c = Some (pa, pw)"
    "key c = Some (ka, k)" "hmac_key c = Some (ha, hk)" "length k = nat (key_sz ctx)" "length hk = nat (key_sz ctx)"
    and out: "out = pv_kdf p (kdf_algorithm ctx) (take (nat (pass_sz c)) pw) (take 16 salt) (kdf_iter ctx) (nat (key_sz ctx))"
    and K: "K = nat (key_sz ctx * 2)"
  shows "derive_main_key ctx c =
     (if blob_format pw (pass_sz c) \<and> pass_sz c = key_sz ctx * 2 + 3
      then Some (SQLITE_OK, True, ctx, c\<lparr>key := Some (ka, cipher_hex2bin (drop 2 pw) K)\<rparr>)
      else if blob_format pw (pass_sz c) \<and> pass_sz c = key_sz ctx * 2 + 32 + 3
      then Some (SQLITE_OK, True, ctx\<lparr>kdf_salt := Some (sa, cipher_hex2bin (drop K (drop 2 pw)) 32)\<rparr>,
             c\<lparr>key := Some (ka, cipher_hex2bin (drop 2 pw) K)\<rparr>)
      else if blob_format pw (pass_sz c) \<and> pass_sz c = key_sz ctx * 2 + key_sz ctx * 2 + 32 + 3
      then Some (SQLITE_OK, False, ctx\<lparr>kdf_salt := Some (sa, cipher_hex2bin (drop (K + K) (drop 2 pw)) 32)\<rparr>,
             c\<lparr>key := Some (ka, cipher_hex2bin (drop 2 pw) K), hmac_key := Some (ha, cipher_hex2bin (drop K (drop 2 pw)) K)\<rparr>)
      else Some (fst out, True, ctx, c\<lparr>key := Some (ka, snd out)\<rparr>))"
proof -
  have l: "length (cipher_hex2bin x K) = nat (key_sz ctx)" "length (cipher_hex2bin x 32) = 16" for x
    using assms(3) by (simp_all add: K length_cipher_hex2bin nat_double)
  have lo: "length (snd out) = nat (key_sz ctx)" using provider_lengths(3) [OF assms(2)] by (simp add: out)
  have m: "memcpy_at k 0 (cipher_hex2bin x K) = cipher_hex2bin x K" "memcpy_at hk 0 (cipher_hex2bin x K) = cipher_hex2bin x K"
    "memcpy_at salt 0 (cipher_hex2bin x 32) = cipher_hex2bin x 32" "memcpy_at k 0 (snd out) = snd out" for x
    by (simp_all only: memcpy_at_zero_full l lo assms(6,10,11))
  have n: "(16 :: int) * 2 = 32" "nat 16 = 16" "nat 32 = 32" by simp_all
  show ?thesis unfolding derive_main_key_def assms(1,4,5,7,8,9) Let_def
    by (simp only: Option.bind.simps prod.case split_beta fst_conv snd_conv n m K [symmetric] out [symmetric])
qed

lemma codec_wf_parts:
  assumes "codec_wf ctx"
  obtains p sa salt ha hs where "x_provider ctx = Some p" "provider_ok p" "0 < key_sz ctx" "kdf_salt_sz ctx = 16"
    "kdf_salt ctx = Some (sa, salt)" "length salt = 16" "hmac_kdf_salt ctx = Some (ha, hs)" "length hs = 16"
  using assms by (auto simp: wf_defs provider_ok_def FILE_HEADER_SZ_def buf_ok_def)

lemma cipher_wf_parts:
  assumes "cipher_wf n c"
  obtains ka k ha hk where "key c = Some (ka, k)" "hmac_key c = Some (ha, hk)" "length k = nat n" "length hk = nat n"
  using assms by (auto simp: cipher_wf_def buf_ok_def)

lemma derive_main_key_ok:
  assumes "codec_wf ctx" "cipher_wf (key_sz ctx) c" "pass c \<noteq> None"
  obtains rc todo ctx' c' where "derive_main_key ctx c = Some (rc, todo, ctx', c')" "ctx_frame ctx ctx'"
    "cipher_frame (key_sz ctx) c c'" "derive_key c' = derive_key c" "flags ctx' = flags ctx"
proof -
  obtain p sa salt where p: "x_provider ctx = Some p" "provider_ok p" "0 < key_sz ctx" "kdf_salt_sz ctx = 16"
    "kdf_salt ctx = Some (sa, salt)" "length salt = 16" using codec_wf_parts [OF assms(1)] by blast
  obtain ka k ha hk where k: "key c = Some (ka, k)" "hmac_key c = Some (ha, hk)" "length k = nat (key_sz ctx)" "length hk = nat (key_sz ctx)"
    using cipher_wf_parts [OF assms(2)] by blast
  obtain pa pw where pw: "pass c = Some (pa, pw)" using assms(3) by (cases "pass c") auto
  have w: "buffers_wf ctx" using assms(1) by (simp add: codec_wf_def)
  note run = derive_main_key_eq [OF p pw k refl refl]
  let ?K = "nat (key_sz ctx * 2)"
  let ?out = "pv_kdf p (kdf_algorithm ctx) (take (nat (pass_sz c)) pw) (take 16 salt) (kdf_iter ctx) (nat (key_sz ctx))"
  have l: "length (cipher_hex2bin x ?K) = nat (key_sz ctx)" "length (cipher_hex2bin x 32) = 16" "length (snd ?out) = nat (key_sz ctx)" for x
    using p(3) provider_lengths(3) [OF p(2)] by (simp_all add: length_cipher_hex2bin nat_double)
  note f = ctx_frame_refl [OF w] cipher_frame_key [OF k l(1)] cipher_frame_key [OF k l(3)] cipher_frame_keys [OF k l(1) l(1)]
  have g: "ctx_frame ctx (ctx\<lparr>kdf_salt := Some (sa, cipher_hex2bin x 32)\<rparr>)" for x
    using ctx_frame_salt [OF w p(5)] l(2) p(4) by simp
  have "derive_main_key ctx c = Some (SQLITE_OK, True, ctx, c\<lparr>key := Some (ka, cipher_hex2bin (drop 2 pw) ?K)\<rparr>) 
    \<or> derive_main_key ctx c = Some (SQLITE_OK, True, ctx\<lparr>kdf_salt := Some (sa, cipher_hex2bin (drop ?K (drop 2 pw)) 32)\<rparr>,
         c\<lparr>key := Some (ka, cipher_hex2bin (drop 2 pw) ?K)\<rparr>) 
    \<or> derive_main_key ctx c = Some (SQLITE_OK, False, ctx\<lparr>kdf_salt := Some (sa, cipher_hex2bin (drop (?K + ?K) (drop 2 pw)) 32)\<rparr>,
         c\<lparr>key := Some (ka, cipher_hex2bin (drop 2 pw) ?K), hmac_key := Some (ha, cipher_hex2bin (drop ?K (drop 2 pw)) ?K)\<rparr>) 
    \<or> derive_main_key ctx c = Some (fst ?out, True, ctx, c\<lparr>key := Some (ka, snd ?out)\<rparr>)"
    unfolding run by (rule if3_cases)
  then show ?thesis
    by (elim disjE) (rule that, assumption, (simp_all add: f g)[4])+
qed

lemma length_hmac_salt [simp]: "length (hmac_salt m n hs) = length hs"
proof -
  have "length (fold (\<lambda>i b. b[i := f i b]) is hs) = length hs" for f :: "nat \<Rightarrow> bytes \<Rightarrow> byte" and "is"
    by (induction "is" arbitrary: hs) auto
  then show ?thesis by (simp add: hmac_salt_def)
qed

lemma derive_hmac_key_ok:
  assumes "codec_wf ctx" "cipher_wf (key_sz ctx) c"
  obtains rc ctx' c' where "derive_hmac_key ctx c w = Some (rc, ctx', c')" "ctx_frame ctx ctx'"
    "cipher_frame (key_sz ctx) c c'" "derive_key c' = derive_key c" "key c' = key c" "kdf_salt ctx' = kdf_salt ctx"
    "flags ctx' = flags ctx"
proof -
  obtain p where p: "x_provider ctx = Some p" "provider_ok p" "kdf_salt_sz ctx = 16"
    using assms(1) by (auto simp: wf_defs FILE_HEADER_SZ_def)
  obtain sa salt ha0 hs where s: "kdf_salt ctx = Some (sa, salt)" "length salt = 16" "hmac_kdf_salt ctx = Some (ha0, hs)" "length hs = 16"
    using assms(1) by (auto simp: wf_defs buf_ok_def FILE_HEADER_SZ_def)
  obtain ka k ha hk where k: "key c = Some (ka, k)" "hmac_key c = Some (ha, hk)" "length k = nat (key_sz ctx)" "length hk = nat (key_sz ctx)"
    using assms(2) by (auto simp: cipher_wf_def buf_ok_def)
  define ms where "ms = hmac_salt (hmac_salt_mask w) 16 salt"
  define out where "out = pv_kdf p (kdf_algorithm ctx) k ms (fast_kdf_iter ctx) (nat (key_sz ctx))"
  have lo: "length (snd out) = nat (key_sz ctx)" using provider_lengths(3) [OF p(2)] by (simp add: out_def)
  have lm: "length ms = 16" using s by (simp add: ms_def)
  have run: "derive_hmac_key ctx c w = Some (fst out, ctx\<lparr>hmac_kdf_salt := Some (ha0, ms)\<rparr>, c\<lparr>hmac_key := Some (ha, snd out)\<rparr>)"
    using p s k lo lm by (simp add: derive_hmac_key_def buf_copy_def Let_def split_beta out_def [symmetric] ms_def [symmetric])
  have "ctx_frame ctx (ctx\<lparr>hmac_kdf_salt := Some (ha0, ms)\<rparr>)" unfolding ctx_frame_def
    by (intro exI [of _ "kdf_salt ctx"] exI [of _ "Some (ha0, ms)"] exI [of _ "flags ctx"]) (simp add: same_buf_def s p lm)
  moreover have "cipher_frame (key_sz ctx) c (c\<lparr>hmac_key := Some (ha, snd out)\<rparr>)"
    using cipher_frame_hmac [OF k lo] .
  ultimately show ?thesis by (intro that [OF run]) simp_all
qed

lemma derive_error_ok:
  assumes "cipher_wf (key_sz ctx) c" "holds g R M w"
  obtains c' w' where "derive_error ctx c w = Some (SQLITE_ERROR, ctx, c', w')" "cipher_frame (key_sz ctx) c c'" "holds g R M w'"
    "derive_key c' = derive_key c"
    "let x = xoshiro_randomness (hp_rng_addr (w_heap w)) (hp_rng (w_heap w)) (nat (key_sz ctx)) in
       contents (key c') = Some (fst x)
       \<and> contents (hmac_key c') = Some (fst (xoshiro_randomness (hp_rng_addr (w_heap w)) (snd x) (nat (key_sz ctx))))"
proof -
  let ?n = "key_sz ctx"
  let ?x = "xoshiro_randomness (hp_rng_addr (w_heap w)) (hp_rng (w_heap w)) (nat ?n)"
  have k: "buf_ok ?n (key c)" "buf_ok ?n (hmac_key c)" using assms(1) by (simp_all add: cipher_wf_def)
  obtain b1 w1 where 1: "buf_randomness (key c) ?n w = Some (b1, w1)" "holds g R M w1" "same_buf ?n (key c) b1"
    "contents b1 = Some (fst ?x)" "w1 = w\<lparr>w_heap := (w_heap w)\<lparr>hp_rng := snd ?x\<rparr>\<rparr>" using buf_randomness_ok [OF assms(2) k(1)] by metis
  obtain b2 w2 where 2: "buf_randomness (hmac_key c) ?n w1 = Some (b2, w2)" "holds g R M w2" "same_buf ?n (hmac_key c) b2"
    "contents b2 = Some (fst (xoshiro_randomness (hp_rng_addr (w_heap w1)) (hp_rng (w_heap w1)) (nat ?n)))"
    using buf_randomness_ok [OF 1(2) k(2)] by metis
  have run: "derive_error ctx c w = Some (SQLITE_ERROR, ctx, c\<lparr>key := b1, hmac_key := b2\<rparr>, w2)"
    by (simp add: derive_error_def 1(1) 2(1))
  have "cipher_frame ?n c (c\<lparr>key := b1, hmac_key := b2\<rparr>)" unfolding cipher_frame_def
    by (intro exI [of _ b1] exI [of _ b2] exI [of _ "derive_key c"]) (simp add: 1(3) 2(3))
  then show ?thesis using 1(4,5) 2(4) by (intro that [OF run _ 2(2)]) simp_all
qed

lemma shield_buf_ok:
  assumes "buf_ok n b"
  obtains b' where "shield_buf w n b = Some b'" "same_buf n b b'"
  using assms by (auto simp: shield_buf_def buf_ok_def same_buf_def)

text \<open>
  What one derivation does to well-formed contexts, whatever path it takes: it returns, the
  contexts stay well formed and own the same blocks, and on failure the keys are overwritten.
\<close>

definition derive_outcome :: "world \<Rightarrow> codec_ctx \<Rightarrow> cipher_ctx \<Rightarrow> rc \<Rightarrow> codec_ctx \<Rightarrow> cipher_ctx \<Rightarrow> bool" where
  "derive_outcome w ctx c rc ctx' c' \<longleftrightarrow> ctx_frame ctx ctx' \<and> cipher_frame (key_sz ctx) c c'
     \<and> (rc = SQLITE_OK \<and> derive_key c' = 0 \<and> bit (flags ctx') 4
        \<or> rc = SQLITE_ERROR \<and> derive_key c' = derive_key c \<and> (pass c = None \<and> c' = c \<or>
          (let x = xoshiro_randomness (hp_rng_addr (w_heap w)) (hp_rng (w_heap w)) (nat (key_sz ctx)) in
             contents (key c') = Some (fst x)
             \<and> contents (hmac_key c') = Some (fst (xoshiro_randomness (hp_rng_addr (w_heap w)) (snd x) (nat (key_sz ctx)))))))"

lemma derive_outcome_error:
  assumes "ctx_frame ctx ctx1" "cipher_frame (key_sz ctx) c c1" "cipher_wf (key_sz ctx) c" "derive_key c1 = derive_key c"
    "w_heap w1 = w_heap w" "holds g R M w1"
  shows "\<exists>c' w'. derive_error ctx1 c1 w1 = Some (SQLITE_ERROR, ctx1, c', w') \<and> derive_outcome w ctx c SQLITE_ERROR ctx1 c' \<and> holds g R M w'"
proof -
  have k: "key_sz ctx1 = key_sz ctx" using ctx_frame_fields [OF assms(1)] by simp
  have "cipher_wf (key_sz ctx1) c1" using cipher_frame_wf(1) [OF assms(2,3)] by (simp add: k)
  from derive_error_ok [OF this assms(6)] obtain c' w' where e: "derive_error ctx1 c1 w1 = Some (SQLITE_ERROR, ctx1, c', w')"
    "cipher_frame (key_sz ctx1) c1 c'" "holds g R M w'" "derive_key c' = derive_key c1"
    "let x = xoshiro_randomness (hp_rng_addr (w_heap w1)) (hp_rng (w_heap w1)) (nat (key_sz ctx1)) in
       contents (key c') = Some (fst x)
       \<and> contents (hmac_key c') = Some (fst (xoshiro_randomness (hp_rng_addr (w_heap w1)) (snd x) (nat (key_sz ctx1))))" by blast
  have "derive_outcome w ctx c SQLITE_ERROR ctx1 c'" unfolding derive_outcome_def
    using assms(1,4) cipher_frame_trans [OF assms(2)] e(2,4,5) by (simp add: k assms(5))
  with e(1,3) show ?thesis by blast
qed

lemma derive_keys_ok:
  assumes "codec_wf ctx" "cipher_wf (key_sz ctx) c" "pass c \<noteq> None" "holds g R M w" "bit (flags ctx) 4"
  shows "\<exists>rc ctx' c' w'. derive_keys ctx c w = Some (rc, ctx', c', w')
    \<and> derive_outcome w ctx c rc ctx' c' \<and> holds g R M w'"
proof -
  obtain rc todo ctx1 c1 where 1: "derive_main_key ctx c = Some (rc, todo, ctx1, c1)" "ctx_frame ctx ctx1"
    "cipher_frame (key_sz ctx) c c1" "derive_key c1 = derive_key c" "flags ctx1 = flags ctx" using derive_main_key_ok [OF assms(1-3)] by blast
  have k1: "key_sz ctx1 = key_sz ctx" using ctx_frame_fields [OF 1(2)] by simp
  have w1: "codec_wf ctx1" "cipher_wf (key_sz ctx1) c1" using ctx_frame_wf [OF 1(2) assms(1)] cipher_frame_wf(1) [OF 1(3) assms(2)] by (simp_all add: k1)
  show ?thesis
  proof (cases "rc = SQLITE_OK")
    case False
    then show ?thesis using derive_outcome_error [OF 1(2,3) assms(2) 1(4) refl assms(4)] by (auto simp: derive_keys_def 1(1))
  next
    case ok: True
    obtain rc2 ctx2 c2 where 2: "(if SQLCIPHER_FLAG_GET (flags ctx1) CIPHER_FLAG_HMAC \<and> todo then derive_hmac_key ctx1 c1 w
         else Some (SQLITE_OK, ctx1, c1)) = Some (rc2, ctx2, c2)" "ctx_frame ctx1 ctx2" "cipher_frame (key_sz ctx1) c1 c2"
       "derive_key c2 = derive_key c1" "flags ctx2 = flags ctx1"
    proof (cases "SQLCIPHER_FLAG_GET (flags ctx1) CIPHER_FLAG_HMAC \<and> todo")
      case True
      then show ?thesis using derive_hmac_key_ok [OF w1] that by metis
    next
      case False
      have "ctx_frame ctx1 ctx1" using ctx_frame_refl [of ctx1] w1(1) by (simp add: codec_wf_def)
      then show ?thesis using that [OF if_not_P [OF False] _ cipher_frame_refl [OF w1(2)] refl refl] by simp
    qed
    have f2: "ctx_frame ctx ctx2" "cipher_frame (key_sz ctx) c c2"
      using ctx_frame_trans [OF 1(2) 2(2)] cipher_frame_trans [OF 1(3)] 2(3) by (simp_all add: k1)
    have k2: "key_sz ctx2 = key_sz ctx" using ctx_frame_fields [OF f2(1)] by simp
    show ?thesis
    proof (cases "rc2 = SQLITE_OK")
      case False
      then show ?thesis using derive_outcome_error [OF f2 assms(2) _ refl assms(4)] 1(4) 2(4) by (auto simp: derive_keys_def 1(1) 2(1) ok)
    next
      case True
      have b: "buf_ok (key_sz ctx2) (key c2)" "buf_ok (key_sz ctx2) (hmac_key c2)"
        using cipher_frame_wf(1) [OF f2(2) assms(2)] by (simp_all add: k2 cipher_wf_def)
      obtain k hk where s: "shield_buf w (key_sz ctx2) (key c2) = Some k" "same_buf (key_sz ctx2) (key c2) k"
        "shield_buf w (key_sz ctx2) (hmac_key c2) = Some hk" "same_buf (key_sz ctx2) (hmac_key c2) hk"
        using shield_buf_ok [OF b(1)] shield_buf_ok [OF b(2)] by metis
      let ?c = "c2\<lparr>key := k, hmac_key := hk, derive_key := 0\<rparr>"
      have "cipher_frame (key_sz ctx) c2 ?c" unfolding cipher_frame_def using s k2
        by (intro exI [of _ k] exI [of _ hk] exI [of _ 0]) simp
      then have "derive_outcome w ctx c SQLITE_OK ctx2 ?c" unfolding derive_outcome_def
        using f2(1) cipher_frame_trans [OF f2(2)] assms(5) 1(5) 2(5) by simp
      then show ?thesis using assms(4) by (simp add: derive_keys_def 1(1) 2(1) s ok True)
    qed
  qed
qed

lemma key_derive_ok:
  assumes "codec_wf ctx" "cipher_wf (key_sz ctx) c" "holds g R M w"
  obtains rc ctx' c' w' where "sqlcipher_cipher_ctx_key_derive ctx c w = Some (rc, ctx', c', w')"
    "derive_outcome w ctx c rc ctx' c'" "holds g R M w'"
proof (cases "pass c = None \<or> pass_sz c = 0")
  case True
  then have "pass c = None" using assms(2) by (cases "pass c") (auto simp: cipher_wf_def)
  then have "derive_outcome w ctx c SQLITE_ERROR ctx c" unfolding derive_outcome_def
    using ctx_frame_refl [of ctx] cipher_frame_refl [OF assms(2)] assms(1) by (simp add: codec_wf_def)
  then show ?thesis using True assms(3) by (intro that) (simp add: sqlcipher_cipher_ctx_key_derive_def)
next
  case False
  obtain rc ctx1 w1 where 1: "(if \<not> SQLCIPHER_FLAG_GET (flags ctx) CIPHER_FLAG_HAS_KDF_SALT
       then sqlcipher_codec_ctx_init_kdf_salt ctx w else Some (SQLITE_OK, ctx, w)) = Some (rc, ctx1, w1)"
     "ctx_frame ctx ctx1" "holds g R M w1" "w_heap w1 = w_heap w" "rc = SQLITE_OK \<longrightarrow> bit (flags ctx1) 4"
  proof (cases "bit (flags ctx) 4")
    case True
    then show ?thesis using that ctx_frame_refl [of ctx] assms(1,3) by (simp add: flag_get_bits codec_wf_def)
  next
    case False
    obtain rc ctx1 w1 where "sqlcipher_codec_ctx_init_kdf_salt ctx w = Some (rc, ctx1, w1)" "ctx_frame ctx ctx1" "holds g R M w1"
      "w_heap w1 = w_heap w" "rc = SQLITE_OK \<longrightarrow> bit (flags ctx1) 4" using init_kdf_salt_ok [OF assms(1,3)] by blast
    then show ?thesis using that False by (simp add: flag_get_bits)
  qed
  have k1: "key_sz ctx1 = key_sz ctx" using ctx_frame_fields [OF 1(2)] by simp
  have oc: "derive_outcome w ctx c rc' ctx' c'" if "derive_outcome w1 ctx1 c rc' ctx' c'" for rc' ctx' c'
    using that ctx_frame_trans [OF 1(2)] unfolding derive_outcome_def by (simp add: k1 1(4))
  show ?thesis
  proof (cases "rc = SQLITE_OK")
    case True
    obtain rc' ctx' c' w' where d: "derive_keys ctx1 c w1 = Some (rc', ctx', c', w')" "derive_outcome w1 ctx1 c rc' ctx' c'" "holds g R M w'"
      using derive_keys_ok [OF ctx_frame_wf [OF 1(2) assms(1)] _ _ 1(3), of c] assms(2) False 1(5) True k1 by auto
    have "sqlcipher_cipher_ctx_key_derive ctx c w = Some (rc', ctx', c', w')"
      unfolding sqlcipher_cipher_ctx_key_derive_def if_not_P [OF False] 1(1) using True d(1) by simp
    then show ?thesis using oc [OF d(2)] d(3) by (rule that)
  next
    case rc: False
    obtain c' w' where e: "derive_error ctx1 c w1 = Some (SQLITE_ERROR, ctx1, c', w')" "derive_outcome w ctx c SQLITE_ERROR ctx1 c'" "holds g R M w'"
      using derive_outcome_error [OF 1(2) cipher_frame_refl [OF assms(2)] assms(2) refl 1(4,3)] by blast
    have "sqlcipher_cipher_ctx_key_derive ctx c w = Some (SQLITE_ERROR, ctx1, c', w')"
      unfolding sqlcipher_cipher_ctx_key_derive_def if_not_P [OF False] 1(1) using rc e(1) by simp
    then show ?thesis using e(2,3) by (rule that)
  qed
qed

section \<open>Both contexts\<close>

definition same_settings :: "codec_ctx \<Rightarrow> codec_ctx \<Rightarrow> bool" where
  "same_settings ctx ctx' \<longleftrightarrow> (\<exists>fl s hs r t.
     ctx' = ctx\<lparr>flags := fl, kdf_salt := s, hmac_kdf_salt := hs, read_ctx := r, write_ctx := t\<rparr>
     \<and> (\<forall>i < 4. bit fl i = bit (flags ctx) i))"

definition agree :: "codec_ctx \<Rightarrow> bool" where
  "agree ctx \<longleftrightarrow> (\<exists>r t. read_ctx ctx = Some r \<and> write_ctx ctx = Some t \<and> same_material r t)"

lemma same_settingsI:
  "ctx' = ctx\<lparr>flags := fl, kdf_salt := s, hmac_kdf_salt := hs, read_ctx := r, write_ctx := t\<rparr> \<Longrightarrow>
   (\<forall>i < 4. bit fl i = bit (flags ctx) i) \<Longrightarrow> same_settings ctx ctx'"
  unfolding same_settings_def by (intro exI conjI)

lemma same_settingsE:
  assumes "same_settings ctx ctx'"
  obtains fl s hs r t where "ctx' = ctx\<lparr>flags := fl, kdf_salt := s, hmac_kdf_salt := hs, read_ctx := r, write_ctx := t\<rparr>"
    "\<forall>i < 4. bit fl i = bit (flags ctx) i"
  using assms unfolding same_settings_def by (elim exE conjE) (rule that)

lemma same_settings_refl: "same_settings ctx ctx"
  by (rule same_settingsI [where fl = "flags ctx" and s = "kdf_salt ctx" and hs = "hmac_kdf_salt ctx" and r = "read_ctx ctx" and t = "write_ctx ctx"]) simp_all

lemma same_settings_trans:
  assumes "same_settings a b" "same_settings b c"
  shows "same_settings a c"
proof -
  obtain fl s hs r t where b: "b = a\<lparr>flags := fl, kdf_salt := s, hmac_kdf_salt := hs, read_ctx := r, write_ctx := t\<rparr>"
    "\<forall>i < 4. bit fl i = bit (flags a) i" by (rule same_settingsE [OF assms(1)])
  obtain fl2 s2 hs2 r2 t2 where c: "c = b\<lparr>flags := fl2, kdf_salt := s2, hmac_kdf_salt := hs2, read_ctx := r2, write_ctx := t2\<rparr>"
    "\<forall>i < 4. bit fl2 i = bit (flags b) i" by (rule same_settingsE [OF assms(2)])
  show ?thesis
  proof (rule same_settingsI)
    show "c = a\<lparr>flags := fl2, kdf_salt := s2, hmac_kdf_salt := hs2, read_ctx := r2, write_ctx := t2\<rparr>" unfolding c(1) b(1) by simp
    show "\<forall>i < 4. bit fl2 i = bit (flags a) i" using b c(2) by simp
  qed
qed

lemma frame_same_settings:
  assumes "ctx_frame ctx ctx'"
  shows "same_settings ctx (ctx'\<lparr>read_ctx := r\<rparr>)" "same_settings ctx (ctx'\<lparr>write_ctx := r\<rparr>)"
proof -
  obtain s hs fl where c: "ctx' = ctx\<lparr>kdf_salt := s, hmac_kdf_salt := hs, flags := fl\<rparr>" "\<forall>i < 4. bit fl i = bit (flags ctx) i"
    by (rule ctx_frameE [OF assms])
  show "same_settings ctx (ctx'\<lparr>read_ctx := r\<rparr>)"
    by (rule same_settingsI [where fl = fl and s = s and hs = hs and r = r and t = "write_ctx ctx"]) (simp_all add: c)
  show "same_settings ctx (ctx'\<lparr>write_ctx := r\<rparr>)"
    by (rule same_settingsI [where fl = fl and s = s and hs = hs and r = "read_ctx ctx" and t = r]) (simp_all add: c)
qed

lemma same_settings_ciphers: "same_settings ctx (ctx\<lparr>read_ctx := r\<rparr>)" "same_settings ctx (ctx\<lparr>write_ctx := r\<rparr>)"
  by (rule same_settingsI [where fl = "flags ctx" and s = "kdf_salt ctx" and hs = "hmac_kdf_salt ctx" and r = r and t = "write_ctx ctx"], simp, simp)
     (rule same_settingsI [where fl = "flags ctx" and s = "kdf_salt ctx" and hs = "hmac_kdf_salt ctx" and r = "read_ctx ctx" and t = r], simp, simp)

lemma codec_wf_read: "codec_wf ctx \<Longrightarrow> cipher_wf (key_sz ctx) r \<Longrightarrow> codec_wf (ctx\<lparr>read_ctx := Some r\<rparr>)"
  by (auto simp: wf_defs)

lemma codec_wf_write: "codec_wf ctx \<Longrightarrow> cipher_wf (key_sz ctx) r \<Longrightarrow> codec_wf (ctx\<lparr>write_ctx := Some r\<rparr>)"
  by (auto simp: wf_defs)

lemma codec_wf_ciphers:
  assumes "codec_wf ctx"
  obtains r t where "read_ctx ctx = Some r" "write_ctx ctx = Some t" "cipher_wf (key_sz ctx) r" "cipher_wf (key_sz ctx) t"
  using assms unfolding codec_wf_def ciphers_wf_def by (elim exE conjE) (rule that)

lemma owned_read_update:
  "codec_owned (ctx\<lparr>read_ctx := Some r\<rparr>) = codec_owned (ctx\<lparr>read_ctx := None\<rparr>) + cipher_owned (key_sz ctx) (Some r)"
  by (simp add: codec_owned_def ac_simps)

lemma owned_write_update:
  "codec_owned (ctx\<lparr>write_ctx := Some r\<rparr>) = codec_owned (ctx\<lparr>write_ctx := None\<rparr>) + cipher_owned (key_sz ctx) (Some r)"
  by (simp add: codec_owned_def ac_simps)

text \<open>Deriving one of the two contexts in place.\<close>

lemma frame_owned_read:
  assumes "ctx_frame ctx ctx'" "cipher_frame (key_sz ctx) r r'" "read_ctx ctx = Some r" "cipher_wf (key_sz ctx) r"
  shows "codec_owned (ctx'\<lparr>read_ctx := Some r'\<rparr>) = codec_owned ctx"
proof -
  have k: "key_sz ctx' = key_sz ctx" "read_ctx ctx' = Some r" using ctx_frame_fields [OF assms(1)] assms(3) by simp_all
  show ?thesis using cipher_frame_wf(2) [OF assms(2,4)] ctx_frame_owned [OF assms(1)] codec_owned_read [OF k(2)]
    by (simp add: owned_read_update k)
qed

lemma frame_owned_write:
  assumes "ctx_frame ctx ctx'" "cipher_frame (key_sz ctx) r r'" "write_ctx ctx = Some r" "cipher_wf (key_sz ctx) r"
  shows "codec_owned (ctx'\<lparr>write_ctx := Some r'\<rparr>) = codec_owned ctx"
proof -
  have k: "key_sz ctx' = key_sz ctx" "write_ctx ctx' = Some r" using ctx_frame_fields [OF assms(1)] assms(3) by simp_all
  show ?thesis using cipher_frame_wf(2) [OF assms(2,4)] ctx_frame_owned [OF assms(1)] codec_owned_write [OF k(2)]
    by (simp add: owned_write_update k)
qed

definition read_done :: "codec_ctx \<Rightarrow> codec_ctx \<Rightarrow> bool" where
  "read_done ctx0 c \<longleftrightarrow> codec_wf c \<and> same_settings ctx0 c \<and> write_ctx c = write_ctx ctx0
     \<and> (\<exists>r0 r. read_ctx ctx0 = Some r0 \<and> read_ctx c = Some r \<and> derive_key r = 0 \<and> pass r = pass r0 \<and> pass_sz r = pass_sz r0
          \<and> (derive_key r0 = 0 \<longrightarrow> r = r0))"

lemma derive_read_triple: "triple g (\<lambda>c. c = ctx0 \<and> codec_wf c) derive_read (read_done ctx0)"
proof (rule tripleI)
  fix R M ctx w assume c: "ctx = ctx0 \<and> codec_wf ctx" and h: "holds g R (M + codec_owned ctx) w"
  have wf: "codec_wf ctx" and ctx0: "ctx0 = ctx" using c by blast+
  obtain r t where r: "read_ctx ctx = Some r" "cipher_wf (key_sz ctx) r" using codec_wf_ciphers [OF wf] by blast
  show "\<exists>rc ctx' w'. derive_read ctx w = Some (rc, ctx', w') \<and> holds g R (M + codec_owned ctx') w' \<and> (rc = SQLITE_OK \<longrightarrow> read_done ctx0 ctx')"
  proof (cases "derive_key r = 0")
    case True
    then show ?thesis using h r wf same_settings_refl by (auto simp: derive_read_def read_done_def ctx0)
  next
    case False
    obtain rc ctx' r' w' where d: "sqlcipher_cipher_ctx_key_derive ctx r w = Some (rc, ctx', r', w')"
      "derive_outcome w ctx r rc ctx' r'" "holds g R (M + codec_owned ctx) w'" by (rule key_derive_ok [OF wf r(2) h])
    have f: "ctx_frame ctx ctx'" "cipher_frame (key_sz ctx) r r'" using d(2) by (simp_all add: derive_outcome_def)
    note p = cipher_frame_wf [OF f(2) r(2)] and q = ctx_frame_fields [OF f(1)]
    let ?c = "ctx'\<lparr>read_ctx := Some r'\<rparr>"
    have "holds g R (M + codec_owned ?c) w'" using d(3) frame_owned_read [OF f r] by simp
    moreover have "read_done ctx0 ?c" if "rc = SQLITE_OK"
    proof -
      have "derive_key r' = 0" using d(2) that by (auto simp: derive_outcome_def)
      then show ?thesis using codec_wf_read [OF ctx_frame_wf [OF f(1) wf]] p q frame_same_settings [OF f(1)] r(1) False
        by (simp add: read_done_def ctx0)
    qed
    ultimately show ?thesis using d(1) r(1) False by (simp add: derive_read_def)
  qed
qed

lemma cmp_ok:
  assumes "cipher_wf k c1" "cipher_wf k c2"
  shows "\<exists>n. sqlcipher_cipher_ctx_cmp c1 c2 = Some n \<and>
    (contents (pass c1) = contents (pass c2) \<and> pass_sz c1 = pass_sz c2 \<longrightarrow> n = 0)"
proof (cases "pass c1"; cases "pass c2")
  fix x y assume xy: "pass c1 = Some x" "pass c2 = Some y"
  obtain a d b e where ab: "x = (a, d)" "y = (b, e)" by (cases x, cases y) blast
  then have "length d = nat (pass_sz c1)" "length e = nat (pass_sz c2)" using assms xy by (auto simp: cipher_wf_def)
  then show ?thesis using xy ab sqlcipher_memcmp_eq_0_iff [of "nat (pass_sz c1)" d e]
    by (auto simp: sqlcipher_cipher_ctx_cmp_def)
qed (use assms in \<open>auto simp: sqlcipher_cipher_ctx_cmp_def cipher_wf_def\<close>)

definition both_done :: "codec_ctx \<Rightarrow> codec_ctx \<Rightarrow> bool" where
  "both_done ctx0 c \<longleftrightarrow> codec_wf c \<and> same_settings ctx0 c \<and> (agree ctx0 \<longrightarrow> agree c)
     \<and> (\<exists>r t. read_ctx c = Some r \<and> write_ctx c = Some t \<and> derive_key r = 0 \<and> derive_key t = 0)"

lemma read_done_parts:
  assumes "read_done ctx0 c"
  obtains r0 r t where "codec_wf c" "same_settings ctx0 c" "read_ctx ctx0 = Some r0" "read_ctx c = Some r" "derive_key r = 0"
    "pass r = pass r0" "pass_sz r = pass_sz r0" "derive_key r0 = 0 \<longrightarrow> r = r0" "write_ctx ctx0 = Some t" "write_ctx c = Some t"
    "cipher_wf (key_sz c) r" "cipher_wf (key_sz c) t"
proof -
  obtain r0 r where "read_ctx ctx0 = Some r0" "read_ctx c = Some r" "derive_key r = 0" "pass r = pass r0" "pass_sz r = pass_sz r0"
    "derive_key r0 = 0 \<longrightarrow> r = r0" "codec_wf c" "same_settings ctx0 c" "write_ctx c = write_ctx ctx0"
    using assms unfolding read_done_def by (elim conjE exE) (rule that)
  moreover obtain r' t where "read_ctx c = Some r'" "write_ctx c = Some t" "cipher_wf (key_sz c) r'" "cipher_wf (key_sz c) t"
    by (rule codec_wf_ciphers [OF calculation(7)])
  ultimately show ?thesis by (intro that [of r0 r t]) simp_all
qed

lemma derive_write_triple: "triple g (read_done ctx0) derive_write (both_done ctx0)"
proof (rule tripleI)
  fix R M ctx w assume c: "read_done ctx0 ctx" and h: "holds g R (M + codec_owned ctx) w"
  obtain r0 r t where rt: "codec_wf ctx" "same_settings ctx0 ctx" "read_ctx ctx0 = Some r0" "read_ctx ctx = Some r" "derive_key r = 0"
    "pass r = pass r0" "pass_sz r = pass_sz r0" "derive_key r0 = 0 \<longrightarrow> r = r0" "write_ctx ctx0 = Some t" "write_ctx ctx = Some t"
    "cipher_wf (key_sz ctx) r" "cipher_wf (key_sz ctx) t" by (rule read_done_parts [OF c])
  have ag: "same_material r0 t" if "agree ctx0" using that rt by (simp add: agree_def)
  show "\<exists>rc ctx' w'. derive_write ctx w = Some (rc, ctx', w') \<and> holds g R (M + codec_owned ctx') w' \<and> (rc = SQLITE_OK \<longrightarrow> both_done ctx0 ctx')"
  proof (cases "derive_key t = 0")
    case True
    have "agree ctx" if "agree ctx0" using ag [OF that] rt True by (simp add: agree_def same_material_def)
    then have "both_done ctx0 ctx" using rt True by (simp add: both_done_def)
    then show ?thesis using rt True h by (simp add: derive_write_def)
  next
    case False
    obtain n where n: "sqlcipher_cipher_ctx_cmp t r = Some n" "contents (pass t) = contents (pass r) \<and> pass_sz t = pass_sz r \<longrightarrow> n = 0"
      using cmp_ok [OF rt(12,11)] by blast
    show ?thesis
    proof (cases "n = 0")
      case True
      let ?N = "M + codec_owned (ctx\<lparr>write_ctx := None\<rparr>)"
      have "holds g R (?N + cipher_owned (key_sz ctx) (Some t)) w" using h unfolding codec_owned_write [OF rt(10)] by (simp only: add.assoc)
      then obtain rc t' w' where t': "sqlcipher_cipher_ctx_copy ctx t r w = Some (rc, t', w')"
        "holds g R (?N + cipher_owned (key_sz ctx) (Some t')) w'" "rc = SQLITE_OK \<longrightarrow> cipher_wf (key_sz ctx) t' \<and> same_material r t'"
        using holds_copy [OF _ rt(12,11)] by metis
      have "holds g R (M + codec_owned (ctx\<lparr>write_ctx := Some t'\<rparr>)) w'" using t'(2) unfolding owned_write_update by (simp only: add.assoc)
      moreover have "both_done ctx0 (ctx\<lparr>write_ctx := Some t'\<rparr>)" if "rc = SQLITE_OK"
        using t'(3) that rt codec_wf_write [OF rt(1)] same_settings_trans [OF rt(2) same_settings_ciphers(2)]
        by (simp add: both_done_def agree_def same_material_def)
      ultimately show ?thesis using t'(1) n(1) True False rt by (simp add: derive_write_def)
    next
      case n0: False
      obtain rc ctx' t' w' where d: "sqlcipher_cipher_ctx_key_derive ctx t w = Some (rc, ctx', t', w')"
        "derive_outcome w ctx t rc ctx' t'" "holds g R (M + codec_owned ctx) w'" by (rule key_derive_ok [OF rt(1,12) h])
      have f: "ctx_frame ctx ctx'" "cipher_frame (key_sz ctx) t t'" using d(2) by (simp_all add: derive_outcome_def)
      note p = cipher_frame_wf [OF f(2) rt(12)] and q = ctx_frame_fields [OF f(1)]
      let ?c = "ctx'\<lparr>write_ctx := Some t'\<rparr>"
      have "holds g R (M + codec_owned ?c) w'" using d(3) frame_owned_write [OF f rt(10,12)] by simp
      moreover have "both_done ctx0 ?c" if "rc = SQLITE_OK"
      proof -
        have "derive_key t' = 0" using d(2) that by (auto simp: derive_outcome_def)
        moreover have "\<not> agree ctx0" using ag n(2) n0 rt(6,7) by (auto simp: same_material_def)
        ultimately show ?thesis using codec_wf_write [OF ctx_frame_wf [OF f(1) rt(1)]] p(1) q(1,2) rt(4,5)
            same_settings_trans [OF rt(2) frame_same_settings(2) [OF f(1)]] by (simp add: both_done_def)
      qed
      ultimately show ?thesis using d(1) n(1) n0 False rt by (simp add: derive_write_def)
    qed
  qed
qed

lemma holds_forget:
  assumes "holds g R (M + cipher_owned k (Some c)) w"
  obtains w' where "sqlcipher_cipher_ctx_set_pass c None 0 w = Some (SQLITE_OK, c\<lparr>pass := None, pass_sz := 0\<rparr>, w')"
    "holds g R (M + cipher_owned k (Some (c\<lparr>pass := None, pass_sz := 0\<rparr>))) w'"
proof -
  obtain w' where w: "buf_free (pass c) (pass_sz c) w = Some w'"
    "\<And>c'. c_addr c' = c_addr c \<Longrightarrow> ob k (key c') = ob k (key c) \<Longrightarrow> ob k (hmac_key c') = ob k (hmac_key c) \<Longrightarrow>
       pass c' = None \<Longrightarrow> holds g R (M + cipher_owned k (Some c')) w'" using holds_pass_free [OF assms] by blast
  then show ?thesis by (intro that [of w']) (simp_all add: sqlcipher_cipher_ctx_set_pass_def)
qed

definition derived :: "codec_ctx \<Rightarrow> codec_ctx \<Rightarrow> bool" where
  "derived ctx0 c \<longleftrightarrow> both_done ctx0 c
     \<and> (\<forall>x. store_pass ctx0 \<noteq> 1 \<and> (read_ctx c = Some x \<or> write_ctx c = Some x) \<longrightarrow> pass x = None \<and> pass_sz x = 0)"

lemma cipher_wf_forget: "cipher_wf k c \<Longrightarrow> cipher_wf k (c\<lparr>pass := None, pass_sz := 0\<rparr>)"
  by (simp add: cipher_wf_def)

lemma derive_forget_triple: "triple g (both_done ctx0) derive_forget (derived ctx0)"
proof (rule tripleI)
  fix R M ctx w assume c: "both_done ctx0 ctx" and h: "holds g R (M + codec_owned ctx) w"
  have wf: "codec_wf ctx" "same_settings ctx0 ctx" using c by (simp_all add: both_done_def)
  obtain r t where rt: "read_ctx ctx = Some r" "write_ctx ctx = Some t" "cipher_wf (key_sz ctx) r" "cipher_wf (key_sz ctx) t"
    by (rule codec_wf_ciphers [OF wf(1)])
  have sp: "store_pass ctx = store_pass ctx0" using wf(2) by (rule same_settingsE) simp
  show "\<exists>rc ctx' w'. derive_forget ctx w = Some (rc, ctx', w') \<and> holds g R (M + codec_owned ctx') w' \<and> (rc = SQLITE_OK \<longrightarrow> derived ctx0 ctx')"
  proof (cases "store_pass ctx = 1")
    case True
    then show ?thesis using h c sp by (simp add: derive_forget_def derived_def)
  next
    case False
    let ?r = "r\<lparr>pass := None, pass_sz := 0\<rparr>" and ?t = "t\<lparr>pass := None, pass_sz := 0\<rparr>"
    let ?c1 = "ctx\<lparr>read_ctx := Some ?r\<rparr>" and ?N = "M + codec_owned (ctx\<lparr>read_ctx := None\<rparr>)"
    let ?c2 = "?c1\<lparr>write_ctx := Some ?t\<rparr>" and ?L = "M + codec_owned (?c1\<lparr>write_ctx := None\<rparr>)"
    have "holds g R (?N + cipher_owned (key_sz ctx) (Some r)) w" using h unfolding codec_owned_read [OF rt(1)] by (simp only: add.assoc)
    from holds_forget [OF this] obtain w1 where w1: "sqlcipher_cipher_ctx_set_pass r None 0 w = Some (SQLITE_OK, ?r, w1)"
      "holds g R (?N + cipher_owned (key_sz ctx) (Some ?r)) w1" by blast
    have wr: "write_ctx ?c1 = Some t" using rt(2) by simp
    have "holds g R (M + codec_owned ?c1) w1" using w1(2) unfolding owned_read_update by (simp only: add.assoc)
    then have "holds g R (?L + cipher_owned (key_sz ?c1) (Some t)) w1" unfolding codec_owned_write [OF wr] by (simp only: add.assoc)
    from holds_forget [OF this] obtain w2 where w2: "sqlcipher_cipher_ctx_set_pass t None 0 w1 = Some (SQLITE_OK, ?t, w2)"
      "holds g R (?L + cipher_owned (key_sz ?c1) (Some ?t)) w2" by blast
    have "holds g R (M + codec_owned ?c2) w2" using w2(2) unfolding owned_write_update [where ctx = ?c1] by (simp only: add.assoc)
    moreover have "derived ctx0 ?c2"
    proof -
      have "codec_wf ?c2" using codec_wf_write [OF codec_wf_read [OF wf(1) cipher_wf_forget [OF rt(3)]]] cipher_wf_forget [OF rt(4)] by simp
      moreover have "same_settings ctx0 ?c2"
        by (rule same_settings_trans [OF same_settings_trans [OF wf(2) same_settings_ciphers(1)] same_settings_ciphers(2)])
      ultimately show ?thesis using c rt by (auto simp: derived_def both_done_def agree_def same_material_def)
    qed
    ultimately show ?thesis using False w1(1) w2(1) rt by (simp add: derive_forget_def)
  qed
qed

lemma codec_key_derive_triple: "triple g (\<lambda>c. c = ctx0 \<and> codec_wf c) sqlcipher_codec_key_derive (derived ctx0)"
  unfolding sqlcipher_codec_key_derive_def
  by (rule triple_cons [OF derive_read_triple triple_cons [OF derive_write_triple triple_cons [OF derive_forget_triple triple_nil]]])

section \<open>A context with its blocks\<close>

definition demo_blocks :: "(nat \<times> nat) list" where
  "demo_blocks = [(0, 128), (256, 16), (288, 16), (2048, 512), (4096, 32), (4160, 2), (4192, 2), (4224, 3), (8192, 32), (8256, 2), (8288, 2), (8320, 3)]"

definition demo_held :: world where
  "demo_held = demo_world\<lparr>w_heap := demo_heap\<lparr>private_heap := None, hp_blocks := (\<lambda>_. None), sys_live := map_of demo_blocks\<rparr>\<rparr>"

lemma demo_held_holds: "holds demo_held {} (codec_owned demo_codec) demo_held"
proof -
  let ?h = "w_heap demo_held"
  have d: "distinct (map fst demo_blocks)" by (simp add: demo_blocks_def)
  have "(\<forall>x \<in> set demo_blocks. 0 < snd x) \<and> (\<forall>x \<in> set demo_blocks. \<forall>y \<in> set demo_blocks. fst x \<noteq> fst y \<longrightarrow> apart x y)"
    by (simp add: demo_blocks_def apart_def)
  then have "sys_inv (map_of demo_blocks)" unfolding sys_inv_def map_of_eq_Some_iff [OF d] by auto
  then have i: "heap_inv ?h \<and> heap_view ?h = []"
    by (intro heap_inv_intro)
      (auto simp: heap_inv_of_def demo_held_def demo_world_def demo_heap_def sys_malloc_ok_def region_inv_def)
  have "{(p, t). map_of demo_blocks p = Some t} = set demo_blocks" using map_of_eq_Some_iff [OF d] by auto
  then have l: "live ?h = set demo_blocks" using i by (simp add: live_def) (simp add: demo_held_def)
  have "codec_owned demo_codec = mset demo_blocks"
    by (simp add: codec_owned_def demo_codec_def demo_cipher_def cipher_owned_def u64_size_def sizeof_codec_ctx_def sizeof_cipher_ctx_def demo_blocks_def)
  moreover have "owns (set demo_blocks) {} (mset demo_blocks)"
  proof -
    have "count (image_mset fst (mset demo_blocks)) p \<le> 1" for p
      using d by (simp add: distinct_count_atmost_1 flip: mset_map)
    then show ?thesis by (auto simp: owns_def)
  qed
  ultimately show ?thesis using i l unfolding holds_def
    by (intro exI [of _ ?h] exI [of _ "w_calls demo_held"]) simp
qed

section \<open>Properties\<close>

text \<open>
  C5: Deriving the keys of a codec on first use returns, keeps every block of memory accounted
  for, and when it succeeds leaves a well-formed context with the same settings in which
  neither cipher context still needs derivation, the two hold the same keys if they had the
  same passphrase, and the passphrases are gone unless they are to be stored.
\<close>

theorem codec_key_derive_outcome:
  assumes "codec_wf ctx" "holds g R (codec_owned ctx) w"
  shows "\<exists>rc ctx' w'. sqlcipher_codec_key_derive ctx w = Some (rc, ctx', w') \<and> holds g R (codec_owned ctx') w'
    \<and> (rc = SQLITE_OK \<longrightarrow> codec_wf ctx' \<and> same_settings ctx ctx' \<and> (agree ctx \<longrightarrow> agree ctx')
         \<and> (\<forall>x. read_ctx ctx' = Some x \<or> write_ctx ctx' = Some x \<longrightarrow>
               derive_key x = 0 \<and> (store_pass ctx \<noteq> 1 \<longrightarrow> pass x = None \<and> pass_sz x = 0)))"
proof -
  have "holds g R ({#} + codec_owned ctx) w" using assms(2) by simp
  from tripleD [OF codec_key_derive_triple [of g ctx] _ this] assms(1) obtain rc ctx' w' where
    d: "sqlcipher_codec_key_derive ctx w = Some (rc, ctx', w')" "holds g R ({#} + codec_owned ctx') w'"
      "rc = SQLITE_OK \<longrightarrow> derived ctx ctx'" by blast
  have "codec_wf ctx' \<and> same_settings ctx ctx' \<and> (agree ctx \<longrightarrow> agree ctx')
         \<and> (\<forall>x. read_ctx ctx' = Some x \<or> write_ctx ctx' = Some x \<longrightarrow>
               derive_key x = 0 \<and> (store_pass ctx \<noteq> 1 \<longrightarrow> pass x = None \<and> pass_sz x = 0))" if "derived ctx ctx'"
    using that by (auto simp: derived_def both_done_def)
  then show ?thesis using d by auto
qed

theorem codec_key_derive_outcome_witness:
  "\<exists>rc ctx' w'. sqlcipher_codec_key_derive demo_codec demo_held = Some (rc, ctx', w') \<and> (rc = SQLITE_OK \<longrightarrow> codec_wf ctx')"
  using codec_key_derive_outcome [OF demo_codec_wf demo_held_holds] by blast

text \<open>
  C8: When deriving from a passphrase fails, neither key keeps anything of what was computed:
  both are overwritten with output of the generator, and the context still needs derivation.
\<close>

theorem key_derive_failure_wipes:
  assumes "codec_wf ctx" "cipher_wf (key_sz ctx) c" "pass c \<noteq> None" "heap_inv (w_heap w)"
    "sqlcipher_cipher_ctx_key_derive ctx c w = Some (rc, ctx', c', w')" "rc \<noteq> SQLITE_OK"
  shows "rc = SQLITE_ERROR \<and> derive_key c' = derive_key c
    \<and> (\<exists>x1 x2. x1 = xoshiro_randomness (hp_rng_addr (w_heap w)) (hp_rng (w_heap w)) (nat (key_sz ctx))
         \<and> x2 = xoshiro_randomness (hp_rng_addr (w_heap w)) (snd x1) (nat (key_sz ctx))
         \<and> contents (key c') = Some (fst x1) \<and> contents (hmac_key c') = Some (fst x2))"
proof -
  have "holds w (live (w_heap w)) {#} w" unfolding holds_def using assms(4)
    by (intro exI [of _ "w_heap w"] exI [of _ "w_calls w"]) (simp add: owns_empty)
  from key_derive_ok [OF assms(1,2) this] assms(5) have "derive_outcome w ctx c rc ctx' c'" by (metis option.inject prod.inject)
  moreover have "c' = c \<longrightarrow> pass c' \<noteq> None" using assms(3) by simp
  ultimately show ?thesis using assms(3,6) unfolding derive_outcome_def Let_def by simp
qed

definition demo_weak_provider :: provider where
  "demo_weak_provider = demo_provider\<lparr>pv_kdf := (\<lambda>a pw salt i n. (1, replicate n 9))\<rparr>"

definition demo_weak_codec :: codec_ctx where
  "demo_weak_codec = demo_codec\<lparr>x_provider := Some demo_weak_provider, flags := SQLCIPHER_FLAG_SET DEFAULT_CIPHER_FLAGS CIPHER_FLAG_HAS_KDF_SALT\<rparr>"

lemma demo_weak_codec_wf: "codec_wf demo_weak_codec"
proof -
  have "provider_ok demo_weak_provider" using demo_provider_ok by (simp add: provider_ok_def demo_weak_provider_def)
  moreover have "reserve_for demo_weak_provider (SQLCIPHER_FLAG_SET DEFAULT_CIPHER_FLAGS CIPHER_FLAG_HAS_KDF_SALT) 2 = 6"
    by (simp add: reserve_for_def demo_weak_provider_def demo_provider_def DEFAULT_CIPHER_FLAGS_def bit_or_iff flag_simps)
  ultimately show ?thesis using demo_codec_wf
    by (auto simp: wf_defs demo_weak_codec_def demo_codec_def) (simp_all add: demo_weak_provider_def demo_provider_def)
qed

theorem key_derive_failure_wipes_witness:
  "\<exists>c' ctx' w'. sqlcipher_cipher_ctx_key_derive demo_weak_codec (demo_cipher 4096) demo_held = Some (SQLITE_ERROR, ctx', c', w')
     \<and> contents (key c') = Some (fst (xoshiro_randomness 0 \<lparr>xs0 = 1, xs1 = 0, xs2 = 0, xs3 = 0\<rparr> 2))"
proof -
  have c: "cipher_wf (key_sz demo_weak_codec) (demo_cipher 4096)" "pass (demo_cipher 4096) \<noteq> None"
    by (simp_all add: cipher_wf_def demo_cipher_def buf_ok_def demo_weak_codec_def demo_codec_def)
  have h: "heap_inv (w_heap demo_held)" using demo_held_holds by (rule holds_inv)
  obtain rc ctx' c' w' where d: "sqlcipher_cipher_ctx_key_derive demo_weak_codec (demo_cipher 4096) demo_held = Some (rc, ctx', c', w')"
    by (rule key_derive_ok [OF demo_weak_codec_wf c(1) demo_held_holds])
  have "rc = SQLITE_ERROR" using d
    by (auto simp: sqlcipher_cipher_ctx_key_derive_def derive_keys_def derive_main_key_def demo_weak_codec_def demo_codec_def demo_cipher_def
        demo_weak_provider_def flag_simps blob_format_def Let_def derive_error_def split: option.splits bind_splits prod.splits)
  with key_derive_failure_wipes [OF demo_weak_codec_wf c h d] d show ?thesis
    by (auto simp: demo_held_def demo_heap_def demo_weak_codec_def demo_codec_def)
qed

end
