(* ===== verification/SC_KeySpec.thy ===== *)
theory SC_KeySpec
  imports SC_KeyDerive
begin

text \<open>
  The key specification of a codec: the text that \<open>sqlcipher_cipher_ctx_get_keyspec\<close> hands out
  and that key derivation accepts as a raw key.
\<close>


section \<open>Key specifications\<close>

definition keyspec_text :: "world \<Rightarrow> codec_ctx \<Rightarrow> bytes \<Rightarrow> bytes \<Rightarrow> bytes \<Rightarrow> bytes" where
  "keyspec_text w ctx k hk salt = [0x78, 0x27] @ hex_string (plain_key w ctx k)
     @ (if SQLCIPHER_FLAG_GET (flags ctx) CIPHER_FLAG_HMAC then hex_string (plain_key w ctx hk) else [])
     @ hex_string salt @ [0x27]"

lemma length_plain_key [simp]: "length (plain_key w ctx k) = length k"
  by (simp add: plain_key_def)

lemma memcpy_fill:
  assumes "length h < m"
  shows "memcpy_at (pre @ replicate m 0) (length pre) (h @ [0]) = (pre @ h) @ replicate (m - length h) (0 :: byte)"
proof -
  have "replicate (m - length h) (0 :: byte) = 0 # replicate (m - Suc (length h)) 0"
    using assms by (metis Suc_diff_Suc replicate_Suc)
  then show ?thesis by (simp add: memcpy_at_def drop_append)
qed

lemma replicate_upd2: "2 \<le> n \<Longrightarrow> (replicate n x)[0 := a, Suc 0 := b] = [a, b] @ replicate (n - 2) x"
  by (cases n; cases "n - 1") simp_all

lemma bin2hex_fill:
  assumes "length x = n" "0 < n" "2 * n < m" "off = length pre"
  shows "cipher_bin2hex x n (pre @ replicate m 0) off = (pre @ hex_string x) @ replicate (m - 2 * n) 0"
  using assms memcpy_fill [of "hex_string x" m pre] by (simp add: cipher_bin2hex_eq)

lemma get_keyspec_eq:
  assumes "codec_wf ctx" "cipher_wf (key_sz ctx) c" "contents (key c) = Some k" "contents (hmac_key c) = Some hk"
    "contents (kdf_salt ctx) = Some salt" "buf_malloc sz w = Some (b, w')"
    and sz: "sz = int (length (keyspec_text w' ctx k hk salt))"
    and b: "b = None \<or> (\<exists>a. b = Some (a, replicate (nat sz) 0))"
  shows "sqlcipher_cipher_ctx_get_keyspec ctx c w = (case b of
       None \<Rightarrow> Some (SQLITE_NOMEM, None, 0, w')
     | Some (a, _) \<Rightarrow> Some (SQLITE_OK, Some (a, keyspec_text w' ctx k hk salt), sz, w'))"
proof -
  obtain p sa salt0 ha hs where p: "x_provider ctx = Some p" "provider_ok p" "0 < key_sz ctx" "kdf_salt_sz ctx = 16"
    "kdf_salt ctx = Some (sa, salt0)" "length salt0 = 16" "hmac_kdf_salt ctx = Some (ha, hs)" "length hs = 16"
    by (rule codec_wf_parts [OF assms(1)])
  obtain ka k0 ha0 hk0 where k: "key c = Some (ka, k0)" "hmac_key c = Some (ha0, hk0)" "length k0 = nat (key_sz ctx)" "length hk0 = nat (key_sz ctx)"
    by (rule cipher_wf_parts [OF assms(2)])
  have e: "k0 = k" "hk0 = hk" "salt0 = salt" using assms(3-5) k p by simp_all
  let ?hm = "SQLCIPHER_FLAG_GET (flags ctx) CIPHER_FLAG_HMAC" and ?n = "nat (key_sz ctx)"
  let ?pk = "plain_key w' ctx k" and ?ph = "plain_key w' ctx hk"
  have l: "length k = ?n" "length hk = ?n" "length salt = 16" "0 < ?n" "int ?n = key_sz ctx" using k p e by simp_all
  have sz': "sz = (if ?hm then (key_sz ctx + key_sz ctx + 16) * 2 + 3 else (key_sz ctx + 16) * 2 + 3)"
    using l by (simp add: sz keyspec_text_def)
  have nsz: "nat sz = (if ?hm then 4 * ?n + 35 else 2 * ?n + 35)" "nat (sz - 1) = nat sz - 1"
    unfolding sz nat_int by (simp add: keyspec_text_def l(1-3)) simp
  have pk: "sqlcipher_shield (shield_mask w') k ?n = ?pk" "sqlcipher_shield (shield_mask w') hk ?n = ?ph" by (simp_all add: plain_key_def)
  show ?thesis
  proof (cases b)
    case None
    show ?thesis unfolding sqlcipher_cipher_ctx_get_keyspec_def Let_def p(4) sz' [symmetric] assms(6) None by simp
  next
    case (Some x)
    then obtain a where x: "x = (a, replicate (nat sz) 0)" using b by auto
    have "2 \<le> nat sz" by (simp add: nsz(1))
    then have 0: "(replicate (nat sz) 0)[0 := 0x78, Suc 0 := 0x27] = [0x78, 0x27] @ replicate (nat sz - 2) (0 :: byte)"
      by (rule replicate_upd2)
    let ?h1 = "[0x78, 0x27] @ hex_string ?pk"
    have 1: "cipher_bin2hex ?pk ?n ([0x78, 0x27] @ replicate (nat sz - 2) 0) 2 = ?h1 @ replicate (nat sz - 2 - 2 * ?n) 0"
      by (rule bin2hex_fill) (simp_all add: l(1) p(3) nsz(1))
    define h2 where "h2 = (if ?hm then ?h1 @ hex_string ?ph else ?h1)"
    have 2: "(if ?hm then Some (cipher_bin2hex ?ph ?n (?h1 @ replicate (nat sz - 2 - 2 * ?n) 0) (2 + ?n * 2))
        else Some (?h1 @ replicate (nat sz - 2 - 2 * ?n) 0)) = Some (h2 @ replicate 33 0)"
    proof (cases ?hm)
      case True
      have "nat sz - 2 - 2 * ?n - 2 * ?n = 33" "2 * ?n < nat sz - 2 - 2 * ?n" using True by (simp_all add: nsz(1))
      then have "cipher_bin2hex ?ph ?n (?h1 @ replicate (nat sz - 2 - 2 * ?n) 0) (2 + ?n * 2) = (?h1 @ hex_string ?ph) @ replicate 33 0"
        using bin2hex_fill [of ?ph ?n "nat sz - 2 - 2 * ?n" "2 + ?n * 2" ?h1] l(1,2,4) by simp
      then show ?thesis by (simp only: True if_True h2_def)
    next
      case False
      have "nat sz - 2 - 2 * ?n = 33" using False by (simp add: nsz(1))
      then show ?thesis by (simp only: False if_False h2_def)
    qed
    have off: "(if ?hm then 2 + ?n * 2 + ?n * 2 else 2 + ?n * 2) = length h2" using l by (simp add: h2_def)
    have 3: "cipher_bin2hex salt 16 (h2 @ replicate 33 0) (length h2) = (h2 @ hex_string salt) @ [0]"
      using bin2hex_fill [of salt 16 33 "length h2" h2] l by simp
    have "nat (sz - 1) = length (h2 @ hex_string salt)" using l by (simp add: nsz h2_def)
    then have 4: "((h2 @ hex_string salt) @ [0])[nat (sz - 1) := 0x27] = keyspec_text w' ctx k hk salt"
      by (simp only: list_update_length) (simp add: h2_def keyspec_text_def)
    show ?thesis unfolding sqlcipher_cipher_ctx_get_keyspec_def Let_def p(4) sz' [symmetric] assms(6) Some x k(1,2) p(5) e pk
      by (simp only: Option.bind.simps option.case prod.case One_nat_def pk 0 1 2 off 3 4 nat_numeral)
  qed
qed

lemma blob_keyspec:
  assumes "0 < length k" "length ks = length [0x78, 0x27] + (length (hex_string k) + length rest) + 1"
    "ks = [0x78, 0x27] @ (hex_string k @ rest) @ [0x27]" "even (length rest)" "\<And>c. c \<in> set rest \<Longrightarrow> is_hex_char c"
  shows "blob_format ks (int (length ks))"
proof -
  let ?m = "length (hex_string k @ rest)"
  have "1 \<le> length k" using assms(1) by linarith
  then have l: "length ks = ?m + 3" "even ?m" "2 \<le> ?m" using assms(2,4) by (simp_all add: trans_le_add1)
  have "sqlite3_strnicmp (Some ks) (Some (str [CHR ''x'', CHR 0x27])) 2 = 0"
    by (simp add: sqlite3_strnicmp_def assms(3) str_def numeral_2_eq_2 hd0_def)
  moreover have "ks ! (length ks - 1) = 0x27" using assms(3) by (simp add: nth_append)
  moreover have "(int (length ks) - 3) smod 2 = 0" using l by (simp add: smod_nonneg)
  moreover have "cipher_isHex (drop 2 ks) ?m"
    using cipher_isHex_append [of "hex_string k @ rest" "[0x27]"] hex_string_is_hex assms(3,5) by auto
  moreover have "nat (int (length ks) - 1) = length ks - 1" "nat (int (length ks) - 3) = ?m" "5 \<le> int (length ks)" using l by simp_all
  ultimately show ?thesis unfolding blob_format_def by simp
qed


lemma buf_malloc_form:
  assumes "buf_malloc n w = Some (b, w')"
  shows "b = None \<or> (\<exists>a. b = Some (a, replicate (nat n) 0))" "shield_mask w' = shield_mask w"
proof -
  obtain r h where "sqlcipher_malloc (u64_size n) (w_heap w) = Some (r, h)" "b = map_option (\<lambda>p. (p, replicate (nat n) 0)) r" "w' = w\<lparr>w_heap := h\<rparr>"
    using assms unfolding buf_malloc_def w_malloc_def by (auto split: bind_splits)
  then show "b = None \<or> (\<exists>a. b = Some (a, replicate (nat n) 0))" "shield_mask w' = shield_mask w" by (cases r; simp)+
qed

lemma keyspec_result:
  assumes "codec_wf ctx" "cipher_wf (key_sz ctx) c" "contents (key c) = Some k" "contents (hmac_key c) = Some hk"
    "contents (kdf_salt ctx) = Some salt" "sqlcipher_cipher_ctx_get_keyspec ctx c w = Some (SQLITE_OK, Some (a, ks), n, w1)"
  shows "ks = keyspec_text w ctx k hk salt \<and> n = int (length ks)"
proof -
  let ?n = "int (length (keyspec_text w ctx k hk salt))"
  have kt: "keyspec_text v ctx k hk salt = keyspec_text w ctx k hk salt" if "shield_mask v = shield_mask w" for v
    using that by (simp add: keyspec_text_def plain_key_def)
  obtain p sa salt0 ha hs where p: "x_provider ctx = Some p" "provider_ok p" "0 < key_sz ctx" "kdf_salt_sz ctx = 16"
    "kdf_salt ctx = Some (sa, salt0)" "length salt0 = 16" "hmac_kdf_salt ctx = Some (ha, hs)" "length hs = 16"
    by (rule codec_wf_parts [OF assms(1)])
  have l: "length k = nat (key_sz ctx)" "length hk = nat (key_sz ctx)" "length salt = 16"
    using assms(2-5) p by (auto simp: cipher_wf_def buf_ok_def)
  have sz: "(if SQLCIPHER_FLAG_GET (flags ctx) CIPHER_FLAG_HMAC then (key_sz ctx + key_sz ctx + 16) * 2 + 3 else (key_sz ctx + 16) * 2 + 3) = ?n"
    using p(3) by (simp add: keyspec_text_def l)
  obtain b w' where b: "buf_malloc ?n w = Some (b, w')"
    using assms(6) unfolding sqlcipher_cipher_ctx_get_keyspec_def Let_def p(4) sz by (cases "buf_malloc ?n w") auto
  note bf = buf_malloc_form [OF b]
  show ?thesis using get_keyspec_eq [OF assms(1-5) b _ bf(1)] assms(6) kt [OF bf(2)] by (auto split: option.splits)
qed

lemma init_kdf_salt_success:
  assumes "codec_wf ctx" "holds g R M w" "x_provider ctx = Some p"
    "SQLCIPHER_FLAG_GET (flags ctx) CIPHER_FLAG_HAS_KDF_SALT \<or> (\<forall>k n. fst (pv_random p k n) = SQLITE_OK)"
  obtains ctx' w' where "(if \<not> SQLCIPHER_FLAG_GET (flags ctx) CIPHER_FLAG_HAS_KDF_SALT then sqlcipher_codec_ctx_init_kdf_salt ctx w
      else Some (SQLITE_OK, ctx, w)) = Some (SQLITE_OK, ctx', w')" "ctx_frame ctx ctx'" "shield_mask w' = shield_mask w"
proof (cases "SQLCIPHER_FLAG_GET (flags ctx) CIPHER_FLAG_HAS_KDF_SALT")
  case True
  have "ctx_frame ctx ctx" using ctx_frame_refl [of ctx] assms(1) by (simp add: codec_wf_def)
  with True show ?thesis using that by simp
next
  case False
  obtain rc ctx' w' where i: "sqlcipher_codec_ctx_init_kdf_salt ctx w = Some (rc, ctx', w')" "ctx_frame ctx ctx'" "holds g R M w'"
    "w_heap w' = w_heap w" "rc = SQLITE_OK \<or> rc = SQLITE_ERROR" "rc = SQLITE_OK \<longrightarrow> bit (flags ctx') 4" by (rule init_kdf_salt_ok [OF assms(1,2)])
  have r: "fst (pv_random p k n) = SQLITE_OK" for k n using assms(4) False by blast
  have "rc = SQLITE_OK" using i(1) False assms(3) r unfolding sqlcipher_codec_ctx_init_kdf_salt_def Let_def split_beta
    by (auto split: if_splits bind_splits)
  moreover have "shield_mask w' = shield_mask w" using holds_global [OF assms(2)] holds_global [OF i(3)] by simp
  ultimately show ?thesis using that i(1,2) False by simp
qed

text \<open>Derivation from a key specification on a context that has its salt.\<close>

lemma derive_from_keyspec:
  assumes "codec_wf ctx" "cipher_wf (key_sz ctx) c" "pass c = Some (pa, ks)" "pass_sz c = int (length ks)"
    and ks: "ks = keyspec_text w ctx k hk salt"
    and l: "length k = nat (key_sz ctx)" "length hk = nat (key_sz ctx)" "length salt = 16"
  shows "\<exists>ctx' c'. derive_keys ctx c w = Some (SQLITE_OK, ctx', c', w) \<and> contents (key c') = Some k
     \<and> contents (kdf_salt ctx') = Some salt
     \<and> (SQLCIPHER_FLAG_GET (flags ctx) CIPHER_FLAG_HMAC \<longrightarrow> contents (hmac_key c') = Some hk)"
proof -
  obtain p sa salt0 ha hs where p: "x_provider ctx = Some p" "provider_ok p" "0 < key_sz ctx" "kdf_salt_sz ctx = 16"
    "kdf_salt ctx = Some (sa, salt0)" "length salt0 = 16" "hmac_kdf_salt ctx = Some (ha, hs)" "length hs = 16"
    by (rule codec_wf_parts [OF assms(1)])
  obtain ka k0 ha0 hk0 where k: "key c = Some (ka, k0)" "hmac_key c = Some (ha0, hk0)" "length k0 = nat (key_sz ctx)" "length hk0 = nat (key_sz ctx)"
    by (rule cipher_wf_parts [OF assms(2)])
  let ?hm = "SQLCIPHER_FLAG_GET (flags ctx) CIPHER_FLAG_HMAC" and ?K = "nat (key_sz ctx * 2)"
  let ?rest = "(if ?hm then hex_string (plain_key w ctx hk) else []) @ hex_string salt"
  have K: "?K = 2 * length (plain_key w ctx k)" "?K = 2 * length (plain_key w ctx hk)" using l p(3) by simp_all
  have d2: "drop 2 ks = hex_string (plain_key w ctx k) @ ?rest @ [0x27]" by (simp add: ks keyspec_text_def)
  have blob: "blob_format ks (pass_sz c)" unfolding assms(4)
    by (rule blob_keyspec [of "plain_key w ctx k" _ ?rest]) (use p(3) l hex_string_is_hex in \<open>auto simp: ks keyspec_text_def split: if_splits\<close>)
  have sz: "pass_sz c = (if ?hm then key_sz ctx * 2 + key_sz ctx * 2 + 32 + 3 else key_sz ctx * 2 + 32 + 3)"
    unfolding assms(4) ks using p(3) by (simp add: keyspec_text_def l)
  have hk: "cipher_hex2bin (drop 2 ks) ?K = plain_key w ctx k" unfolding d2 by (rule cipher_hex2bin_hex_string [OF K(1)])
  have sh: "sqlcipher_shield (shield_mask w) (plain_key w ctx x) (nat (key_sz ctx)) = x" if "length x = nat (key_sz ctx)" for x
    using that by (simp add: plain_key_def)
  note run = derive_main_key_eq [OF p(1-6) assms(3) k refl refl]
  have drops: "drop ?K (drop 2 ks) = ?rest @ [0x27]" unfolding d2 using K(1) by simp
  show ?thesis
  proof (cases ?hm)
    case True
    have "drop (?K + ?K) (drop 2 ks) = drop ?K (drop ?K (drop 2 ks))" by (simp only: drop_drop ac_simps)
    also have "\<dots> = hex_string salt @ [0x27]" unfolding drops using True K(2) by simp
    finally have s: "cipher_hex2bin (drop (?K + ?K) (drop 2 ks)) 32 = salt" using l(3) cipher_hex2bin_hex_string [of 32 salt "[0x27]"] by simp
    have s2: "cipher_hex2bin (drop ?K (drop 2 ks)) ?K = plain_key w ctx hk"
      unfolding drops using True cipher_hex2bin_hex_string [OF K(2), of "hex_string salt @ [0x27]"] by simp
    have "derive_main_key ctx c = Some (SQLITE_OK, False, ctx\<lparr>kdf_salt := Some (sa, salt)\<rparr>,
        c\<lparr>key := Some (ka, plain_key w ctx k), hmac_key := Some (ha0, plain_key w ctx hk)\<rparr>)"
      unfolding run hk s s2 using blob p(3) by (simp add: sz True)
    then show ?thesis using True l sh by (simp add: derive_keys_def shield_buf_def)
  next
    case False
    have s: "cipher_hex2bin (drop ?K (drop 2 ks)) 32 = salt"
      using drops False l(3) cipher_hex2bin_hex_string [of 32 salt "[0x27]"] by simp
    have "derive_main_key ctx c = Some (SQLITE_OK, True, ctx\<lparr>kdf_salt := Some (sa, salt)\<rparr>, c\<lparr>key := Some (ka, plain_key w ctx k)\<rparr>)"
      unfolding run hk s using blob by (simp add: sz False)
    then show ?thesis using False l sh k by (simp add: derive_keys_def shield_buf_def)
  qed
qed

text \<open>
  C6: A key specification is a faithful copy of a codec's keys: given to another context with
  the same sizes and HMAC setting as its passphrase, derivation succeeds and restores the
  encryption key, the salt and, with HMAC, the HMAC key.
\<close>

theorem keyspec_roundtrip:
  assumes "codec_wf ctx" "cipher_wf (key_sz ctx) c"
    "sqlcipher_cipher_ctx_get_keyspec ctx c w = Some (SQLITE_OK, Some (a, ks), n, w1)"
    and "codec_wf ctx2" "cipher_wf (key_sz ctx2) c2" "key_sz ctx2 = key_sz ctx"
    "SQLCIPHER_FLAG_GET (flags ctx2) CIPHER_FLAG_HMAC = SQLCIPHER_FLAG_GET (flags ctx) CIPHER_FLAG_HMAC"
    "shield_mask w2 = shield_mask w" "heap_inv (w_heap w2)"
    and "contents (pass c2) = Some ks" "pass_sz c2 = n"
    and "x_provider ctx2 = Some p"
    "SQLCIPHER_FLAG_GET (flags ctx2) CIPHER_FLAG_HAS_KDF_SALT \<or> (\<forall>k n. fst (pv_random p k n) = SQLITE_OK)"
  shows "\<exists>ctx' c' w'. sqlcipher_cipher_ctx_key_derive ctx2 c2 w2 = Some (SQLITE_OK, ctx', c', w')
    \<and> contents (key c') = contents (key c) \<and> contents (kdf_salt ctx') = contents (kdf_salt ctx)
    \<and> (SQLCIPHER_FLAG_GET (flags ctx) CIPHER_FLAG_HMAC \<longrightarrow> contents (hmac_key c') = contents (hmac_key c))"
proof -
  obtain p0 sa salt ha hs where p: "x_provider ctx = Some p0" "provider_ok p0" "0 < key_sz ctx" "kdf_salt_sz ctx = 16"
    "kdf_salt ctx = Some (sa, salt)" "length salt = 16" "hmac_kdf_salt ctx = Some (ha, hs)" "length hs = 16"
    by (rule codec_wf_parts [OF assms(1)])
  obtain ka k ha0 hk where k: "key c = Some (ka, k)" "hmac_key c = Some (ha0, hk)" "length k = nat (key_sz ctx)" "length hk = nat (key_sz ctx)"
    by (rule cipher_wf_parts [OF assms(2)])
  have ks: "ks = keyspec_text w ctx k hk salt" "n = int (length ks)"
    using keyspec_result [OF assms(1,2) _ _ _ assms(3), of k hk salt] k p by simp_all
  have h: "holds w2 (live (w_heap w2)) {#} w2" unfolding holds_def using assms(9)
    by (intro exI [of _ "w_heap w2"] exI [of _ "w_calls w2"]) (simp add: owns_empty)
  obtain ctx3 w3 where i: "(if \<not> SQLCIPHER_FLAG_GET (flags ctx2) CIPHER_FLAG_HAS_KDF_SALT then sqlcipher_codec_ctx_init_kdf_salt ctx2 w2
      else Some (SQLITE_OK, ctx2, w2)) = Some (SQLITE_OK, ctx3, w3)" "ctx_frame ctx2 ctx3" "shield_mask w3 = shield_mask w2"
    by (rule init_kdf_salt_success [OF assms(4) h assms(12,13)])
  have k3: "key_sz ctx3 = key_sz ctx" "cipher_wf (key_sz ctx3) c2" using ctx_frame_fields(1) [OF i(2)] assms(5,6) by simp_all
  have f3: "SQLCIPHER_FLAG_GET (flags ctx3) CIPHER_FLAG_HMAC = SQLCIPHER_FLAG_GET (flags ctx) CIPHER_FLAG_HMAC"
    using i(2) by (rule ctx_frameE) (use assms(7) in \<open>simp add: flag_hmac_bit\<close>)
  obtain pa where pa: "pass c2 = Some (pa, ks)" using assms(10) by (cases "pass c2") auto
  have "keyspec_text w3 ctx3 k hk salt = ks" unfolding ks(1) using k3(1) f3 i(3) assms(8) by (simp add: keyspec_text_def plain_key_def)
  from derive_from_keyspec [OF ctx_frame_wf [OF i(2) assms(4)] k3(2) pa _ this [symmetric]] ks(2) assms(11) k(3,4) p(6) k3(1)
  obtain ctx' c' where d: "derive_keys ctx3 c2 w3 = Some (SQLITE_OK, ctx', c', w3)" "contents (key c') = Some k"
    "contents (kdf_salt ctx') = Some salt" "SQLCIPHER_FLAG_GET (flags ctx3) CIPHER_FLAG_HMAC \<longrightarrow> contents (hmac_key c') = Some hk" by auto
  have "pass_sz c2 \<noteq> 0" using assms(5) pa by (auto simp: cipher_wf_def)
  then have "sqlcipher_cipher_ctx_key_derive ctx2 c2 w2 = Some (SQLITE_OK, ctx', c', w3)"
    using pa d(1) i(1) by (simp add: sqlcipher_cipher_ctx_key_derive_def)
  then show ?thesis using d(2-4) f3 k p by simp
qed

definition demo_keyspec :: bytes where
  "demo_keyspec = keyspec_text demo_world demo_codec [0, 0] [0, 0] (replicate 16 7)"

definition demo_keyed_cipher :: cipher_ctx where
  "demo_keyed_cipher = (demo_cipher 4096)\<lparr>pass := Some (4224, demo_keyspec), pass_sz := 43\<rparr>"

lemma length_demo_keyspec: "length demo_keyspec = 43"
  by (simp add: demo_keyspec_def keyspec_text_def demo_codec_def DEFAULT_CIPHER_FLAGS_def bit_or_iff flag_simps)

theorem keyspec_roundtrip_witness:
  "\<exists>ctx' c' w'. sqlcipher_cipher_ctx_key_derive demo_codec demo_keyed_cipher demo_held = Some (SQLITE_OK, ctx', c', w')
     \<and> contents (key c') = Some [0, 0]"
proof -
  have c: "cipher_wf (key_sz demo_codec) (demo_cipher 4096)" "cipher_wf (key_sz demo_codec) demo_keyed_cipher"
    by (simp_all add: cipher_wf_def demo_cipher_def demo_keyed_cipher_def buf_ok_def demo_codec_def length_demo_keyspec)
  obtain h where m: "buf_malloc 43 demo_world = Some (Some (1040, replicate 43 0), demo_world\<lparr>w_heap := h\<rparr>)"
    by (auto simp: buf_malloc_def w_malloc_def demo_world_def u64_size_def sqlcipher_malloc_def demo_heap_def SQLITE_MAX_LENGTH_def
      SQLCIPHER_PRIVATE_HEAP_ROUNDUP_def SQLCIPHER_PRIVATE_HEAP_ALIGNMENT_def sizeof_private_block_def malloc_find.simps Let_def)
  have kt: "keyspec_text (demo_world\<lparr>w_heap := h\<rparr>) demo_codec [0, 0] [0, 0] (replicate 16 7) = demo_keyspec"
    by (simp add: demo_keyspec_def keyspec_text_def plain_key_def)
  have k: "contents (key (demo_cipher 4096)) = Some [0, 0]" "contents (hmac_key (demo_cipher 4096)) = Some [0, 0]"
    "contents (kdf_salt demo_codec) = Some (replicate 16 7)" by (simp_all add: demo_cipher_def demo_codec_def)
  have "sqlcipher_cipher_ctx_get_keyspec demo_codec (demo_cipher 4096) demo_world
      = Some (SQLITE_OK, Some (1040, demo_keyspec), 43, demo_world\<lparr>w_heap := h\<rparr>)"
    using get_keyspec_eq [OF demo_codec_wf c(1) k m] by (simp add: kt length_demo_keyspec)
  note r = keyspec_roundtrip [OF demo_codec_wf c(1) this demo_codec_wf c(2) refl refl, of demo_held demo_provider]
  have "shield_mask demo_held = shield_mask demo_world" "contents (pass demo_keyed_cipher) = Some demo_keyspec"
    "pass_sz demo_keyed_cipher = 43" "x_provider demo_codec = Some demo_provider" "\<forall>k n. fst (pv_random demo_provider k n) = SQLITE_OK"
    by (simp_all add: demo_held_def demo_keyed_cipher_def demo_codec_def demo_provider_def)
  then show ?thesis using r holds_inv [OF demo_held_holds] k by simp blast
qed

end
