(* ===== verification/SC_Codec.thy ===== *)
theory SC_Codec
  imports SC_KeyDerive
begin

unbundle bit_operations_syntax

text \<open>
  The codec callback of src/src/sqlcipher.c that the pager calls for every page it reads or
  writes, and the release of a codec context.

  The page of the pager is \<open>data\<close>; the callback returns NULL, the page itself, or the context's
  own page buffer. The shared-cache mutex makes a call one step, and the failures that are
  simulated in test builds (\<open>SQLCIPHER_TEST\<close>) are left out. A copy or wipe outside a buffer has
  no result.
\<close>

section \<open>Definitions\<close>

definition CODEC_READ_OP :: int where "CODEC_READ_OP = 3"
definition CODEC_WRITE_OP :: int where "CODEC_WRITE_OP = 6"
definition CODEC_JOURNAL_OP :: int where "CODEC_JOURNAL_OP = 7"

definition SQLITE_FILE_HEADER :: bytes where
  "SQLITE_FILE_HEADER = str ''SQLite format 3'' @ [0]"

datatype codec_ret = Ret_NULL | Ret_pData | Ret_buffer

definition codec_offset :: "codec_ctx \<Rightarrow> u32 \<Rightarrow> int" where
  "codec_offset ctx pgno =
     (if pgno = 1 then (if plaintext_header_sz ctx \<noteq> 0 then plaintext_header_sz ctx else FILE_HEADER_SZ) else 0)"

text \<open>The buffers hold a page, and the header that is skipped lies inside it.\<close>

definition codec_room :: "codec_ctx \<Rightarrow> int \<Rightarrow> bytes \<Rightarrow> bytes \<Rightarrow> bool" where
  "codec_room ctx offset buf data \<longleftrightarrow>
     0 \<le> offset \<and> offset \<le> page_sz ctx \<and> page_sz ctx \<le> int (length buf) \<and> page_sz ctx \<le> int (length data)"

type_synonym codec_result = "(codec_ret \<times> bytes \<times> codec_ctx \<times> world) option"

definition codec_decrypt :: "codec_ctx \<Rightarrow> bytes \<Rightarrow> u32 \<Rightarrow> world \<Rightarrow> codec_result" where
  "codec_decrypt ctx data pgno w = do {
     (a, buf) \<leftarrow> buffer ctx;
     let offset = codec_offset ctx pgno;
     let off = nat offset;
     if \<not> codec_room ctx offset buf data then None
     else do {
       let buf = (if pgno = 1
                  then memcpy_at buf 0 (take off (if plaintext_header_sz ctx \<noteq> 0 then data else SQLITE_FILE_HEADER))
                  else buf);
       (rc, out, w) \<leftarrow> sqlcipher_page_cipher ctx CIPHER_READ_CTX pgno SQLCIPHER_DECRYPT (page_sz ctx - offset)
                        (drop off data) (drop off buf) w;
       let out = (if rc \<noteq> SQLITE_OK then sqlcipher_memset out 0 (nat (page_sz ctx - offset)) else out);
       let buf = take off buf @ out;
       let recovery = (plaintext_header_sz ctx = page_sz ctx - reserve_sz ctx);
       let data = memcpy_at data 0 (take (nat (page_sz ctx)) buf);
       let ctx = ctx\<lparr>buffer := Some (a, buf)\<rparr>;
       Some (Ret_pData, data,
             if rc = SQLITE_OK then ctx\<lparr>flags := SQLCIPHER_FLAG_SET (flags ctx) CIPHER_FLAG_KEY_USED\<rparr>
             else if recovery then ctx else sqlcipher_codec_ctx_set_error ctx rc, w) } }"

definition codec_encrypt :: "codec_ctx \<Rightarrow> int \<Rightarrow> bytes \<Rightarrow> u32 \<Rightarrow> world \<Rightarrow> codec_result" where
  "codec_encrypt ctx cctx data pgno w = do {
     (rc, salt, ctx, w) \<leftarrow> (if pgno = 1 then sqlcipher_codec_ctx_get_kdf_salt ctx w else Some (SQLITE_OK, None, ctx, w));
     if rc \<noteq> SQLITE_OK then Some (Ret_NULL, data, sqlcipher_codec_ctx_set_error ctx rc, w)
     else do {
       (a, buf) \<leftarrow> buffer ctx;
       let offset = codec_offset ctx pgno;
       let off = nat offset;
       if \<not> codec_room ctx offset buf data then None
       else do {
         head \<leftarrow> (if pgno = 1
                 then (if plaintext_header_sz ctx \<noteq> 0 then Some (take off data) else map_option (take off \<circ> snd) salt)
                 else Some []);
         let buf = memcpy_at buf 0 head;
         (rc, out, w) \<leftarrow> sqlcipher_page_cipher ctx cctx pgno SQLCIPHER_ENCRYPT (page_sz ctx - offset)
                          (drop off data) (drop off buf) w;
         if rc \<noteq> SQLITE_OK then do {
           let buf = take off buf @ sqlcipher_memset out 0 (nat (page_sz ctx - offset));
           Some (Ret_NULL, data, sqlcipher_codec_ctx_set_error (ctx\<lparr>buffer := Some (a, buf)\<rparr>) rc, w) }
         else
           Some (Ret_buffer, data, ctx\<lparr>buffer := Some (a, take off buf @ out),
                                       flags := SQLCIPHER_FLAG_SET (flags ctx) CIPHER_FLAG_KEY_USED\<rparr>, w) } } }"

definition sqlite3Codec :: "codec_ctx \<Rightarrow> bytes \<Rightarrow> u32 \<Rightarrow> int \<Rightarrow> world \<Rightarrow> codec_result" where
  "sqlite3Codec ctx data pgno mode w =
     (if x_error ctx \<noteq> SQLITE_OK then do {
        let ctx = sqlcipher_codec_ctx_set_error ctx (x_error ctx);
        if mode = CODEC_READ_OP then
          (if page_sz ctx < 0 \<or> int (length data) < page_sz ctx then None
           else Some (Ret_pData, sqlcipher_memset data 0 (nat (page_sz ctx)), ctx, w))
        else Some (Ret_NULL, data, ctx, w) }
      else do {
        (rc, ctx, w) \<leftarrow> sqlcipher_codec_key_derive ctx w;
        if rc \<noteq> SQLITE_OK then Some (Ret_NULL, data, sqlcipher_codec_ctx_set_error ctx rc, w)
        else if plaintext_header_sz ctx < 0 then Some (Ret_NULL, data, sqlcipher_codec_ctx_set_error ctx SQLITE_ERROR, w)
        else if mode = CODEC_READ_OP then codec_decrypt ctx data pgno w
        else if mode = CODEC_WRITE_OP then codec_encrypt ctx CIPHER_WRITE_CTX data pgno w
        else if mode = CODEC_JOURNAL_OP then codec_encrypt ctx CIPHER_READ_CTX data pgno w
        else Some (Ret_pData, data, sqlcipher_codec_ctx_set_error ctx SQLITE_ERROR, w) })"

definition sqlite3FreeCodecArg :: "codec_ctx option \<Rightarrow> world \<Rightarrow> world option" where
  "sqlite3FreeCodecArg arg w = (case arg of None \<Rightarrow> Some w | Some ctx \<Rightarrow> sqlcipher_codec_ctx_free ctx w)"

section \<open>The fields the page cipher reads\<close>

lemma page_cipher_cong:
  assumes "\<forall>i < 3. bit fl i = bit (flags ctx) i"
  shows "sqlcipher_page_cipher (ctx\<lparr>buffer := b, flags := fl\<rparr>) f pgno mode psz inp out w =
    sqlcipher_page_cipher ctx f pgno mode psz inp out w"
proof -
  have f: "SQLCIPHER_FLAG_GET fl CIPHER_FLAG_HMAC = SQLCIPHER_FLAG_GET (flags ctx) CIPHER_FLAG_HMAC"
    "pgno_raw fl pgno = pgno_raw (flags ctx) pgno"
    using assms by (simp_all add: flag_get_bits pgno_raw_def)
  let ?c = "ctx\<lparr>buffer := b, flags := fl\<rparr>"
  have s: "x_provider ?c = x_provider ctx" "key_sz ?c = key_sz ctx" "hmac_algorithm ?c = hmac_algorithm ctx" "flags ?c = fl"
    "reserve_sz ?c = reserve_sz ctx" "iv_sz ?c = iv_sz ctx" "hmac_sz ?c = hmac_sz ctx" "pBt ?c = pBt ctx"
    "read_ctx ?c = read_ctx ctx" "write_ctx ?c = write_ctx ctx" by simp_all
  have h: "sqlcipher_page_hmac v ?c c pgno x n = sqlcipher_page_hmac v ctx c pgno x n" for v c x n
    unfolding sqlcipher_page_hmac_def s f ..
  have "page_check_hmac ?c c pgno n x y v = page_check_hmac ctx c pgno n x y v"
    "page_run_cipher ?c c m n x y v = page_run_cipher ctx c m n x y v" for c m n x y v
    unfolding page_check_hmac_def page_run_cipher_def s f h by (rule refl)+
  note r = this
  show ?thesis unfolding sqlcipher_page_cipher_def s f h r by (rule refl)
qed

definition calls_only :: "world \<Rightarrow> ('a \<times> 'b \<times> world) option \<Rightarrow> bool" where
  "calls_only w r \<longleftrightarrow> (\<forall>a b w'. r = Some (a, b, w') \<longrightarrow> (\<exists>k. w' = w\<lparr>w_calls := k\<rparr>))"

lemma calls_only_intros:
  "calls_only w None" "calls_only w (Some (a, b, w))" "calls_only w (Some (a, b, w\<lparr>w_calls := n\<rparr>))"
  "calls_only w (page_error psz out w)" "calls_only w (page_error psz out (w\<lparr>w_calls := n\<rparr>))"
  "calls_only w x \<Longrightarrow> calls_only w y \<Longrightarrow> calls_only w (if c then x else y)"
  "(\<And>x. calls_only w (f x)) \<Longrightarrow> calls_only w (m \<bind> f)"
  "(\<And>x y. calls_only w (g x y)) \<Longrightarrow> calls_only w (case p of (x, y) \<Rightarrow> g x y)"
  "(\<And>x. calls_only w (l x)) \<Longrightarrow> (\<And>x. calls_only w (r x)) \<Longrightarrow> calls_only w (case s of Inl x \<Rightarrow> l x | Inr x \<Rightarrow> r x)"
proof -
  have "w = w\<lparr>w_calls := w_calls w\<rparr>" by simp
  then have w: "\<exists>k. w = w\<lparr>w_calls := k\<rparr>" by (rule exI)
  show "calls_only w None" "calls_only w (Some (a, b, w))" "calls_only w (Some (a, b, w\<lparr>w_calls := n\<rparr>))"
    "calls_only w (page_error psz out w)" "calls_only w (page_error psz out (w\<lparr>w_calls := n\<rparr>))"
    using w by (auto simp: calls_only_def page_error_def)
qed (auto simp: calls_only_def bind_eq_Some_conv split: prod.splits sum.splits)

lemma page_cipher_world: "calls_only w (sqlcipher_page_cipher ctx f pgno mode psz inp out w)"
  unfolding sqlcipher_page_cipher_def Let_def by (intro calls_only_intros)

lemma page_format_length:
  assumes "page_params ctx c psz p S Z I H k hk" "length ct = S" "length rnd = Z"
  shows "length (page_format w ctx p hk pgno I ct rnd) = S + Z"
proof -
  have m: "length (snd (mac_of w ctx p hk pgno x)) = H" for x
    using provider_lengths(2) [of p] assms(1) by (simp add: mac_of_def page_params_def)
  have n: "nat (iv_sz ctx + hmac_sz ctx) = I + H" using assms(1) by (auto simp: page_params_def)
  show ?thesis using assms m n by (auto simp: page_format_def page_params_def Let_def split: if_splits)
qed

lemma page_cipher_length:
  assumes "codec_wf ctx" "page_args ctx pgno psz inp out" "mode = SQLCIPHER_ENCRYPT \<or> mode = SQLCIPHER_DECRYPT"
    "sqlcipher_page_cipher ctx f pgno mode psz inp out w = Some (rc, out', w')"
  shows "length out' = length out"
proof -
  obtain c where c: "ctx_of ctx f = Some c" using codec_wf_ctx_of [OF assms(1)] by blast
  obtain p S Z I H k hk where g: "page_params ctx c psz p S Z I H k hk" "S + Z \<le> length inp" "S + Z \<le> length out"
    "\<not> (pgno = 1 \<and> S = 0)" "(if f \<noteq> 0 then write_ctx ctx else read_ctx ctx) = Some c"
    using codec_wf_params [OF assms(1) c assms(2)] by blast
  have ok: "provider_ok p" "I \<le> Z" "SQLCIPHER_FLAG_GET (flags ctx) CIPHER_FLAG_HMAC \<Longrightarrow> I + H \<le> Z"
    using g(1) by (auto simp: page_params_def split: if_splits)
  from assms(3) show ?thesis
  proof
    assume m: "mode = SQLCIPHER_DECRYPT"
    obtain rc0 o0 where d: "decrypt_spec w ctx p k hk pgno S Z I H inp out = (rc0, o0)"
      by (cases "decrypt_spec w ctx p k hk pgno S Z I H inp out")
    have "length (snd (mac_of w ctx p hk pgno x)) = H" for x using provider_lengths(2) [of p] g(1) by (simp add: mac_of_def page_params_def)
    then have "length o0 = length out" using d g(2,3) ok provider_lengths(4) [OF ok(1)]
      by (auto simp: decrypt_spec_def Let_def slice_def split: if_splits)
    then show ?thesis using decrypt_page [OF g(1,5,2-4), of w] d m assms(4) by simp
  next
    assume m: "mode = SQLCIPHER_ENCRYPT"
    obtain rrc rnd where r: "pv_random p (w_calls w) Z = (rrc, rnd)" by (cases "pv_random p (w_calls w) Z")
    obtain crc ct where e: "pv_cipher p SQLCIPHER_ENCRYPT (plain_key w ctx k) (take I rnd) (take S inp) = (crc, ct)"
      by (cases "pv_cipher p SQLCIPHER_ENCRYPT (plain_key w ctx k) (take I rnd) (take S inp)")
    have l: "length rnd = Z" "length ct = S"
      using provider_lengths(1) [OF ok(1), of "w_calls w" Z] provider_lengths(4) [OF ok(1), of SQLCIPHER_ENCRYPT "plain_key w ctx k" "take I rnd" "take S inp"] r e g(2) by simp_all
    show ?thesis
    proof (cases "rrc = SQLITE_OK")
      case True
      then show ?thesis using encrypt_page [OF g(1,5,2-4) _ e] r m assms(4) page_format_length [OF g(1) l(2,1)] g(3) by (auto split: if_splits)
    next
      case False
      then have "fst (pv_random p (w_calls w) Z) \<noteq> SQLITE_OK" using r by simp
      from encrypt_fail_random [OF g(1) refl g(5,2-4) this] show ?thesis using m assms(4) g(3) by auto
    qed
  qed
qed

lemma page_cipher_any:
  assumes "codec_wf ctx" "reserve_sz ctx \<le> psz" "psz \<le> int (length inp)" "psz \<le> int (length out)"
    "mode = SQLCIPHER_ENCRYPT \<or> mode = SQLCIPHER_DECRYPT"
  obtains rc out' k where "sqlcipher_page_cipher ctx f pgno mode psz inp out w = Some (rc, out', w\<lparr>w_calls := k\<rparr>)"
    "length out' = length out" "rc = SQLITE_OK \<or> rc = SQLITE_ERROR \<and> out' = replicate (nat psz) 0 @ drop (nat psz) out"
proof (cases "pgno = 1 \<and> psz = reserve_sz ctx")
  case True
  obtain c where "ctx_of ctx f = Some c" using codec_wf_ctx_of [OF assms(1)] by blast
  moreover obtain p where "x_provider ctx = Some p" using assms(1) by (auto simp: wf_defs)
  ultimately have "sqlcipher_page_cipher ctx f pgno mode psz inp out w = Some (SQLITE_OK, out, w\<lparr>w_calls := w_calls w\<rparr>)"
    using True by (simp add: sqlcipher_page_cipher_def ctx_of_def)
  then show ?thesis by (rule that) simp_all
next
  case False
  then have a: "page_args ctx pgno psz inp out" using assms(2-4) by (simp add: page_args_def)
  obtain rc out' w' where r: "sqlcipher_page_cipher ctx f pgno mode psz inp out w = Some (rc, out', w')"
    "rc = SQLITE_OK \<or> rc = SQLITE_ERROR \<and> out' = replicate (nat psz) 0 @ drop (nat psz) out"
    using page_cipher_total [OF assms(1) a assms(5)] by blast
  moreover obtain k where "w' = w\<lparr>w_calls := k\<rparr>"
    using page_cipher_world [of w ctx f pgno mode psz inp out] r(1) unfolding calls_only_def by blast
  ultimately show ?thesis using that page_cipher_length [OF assms(1) a assms(5) r(1)] by blast
qed

section \<open>One call\<close>

definition header_ok :: "codec_ctx \<Rightarrow> u32 \<Rightarrow> bool" where
  "header_ok ctx pgno \<longleftrightarrow> plaintext_header_sz ctx < 0 \<or> reserve_sz ctx \<le> page_sz ctx - codec_offset ctx pgno"

lemma codec_wf_page:
  assumes "codec_wf ctx"
  obtains a buf where "buffer ctx = Some (a, buf)" "length buf = nat (page_sz ctx)" "512 \<le> page_sz ctx" "0 \<le> reserve_sz ctx" "0 < reserve_sz ctx"
proof -
  obtain p where p: "provider_ok p" "reserve_sz ctx = reserve_for p (flags ctx) (hmac_algorithm ctx)"
    using assms by (auto simp: wf_defs)
  have "0 < reserve_sz ctx" using reserve_for_bounds(1) [OF p(1), of "flags ctx" "hmac_algorithm ctx"] p by (simp add: provider_ok_def)
  moreover have "512 \<le> page_sz ctx" using assms by (simp add: wf_defs page_size_ok_def)
  moreover obtain a buf where "buffer ctx = Some (a, buf)" "length buf = nat (page_sz ctx)" using assms by (auto simp: wf_defs buf_ok_def)
  ultimately show ?thesis using that by simp
qed

lemma codec_wf_used:
  assumes "codec_wf ctx" "length buf = nat (page_sz ctx)" "\<forall>i < 3. bit fl i = bit (flags ctx) i"
  shows "codec_wf (ctx\<lparr>buffer := Some (a, buf), flags := fl\<rparr>)"
proof -
  have "bit fl 0 = bit (flags ctx) 0" using assms(3) by simp
  then have "reserve_for p fl h = reserve_for p (flags ctx) h" for p h by (simp add: reserve_for_def flag_hmac_bit)
  then show ?thesis using assms(1,2) by (auto simp: wf_defs buf_ok_def)
qed

lemma codec_wf_error: "codec_wf ctx \<Longrightarrow> codec_wf (sqlcipher_codec_ctx_set_error ctx e)"
  by (auto simp: wf_defs sqlcipher_codec_ctx_set_error_def Let_def)

lemma set_error_fields [simp]:
  "codec_owned (sqlcipher_codec_ctx_set_error ctx e) = codec_owned ctx" "x_error (sqlcipher_codec_ctx_set_error ctx e) = e"
  "page_sz (sqlcipher_codec_ctx_set_error ctx e) = page_sz ctx" "buffer (sqlcipher_codec_ctx_set_error ctx e) = buffer ctx"
  "flags (sqlcipher_codec_ctx_set_error ctx e) = flags ctx" "reserve_sz (sqlcipher_codec_ctx_set_error ctx e) = reserve_sz ctx"
  "plaintext_header_sz (sqlcipher_codec_ctx_set_error ctx e) = plaintext_header_sz ctx"
  by (simp_all add: sqlcipher_codec_ctx_set_error_def codec_owned_def Let_def)

lemma owned_buffer: "buffer ctx = Some (a, b) \<Longrightarrow> codec_owned (ctx\<lparr>buffer := Some (a, b'), flags := fl\<rparr>) = codec_owned ctx"
  by (simp add: codec_owned_def)

lemma bits_key_used: "\<forall>i < 3. bit (SQLCIPHER_FLAG_SET f CIPHER_FLAG_KEY_USED) i = bit f i"
  by (simp add: flag_simps)

definition same_layout :: "codec_ctx \<Rightarrow> codec_ctx \<Rightarrow> bool" where
  "same_layout ctx ctx' \<longleftrightarrow> page_sz ctx' = page_sz ctx \<and> reserve_sz ctx' = reserve_sz ctx \<and> plaintext_header_sz ctx' = plaintext_header_sz ctx"

text \<open>What a call that did not find an error leaves: the context, and what the pager gets.\<close>

definition codec_outcome :: "codec_ctx \<Rightarrow> bytes \<Rightarrow> u32 \<Rightarrow> int \<Rightarrow> codec_ret \<Rightarrow> bytes \<Rightarrow> codec_ctx \<Rightarrow> bool" where
  "codec_outcome ctx data pgno mode ret data' ctx' \<longleftrightarrow> length data' = length data \<and> same_layout ctx ctx'
     \<and> (mode = CODEC_WRITE_OP \<or> mode = CODEC_JOURNAL_OP \<longrightarrow> data' = data \<and> ret \<noteq> Ret_pData)
     \<and> (x_error ctx' = SQLITE_OK \<longrightarrow> codec_wf ctx' \<and> ret \<noteq> Ret_NULL)
     \<and> (x_error ctx' \<noteq> SQLITE_OK \<and> mode = CODEC_READ_OP \<longrightarrow> ret = Ret_NULL \<or>
          drop (nat (codec_offset ctx pgno)) data' = replicate (nat (page_sz ctx) - nat (codec_offset ctx pgno)) 0)
     \<and> (x_error ctx' \<noteq> SQLITE_OK \<and> (mode = CODEC_WRITE_OP \<or> mode = CODEC_JOURNAL_OP) \<longrightarrow> ret = Ret_NULL)"

lemma codec_offset_bounds: "0 \<le> plaintext_header_sz ctx \<Longrightarrow> 0 \<le> codec_offset ctx pgno"
  by (simp add: codec_offset_def FILE_HEADER_SZ_def)

text \<open>The two directions on well-formed contexts, with the header in front of the page.\<close>

definition decrypt_head :: "codec_ctx \<Rightarrow> bytes \<Rightarrow> u32 \<Rightarrow> bytes" where
  "decrypt_head ctx data pgno =
     (if pgno = 1 then take (nat (codec_offset ctx pgno)) (if plaintext_header_sz ctx \<noteq> 0 then data else SQLITE_FILE_HEADER) else [])"

lemma length_SQLITE_FILE_HEADER [simp]: "length SQLITE_FILE_HEADER = 16"
  by (simp add: SQLITE_FILE_HEADER_def str_def)

lemma length_decrypt_head:
  "codec_room ctx (codec_offset ctx pgno) buf data \<Longrightarrow> length (decrypt_head ctx data pgno) = nat (codec_offset ctx pgno)"
  by (auto simp: decrypt_head_def codec_offset_def codec_room_def FILE_HEADER_SZ_def)

lemma codec_decrypt_eq:
  assumes "buffer ctx = Some (a, buf)" "codec_room ctx (codec_offset ctx pgno) buf data" "length buf = nat (page_sz ctx)" "length data = nat (page_sz ctx)"
    and off: "off = nat (codec_offset ctx pgno)"
    and r: "sqlcipher_page_cipher ctx CIPHER_READ_CTX pgno SQLCIPHER_DECRYPT (page_sz ctx - codec_offset ctx pgno)
        (drop off data) (drop off buf) w = Some (rc, out, w')" "length out = length buf - off"
    and page: "page = decrypt_head ctx data pgno @ (if rc = SQLITE_OK then out else replicate (length out) 0)"
  shows "codec_decrypt ctx data pgno w = Some (Ret_pData, page,
      if rc = SQLITE_OK then ctx\<lparr>buffer := Some (a, page), flags := SQLCIPHER_FLAG_SET (flags ctx) CIPHER_FLAG_KEY_USED\<rparr>
      else if plaintext_header_sz ctx = page_sz ctx - reserve_sz ctx then ctx\<lparr>buffer := Some (a, page)\<rparr>
      else sqlcipher_codec_ctx_set_error (ctx\<lparr>buffer := Some (a, page)\<rparr>) rc, w')"
proof -
  let ?h = "decrypt_head ctx data pgno"
  let ?b = "if pgno = 1 then memcpy_at buf 0 (take off (if plaintext_header_sz ctx \<noteq> 0 then data else SQLITE_FILE_HEADER)) else buf"
  have l: "length ?h = off" "off \<le> length buf" "nat (page_sz ctx - codec_offset ctx pgno) = length out"
    using length_decrypt_head [OF assms(2)] assms(2,3) r(2) by (auto simp: off codec_room_def)
  have b: "?b = ?h @ drop off buf"
  proof (cases "pgno = 1")
    case True
    then show ?thesis using l(1) by (simp add: decrypt_head_def off memcpy_at_def)
  next
    case False
    then show ?thesis by (simp add: decrypt_head_def off codec_offset_def)
  qed
  have d: "drop off ?b = drop off buf" "take off ?b = ?h" unfolding b using l(1) by simp_all
  have o: "(if rc \<noteq> SQLITE_OK then sqlcipher_memset out 0 (length out) else out) = (if rc = SQLITE_OK then out else replicate (length out) 0)"
    by (simp add: sqlcipher_memset_eq)
  have p: "memcpy_at data 0 (take (nat (page_sz ctx)) page) = page"
    using l r(2) assms(3,4) by (simp add: page memcpy_at_def)
  show ?thesis unfolding codec_decrypt_def assms(1) Let_def off [symmetric]
    by (simp only: Option.bind.simps prod.case assms(2) simp_thms if_False d r(1) l(3) o page [symmetric] p) simp
qed

lemma codec_decrypt_outcome:
  assumes "codec_wf ctx" "x_error ctx = SQLITE_OK" "length data = nat (page_sz ctx)" "0 \<le> plaintext_header_sz ctx" "header_ok ctx pgno"
  shows "\<exists>data' ctx' k. codec_decrypt ctx data pgno w = Some (Ret_pData, data', ctx', w\<lparr>w_calls := k\<rparr>)
    \<and> codec_owned ctx' = codec_owned ctx \<and> codec_outcome ctx data pgno CODEC_READ_OP Ret_pData data' ctx'"
proof -
  obtain a buf where b: "buffer ctx = Some (a, buf)" "length buf = nat (page_sz ctx)" "512 \<le> page_sz ctx" "0 \<le> reserve_sz ctx" "0 < reserve_sz ctx"
    by (rule codec_wf_page [OF assms(1)])
  define off where "off = nat (codec_offset ctx pgno)"
  let ?n = "page_sz ctx - codec_offset ctx pgno"
  have args: "reserve_sz ctx \<le> ?n" using assms(4,5) by (simp add: header_ok_def)
  have o: "0 \<le> codec_offset ctx pgno" "codec_offset ctx pgno \<le> page_sz ctx" "off \<le> length buf" 
    using codec_offset_bounds [OF assms(4), of pgno] args b by (auto simp: off_def)
  have room: "codec_room ctx (codec_offset ctx pgno) buf data" using o b assms(3) by (simp add: codec_room_def)
  have l: "?n \<le> int (length (drop off data))" "?n \<le> int (length (drop off buf))"
    using o b assms(3) by (simp_all add: off_def)
  have dm: "SQLCIPHER_DECRYPT = SQLCIPHER_ENCRYPT \<or> SQLCIPHER_DECRYPT = SQLCIPHER_DECRYPT" by simp
  obtain rc out k where r: "sqlcipher_page_cipher ctx CIPHER_READ_CTX pgno SQLCIPHER_DECRYPT ?n (drop off data) (drop off buf) w
      = Some (rc, out, w\<lparr>w_calls := k\<rparr>)" "length out = length (drop off buf)"
    "rc = SQLITE_OK \<or> rc = SQLITE_ERROR \<and> out = replicate (nat ?n) 0 @ drop (nat ?n) (drop off buf)"
    by (rule page_cipher_any [OF assms(1) args l dm])
  have lo: "length out = length buf - off" using r(2) by simp
  define page where "page = decrypt_head ctx data pgno @ (if rc = SQLITE_OK then out else replicate (length out) 0)"
  have lp: "length page = nat (page_sz ctx)" "length (decrypt_head ctx data pgno) = off"
    using length_decrypt_head [OF room] lo o(3) b(2) by (simp_all add: page_def off_def)
  note run = codec_decrypt_eq [OF b(1) room b(2) assms(3) off_def r(1) lo page_def]
  let ?c1 = "ctx\<lparr>buffer := Some (a, page), flags := SQLCIPHER_FLAG_SET (flags ctx) CIPHER_FLAG_KEY_USED\<rparr>"
  let ?c2 = "ctx\<lparr>buffer := Some (a, page)\<rparr>"
  have wf: "codec_wf ?c1" "codec_wf ?c2"
    using codec_wf_used [OF assms(1) lp(1) bits_key_used] codec_wf_used [OF assms(1) lp(1), of "flags ctx" a] by simp_all
  have ow: "codec_owned ?c1 = codec_owned ctx" "codec_owned ?c2 = codec_owned ctx"
    using owned_buffer [OF b(1)] owned_buffer [OF b(1), where fl = "flags ctx" and b' = page] by simp_all
  note m = CODEC_READ_OP_def CODEC_WRITE_OP_def CODEC_JOURNAL_OP_def
  consider "rc = SQLITE_OK" | "rc \<noteq> SQLITE_OK" "plaintext_header_sz ctx = page_sz ctx - reserve_sz ctx"
    | "rc \<noteq> SQLITE_OK" "plaintext_header_sz ctx \<noteq> page_sz ctx - reserve_sz ctx" by blast
  then show ?thesis
  proof cases
    case 1
    then show ?thesis using run wf(1) ow(1) lp assms(2,3) by (auto simp: codec_outcome_def same_layout_def m)
  next
    case 2
    then show ?thesis using run wf(2) ow(2) lp assms(2,3) by (auto simp: codec_outcome_def same_layout_def m)
  next
    case 3
    have "page = decrypt_head ctx data pgno @ replicate (nat (page_sz ctx) - length (decrypt_head ctx data pgno)) 0"
      using 3(1) lo lp(2) b(2) by (simp add: page_def)
    then show ?thesis using run 3 ow(2) lp assms(2,3) by (auto simp: codec_outcome_def same_layout_def m off_def)
  qed
qed

definition encrypt_head :: "codec_ctx \<Rightarrow> bytes \<Rightarrow> bytes \<Rightarrow> u32 \<Rightarrow> bytes" where
  "encrypt_head ctx salt data pgno =
     (if pgno = 1 then take (nat (codec_offset ctx pgno)) (if plaintext_header_sz ctx \<noteq> 0 then data else salt) else [])"

lemma length_encrypt_head:
  "codec_room ctx (codec_offset ctx pgno) buf data \<Longrightarrow> length salt = 16 \<Longrightarrow>
     length (encrypt_head ctx salt data pgno) = nat (codec_offset ctx pgno)"
  by (auto simp: encrypt_head_def codec_offset_def codec_room_def FILE_HEADER_SZ_def)

text \<open>Encryption once the salt is there.\<close>

lemma codec_encrypt_eq:
  assumes g: "(if pgno = 1 then sqlcipher_codec_ctx_get_kdf_salt ctx0 w0 else Some (SQLITE_OK, None, ctx0, w0)) = Some (SQLITE_OK, s, ctx, w)"
    "pgno = 1 \<Longrightarrow> s = Some (sa, salt)" "length salt = 16"
    and "buffer ctx = Some (a, buf)" "codec_room ctx (codec_offset ctx pgno) buf data" "length buf = nat (page_sz ctx)"
    and off: "off = nat (codec_offset ctx pgno)"
    and r: "sqlcipher_page_cipher ctx cctx pgno SQLCIPHER_ENCRYPT (page_sz ctx - codec_offset ctx pgno)
        (drop off data) (drop off buf) w = Some (rc, out, w')" "length out = length buf - off"
    and page: "page = encrypt_head ctx salt data pgno @ (if rc = SQLITE_OK then out else replicate (length out) 0)"
  shows "codec_encrypt ctx0 cctx data pgno w0 =
      (if rc = SQLITE_OK then Some (Ret_buffer, data, ctx\<lparr>buffer := Some (a, page), flags := SQLCIPHER_FLAG_SET (flags ctx) CIPHER_FLAG_KEY_USED\<rparr>, w')
       else Some (Ret_NULL, data, sqlcipher_codec_ctx_set_error (ctx\<lparr>buffer := Some (a, page)\<rparr>) rc, w'))"
proof -
  let ?h = "encrypt_head ctx salt data pgno"
  have l: "length ?h = off" "nat (page_sz ctx - codec_offset ctx pgno) = length out"
    using length_encrypt_head [OF assms(5) g(3)] assms(5,6) r(2) by (auto simp: off codec_room_def)
  have h: "(if pgno = 1 then if plaintext_header_sz ctx \<noteq> 0 then Some (take off data) else map_option (take off \<circ> snd) s else Some []) = Some ?h"
    using g(2) by (simp add: encrypt_head_def off)
  have b: "memcpy_at buf 0 ?h = ?h @ drop off buf" using l(1) by (simp add: memcpy_at_def)
  have d: "drop off (memcpy_at buf 0 ?h) = drop off buf" "take off (memcpy_at buf 0 ?h) = ?h" unfolding b using l(1) by simp_all
  have o: "sqlcipher_memset out 0 (length out) = replicate (length out) 0" by (simp add: sqlcipher_memset_eq)
  show ?thesis unfolding codec_encrypt_def g(1) Let_def
    by (simp only: Option.bind.simps prod.case assms(4,5) off [symmetric] simp_thms if_False h d r(1) l(2) o page if_True split: if_split) simp
qed

lemma get_kdf_salt_ok:
  assumes "codec_wf ctx" "holds g R M w"
  obtains rc s ctx' w' where "sqlcipher_codec_ctx_get_kdf_salt ctx w = Some (rc, s, ctx', w')" "ctx_frame ctx ctx'" "holds g R M w'"
    "s = kdf_salt ctx'"
proof (cases "SQLCIPHER_FLAG_GET (flags ctx) CIPHER_FLAG_HAS_KDF_SALT")
  case True
  have "ctx_frame ctx ctx" using ctx_frame_refl [of ctx] assms(1) by (simp add: codec_wf_def)
  then show ?thesis using True assms(2) that by (simp add: sqlcipher_codec_ctx_get_kdf_salt_def)
next
  case False
  obtain rc ctx' w' where i: "sqlcipher_codec_ctx_init_kdf_salt ctx w = Some (rc, ctx', w')" "ctx_frame ctx ctx'" "holds g R M w'"
    "w_heap w' = w_heap w" "rc = SQLITE_OK \<or> rc = SQLITE_ERROR" "rc = SQLITE_OK \<longrightarrow> bit (flags ctx') 4" by (rule init_kdf_salt_ok [OF assms])
  show ?thesis by (rule that [of rc "kdf_salt ctx'" ctx' w']) (use False i in \<open>simp_all add: sqlcipher_codec_ctx_get_kdf_salt_def\<close>)
qed

lemma encrypt_salt_ok:
  assumes "codec_wf ctx" "holds g R M w"
  obtains rc s ctx' w' where
    "(if pgno = 1 then sqlcipher_codec_ctx_get_kdf_salt ctx w else Some (SQLITE_OK, None, ctx, w)) = Some (rc, s, ctx', w')"
    "ctx_frame ctx ctx'" "holds g R M w'" "pgno = 1 \<longrightarrow> s = kdf_salt ctx'"
proof (cases "pgno = 1")
  case True
  then show ?thesis using that get_kdf_salt_ok [OF assms] by (metis (full_types))
next
  case False
  have "ctx_frame ctx ctx" using ctx_frame_refl [of ctx] assms(1) by (simp add: codec_wf_def)
  then show ?thesis using False assms(2) that by simp
qed

lemma codec_offset_frame: "ctx_frame ctx ctx' \<Longrightarrow> codec_offset ctx' pgno = codec_offset ctx pgno"
  by (drule ctx_frame_fields(9)) (simp add: codec_offset_def)

text \<open>How encryption runs on a well-formed context: it stops at the salt, or gets to the page.\<close>

lemma codec_encrypt_run:
  assumes "codec_wf ctx" "length data = nat (page_sz ctx)" "0 \<le> plaintext_header_sz ctx" "header_ok ctx pgno" "holds g R (codec_owned ctx) w"
  obtains (salt) rc ctx1 w1 where "codec_encrypt ctx cctx data pgno w = Some (Ret_NULL, data, sqlcipher_codec_ctx_set_error ctx1 rc, w1)"
      "rc \<noteq> SQLITE_OK" "pgno = 1" "ctx_frame ctx ctx1" "holds g R (codec_owned ctx1) w1"
    | (page) rc ctx1 w1 a buf salt out k page where "ctx_frame ctx ctx1" "holds g R (codec_owned ctx1) w1" "buffer ctx1 = Some (a, buf)"
      "sqlcipher_page_cipher ctx1 cctx pgno SQLCIPHER_ENCRYPT (page_sz ctx - codec_offset ctx pgno) (drop (nat (codec_offset ctx pgno)) data)
         (drop (nat (codec_offset ctx pgno)) buf) w1 = Some (rc, out, w1\<lparr>w_calls := k\<rparr>)"
      "length buf = nat (page_sz ctx)" "length out = nat (page_sz ctx) - nat (codec_offset ctx pgno)" "length page = nat (page_sz ctx)"
      "page = encrypt_head ctx salt data pgno @ (if rc = SQLITE_OK then out else replicate (length out) 0)"
      "length (encrypt_head ctx salt data pgno) = nat (codec_offset ctx pgno)"
      "codec_encrypt ctx cctx data pgno w =
        (if rc = SQLITE_OK then Some (Ret_buffer, data, ctx1\<lparr>buffer := Some (a, page), flags := SQLCIPHER_FLAG_SET (flags ctx1) CIPHER_FLAG_KEY_USED\<rparr>, w1\<lparr>w_calls := k\<rparr>)
         else Some (Ret_NULL, data, sqlcipher_codec_ctx_set_error (ctx1\<lparr>buffer := Some (a, page)\<rparr>) rc, w1\<lparr>w_calls := k\<rparr>))"
proof -
  obtain rc s ctx1 w1 where i: "(if pgno = 1 then sqlcipher_codec_ctx_get_kdf_salt ctx w else Some (SQLITE_OK, None, ctx, w)) = Some (rc, s, ctx1, w1)"
    "ctx_frame ctx ctx1" "holds g R (codec_owned ctx) w1" "pgno = 1 \<longrightarrow> s = kdf_salt ctx1" by (rule encrypt_salt_ok [OF assms(1,5)])
  note f = ctx_frame_fields [OF i(2)] and wf1 = ctx_frame_wf [OF i(2) assms(1)] and of1 = codec_offset_frame [OF i(2)]
  have h1: "holds g R (codec_owned ctx1) w1" using i(3) ctx_frame_owned [OF i(2)] by simp
  show ?thesis
  proof (cases "rc = SQLITE_OK")
    case False
    then have "codec_encrypt ctx cctx data pgno w = Some (Ret_NULL, data, sqlcipher_codec_ctx_set_error ctx1 rc, w1)"
      unfolding codec_encrypt_def i(1) by simp
    moreover have "pgno = 1" using i(1) False by (cases "pgno = 1") simp_all
    ultimately show ?thesis using False i(2) h1 by (intro salt)
  next
    case True
    obtain a buf where b: "buffer ctx1 = Some (a, buf)" "length buf = nat (page_sz ctx1)" "512 \<le> page_sz ctx1" "0 \<le> reserve_sz ctx1" "0 < reserve_sz ctx1"
      by (rule codec_wf_page [OF wf1])
    obtain p sa slt ha hs where p: "x_provider ctx1 = Some p" "provider_ok p" "0 < key_sz ctx1" "kdf_salt_sz ctx1 = 16"
      "kdf_salt ctx1 = Some (sa, slt)" "length slt = 16" "hmac_kdf_salt ctx1 = Some (ha, hs)" "length hs = 16" by (rule codec_wf_parts [OF wf1])
    have sal: "pgno = 1 \<Longrightarrow> s = Some (sa, slt)" using i(4) p(5) by simp
    let ?off = "nat (codec_offset ctx1 pgno)" and ?n = "page_sz ctx1 - codec_offset ctx1 pgno"
    have args: "reserve_sz ctx1 \<le> ?n" using assms(3,4) of1 f by (simp add: header_ok_def)
    have o: "0 \<le> codec_offset ctx1 pgno" "codec_offset ctx1 pgno \<le> page_sz ctx1" "?off \<le> length buf"
      using codec_offset_bounds [OF assms(3), of pgno] of1 args b by auto
    have room: "codec_room ctx1 (codec_offset ctx1 pgno) buf data" using o b assms(2) f(7) by (simp add: codec_room_def)
    have l: "?n \<le> int (length (drop ?off data))" "?n \<le> int (length (drop ?off buf))" using o b assms(2) f(7) by simp_all
    have em: "SQLCIPHER_ENCRYPT = SQLCIPHER_ENCRYPT \<or> SQLCIPHER_ENCRYPT = SQLCIPHER_DECRYPT" by simp
    obtain rc2 out k where r: "sqlcipher_page_cipher ctx1 cctx pgno SQLCIPHER_ENCRYPT ?n (drop ?off data) (drop ?off buf) w1
        = Some (rc2, out, w1\<lparr>w_calls := k\<rparr>)" "length out = length (drop ?off buf)"
      "rc2 = SQLITE_OK \<or> rc2 = SQLITE_ERROR \<and> out = replicate (nat ?n) 0 @ drop (nat ?n) (drop ?off buf)"
      by (rule page_cipher_any [OF wf1 args l em])
    have lo: "length out = length buf - ?off" using r(2) by simp
    have hd: "encrypt_head ctx1 slt data pgno = encrypt_head ctx slt data pgno" using of1 f(9) by (simp add: encrypt_head_def)
    note run = codec_encrypt_eq [OF i(1) [unfolded True] sal p(6) b(1) room b(2) refl r(1) lo refl]
    have lh: "length (encrypt_head ctx slt data pgno) = nat (codec_offset ctx pgno)" using length_encrypt_head [OF room p(6)] hd of1 by simp
    show ?thesis
      by (rule page [OF i(2) h1 b(1) r(1) [unfolded of1 f(7)] _ _ _ refl lh run [unfolded hd]]) (use lo lh o(3) b(2) of1 f(7) in simp_all)
  qed
qed

lemma codec_encrypt_outcome:
  assumes "codec_wf ctx" "x_error ctx = SQLITE_OK" "length data = nat (page_sz ctx)" "0 \<le> plaintext_header_sz ctx" "header_ok ctx pgno"
    "holds g R (codec_owned ctx) w" "mode = CODEC_WRITE_OP \<or> mode = CODEC_JOURNAL_OP"
  shows "\<exists>ret ctx' w'. codec_encrypt ctx cctx data pgno w = Some (ret, data, ctx', w')
    \<and> holds g R (codec_owned ctx') w' \<and> codec_outcome ctx data pgno mode ret data ctx'"
proof -
  have mm: "mode \<noteq> CODEC_READ_OP" using assms(7) by (auto simp: CODEC_READ_OP_def CODEC_WRITE_OP_def CODEC_JOURNAL_OP_def)
  show ?thesis
  proof (rule codec_encrypt_run [OF assms(1,3-6), of cctx])
    fix rc ctx1 w1
    assume "codec_encrypt ctx cctx data pgno w = Some (Ret_NULL, data, sqlcipher_codec_ctx_set_error ctx1 rc, w1)"
      "rc \<noteq> SQLITE_OK" "ctx_frame ctx ctx1" "holds g R (codec_owned ctx1) w1"
    then show ?thesis using assms(7) ctx_frame_fields [of ctx ctx1] by (simp add: codec_outcome_def same_layout_def mm)
  next
    fix rc ctx1 w1 a buf salt out k page
    assume p: "ctx_frame ctx ctx1" "holds g R (codec_owned ctx1) w1" "buffer ctx1 = Some (a, buf)" "length page = nat (page_sz ctx)"
      and run: "codec_encrypt ctx cctx data pgno w =
        (if rc = SQLITE_OK then Some (Ret_buffer, data, ctx1\<lparr>buffer := Some (a, page), flags := SQLCIPHER_FLAG_SET (flags ctx1) CIPHER_FLAG_KEY_USED\<rparr>, w1\<lparr>w_calls := k\<rparr>)
         else Some (Ret_NULL, data, sqlcipher_codec_ctx_set_error (ctx1\<lparr>buffer := Some (a, page)\<rparr>) rc, w1\<lparr>w_calls := k\<rparr>))"
    let ?c1 = "ctx1\<lparr>buffer := Some (a, page), flags := SQLCIPHER_FLAG_SET (flags ctx1) CIPHER_FLAG_KEY_USED\<rparr>"
    let ?c2 = "ctx1\<lparr>buffer := Some (a, page)\<rparr>"
    note f = ctx_frame_fields [OF p(1)] and h = holds_calls [OF p(2), of k]
    have wf: "codec_wf ?c1" using codec_wf_used [OF ctx_frame_wf [OF p(1) assms(1)] _ bits_key_used] p(4) f(7) by simp
    have ow: "codec_owned ?c1 = codec_owned ctx1" "codec_owned ?c2 = codec_owned ctx1"
      using owned_buffer [OF p(3)] owned_buffer [OF p(3), where fl = "flags ctx1" and b' = page] by simp_all
    show ?thesis using run wf ow h assms(2,7) f by (cases "rc = SQLITE_OK") (auto simp: codec_outcome_def same_layout_def mm)
  qed
qed

section \<open>Derivation keeps the settings, also when it fails\<close>

lemma derive_read_settings:
  assumes "codec_wf ctx" "holds g R M w" "derive_read ctx w = Some (rc, ctx', w')"
  shows "same_settings ctx ctx'"
proof -
  obtain r t where r: "read_ctx ctx = Some r" "write_ctx ctx = Some t" "cipher_wf (key_sz ctx) r" "cipher_wf (key_sz ctx) t"
    by (rule codec_wf_ciphers [OF assms(1)])
  obtain rc' ctx1 r' w1 where d: "sqlcipher_cipher_ctx_key_derive ctx r w = Some (rc', ctx1, r', w1)"
    "derive_outcome w ctx r rc' ctx1 r'" "holds g R M w1" by (rule key_derive_ok [OF assms(1) r(3) assms(2)])
  have "ctx_frame ctx ctx1" using d(2) by (simp add: derive_outcome_def)
  then show ?thesis using assms(3) r d(1) frame_same_settings(1) same_settings_refl
    by (auto simp: derive_read_def split: if_splits)
qed

lemma derive_write_settings:
  assumes "codec_wf ctx" "holds g R M w" "derive_write ctx w = Some (rc, ctx', w')"
  shows "same_settings ctx ctx'"
proof -
  obtain r t where r: "read_ctx ctx = Some r" "write_ctx ctx = Some t" "cipher_wf (key_sz ctx) r" "cipher_wf (key_sz ctx) t"
    by (rule codec_wf_ciphers [OF assms(1)])
  obtain rc' ctx1 t' w1 where d: "sqlcipher_cipher_ctx_key_derive ctx t w = Some (rc', ctx1, t', w1)"
    "derive_outcome w ctx t rc' ctx1 t'" "holds g R M w1" by (rule key_derive_ok [OF assms(1) r(4) assms(2)])
  have "ctx_frame ctx ctx1" using d(2) by (simp add: derive_outcome_def)
  then show ?thesis using assms(3) r d(1) frame_same_settings(2) same_settings_refl same_settings_ciphers(2)
    by (auto simp: derive_write_def split: if_splits bind_splits)
qed

lemma derive_forget_settings:
  assumes "derive_forget ctx w = Some (rc, ctx', w')"
  shows "same_settings ctx ctx'"
proof -
  have "same_settings ctx (ctx\<lparr>read_ctx := a, write_ctx := b\<rparr>)" for a b
    using same_settings_trans [OF same_settings_ciphers(1) same_settings_ciphers(2)] by simp
  then show ?thesis using assms same_settings_refl by (auto simp: derive_forget_def split: if_splits bind_splits)
qed

lemma codec_key_derive_settings:
  assumes "codec_wf ctx" "holds g R (codec_owned ctx) w" "sqlcipher_codec_key_derive ctx w = Some (rc, ctx', w')"
  shows "same_settings ctx ctx'"
proof -
  have h: "holds g R ({#} + codec_owned ctx) w" using assms(2) by simp
  from tripleD [OF derive_read_triple [of g ctx] _ h] assms(1) obtain rc1 ctx1 w1 where
    1: "derive_read ctx w = Some (rc1, ctx1, w1)" "holds g R ({#} + codec_owned ctx1) w1" "rc1 = SQLITE_OK \<longrightarrow> read_done ctx ctx1" by blast
  note s1 = derive_read_settings [OF assms(1,2) 1(1)]
  show ?thesis
  proof (cases "rc1 = SQLITE_OK")
    case False
    then show ?thesis using assms(3) 1(1) s1 by (simp add: sqlcipher_codec_key_derive_def)
  next
    case ok1: True
    then have rd: "read_done ctx ctx1" and wf1: "codec_wf ctx1" using 1(3) by (simp_all add: read_done_def)
    from tripleD [OF derive_write_triple rd 1(2)] obtain rc2 ctx2 w2 where
      2: "derive_write ctx1 w1 = Some (rc2, ctx2, w2)" "holds g R ({#} + codec_owned ctx2) w2" by blast
    note s2 = same_settings_trans [OF s1 derive_write_settings [OF wf1 1(2) 2(1)]]
    show ?thesis
    proof (cases "rc2 = SQLITE_OK")
      case False
      then show ?thesis using assms(3) 1(1) 2(1) ok1 s2 by (simp add: sqlcipher_codec_key_derive_def)
    next
      case True
      then obtain rc3 ctx3 w3 where 3: "derive_forget ctx2 w2 = Some (rc3, ctx3, w3)" "ctx' = ctx3"
        using assms(3) 1(1) 2(1) ok1 by (auto simp: sqlcipher_codec_key_derive_def split: bind_splits if_splits)
      then show ?thesis using same_settings_trans [OF s2 derive_forget_settings [OF 3(1)]] by simp
    qed
  qed
qed

lemma same_settings_fields:
  assumes "same_settings ctx ctx'"
  shows "same_layout ctx ctx'" "x_error ctx' = x_error ctx" "buffer ctx' = buffer ctx" "store_pass ctx' = store_pass ctx"
    "codec_offset ctx' pgno = codec_offset ctx pgno" "header_ok ctx' pgno = header_ok ctx pgno" "key_sz ctx' = key_sz ctx"
    "plaintext_header_sz ctx' = plaintext_header_sz ctx" "page_sz ctx' = page_sz ctx" "reserve_sz ctx' = reserve_sz ctx"
proof -
  obtain fl s hs r t where c: "ctx' = ctx\<lparr>flags := fl, kdf_salt := s, hmac_kdf_salt := hs, read_ctx := r, write_ctx := t\<rparr>"
    "\<forall>i < 4. bit fl i = bit (flags ctx) i" by (rule same_settingsE [OF assms])
  show "same_layout ctx ctx'" "x_error ctx' = x_error ctx" "buffer ctx' = buffer ctx" "store_pass ctx' = store_pass ctx"
    "codec_offset ctx' pgno = codec_offset ctx pgno" "header_ok ctx' pgno = header_ok ctx pgno" "key_sz ctx' = key_sz ctx"
    "plaintext_header_sz ctx' = plaintext_header_sz ctx" "page_sz ctx' = page_sz ctx" "reserve_sz ctx' = reserve_sz ctx"
    unfolding c(1) by (simp_all add: same_layout_def codec_offset_def header_ok_def)
qed

text \<open>A call on a context without an error.\<close>

lemma codec_call_ok:
  assumes "codec_wf ctx" "x_error ctx = SQLITE_OK" "holds g R (codec_owned ctx) w" "length data = nat (page_sz ctx)" "header_ok ctx pgno"
  shows "\<exists>ret data' ctx' w'. sqlite3Codec ctx data pgno mode w = Some (ret, data', ctx', w')
    \<and> holds g R (codec_owned ctx') w' \<and> codec_outcome ctx data pgno mode ret data' ctx'"
proof -
  have h: "holds g R ({#} + codec_owned ctx) w" using assms(3) by simp
  from tripleD [OF codec_key_derive_triple [of g ctx] _ h] assms(1) obtain rc ctx1 w1 where
    d: "sqlcipher_codec_key_derive ctx w = Some (rc, ctx1, w1)" "holds g R ({#} + codec_owned ctx1) w1" "rc = SQLITE_OK \<longrightarrow> derived ctx ctx1" by blast
  have h1: "holds g R (codec_owned ctx1) w1" using d(2) by simp
  note s = same_settings_fields [OF codec_key_derive_settings [OF assms(1,3) d(1)]]
  note m = CODEC_READ_OP_def CODEC_WRITE_OP_def CODEC_JOURNAL_OP_def
  have oc: "codec_outcome ctx data pgno mode' ret data' ctx'" if "codec_outcome ctx1 data pgno mode' ret data' ctx'" for mode' ret data' ctx'
    using that s by (simp add: codec_outcome_def same_layout_def)
  have er: "codec_outcome ctx data pgno mode Ret_NULL data (sqlcipher_codec_ctx_set_error ctx1 e)" if "e \<noteq> SQLITE_OK" for e
    using that s(1) by (simp add: codec_outcome_def same_layout_def)
  have er2: "codec_outcome ctx data pgno mode Ret_pData data (sqlcipher_codec_ctx_set_error ctx1 SQLITE_ERROR)"
    if "mode \<noteq> CODEC_READ_OP" "mode \<noteq> CODEC_WRITE_OP" "mode \<noteq> CODEC_JOURNAL_OP" using that s(1) by (simp add: codec_outcome_def same_layout_def)
  show ?thesis
  proof (cases "rc = SQLITE_OK \<and> 0 \<le> plaintext_header_sz ctx1")
    case False
    then show ?thesis using d(1) h1 er assms(2) by (cases "rc = SQLITE_OK") (simp_all add: sqlite3Codec_def)
  next
    case True
    then have wf1: "codec_wf ctx1" using d(3) by (simp add: derived_def both_done_def)
    have a: "x_error ctx1 = SQLITE_OK" "length data = nat (page_sz ctx1)" "0 \<le> plaintext_header_sz ctx1" "header_ok ctx1 pgno"
      using True s assms(2,4,5) by simp_all
    consider "mode = CODEC_READ_OP" | "mode = CODEC_WRITE_OP" | "mode = CODEC_JOURNAL_OP"
      | "mode \<noteq> CODEC_READ_OP" "mode \<noteq> CODEC_WRITE_OP" "mode \<noteq> CODEC_JOURNAL_OP" by blast
    then show ?thesis
    proof cases
      case 1
      obtain data' ctx' k where "codec_decrypt ctx1 data pgno w1 = Some (Ret_pData, data', ctx', w1\<lparr>w_calls := k\<rparr>)"
        "codec_owned ctx' = codec_owned ctx1" "codec_outcome ctx1 data pgno CODEC_READ_OP Ret_pData data' ctx'"
        using codec_decrypt_outcome [OF wf1 a] by blast
      then show ?thesis using d(1) True 1 assms(2) holds_calls [OF h1] oc by (simp add: sqlite3Codec_def)
    next
      case 2
      from codec_encrypt_outcome [OF wf1 a h1, of CODEC_WRITE_OP CIPHER_WRITE_CTX] show ?thesis
        using d(1) True 2 assms(2) oc by (auto simp: sqlite3Codec_def m)
    next
      case 3
      from codec_encrypt_outcome [OF wf1 a h1, of CODEC_JOURNAL_OP CIPHER_READ_CTX] show ?thesis
        using d(1) True 3 assms(2) oc by (auto simp: sqlite3Codec_def m)
    next
      case 4
      then show ?thesis using d(1) True h1 er2 assms(2) by (simp add: sqlite3Codec_def)
    qed
  qed
qed

section \<open>Sessions\<close>

text \<open>
  A session is a sequence of calls of the callback on one context, as the pager makes them,
  with the page it passes and the answer it gets.
\<close>

type_synonym codec_call = "bytes \<times> u32 \<times> int"
type_synonym codec_reply = "codec_ret \<times> bytes"

inductive codec_trace :: "codec_ctx \<Rightarrow> world \<Rightarrow> (codec_call \<times> codec_reply) list \<Rightarrow> codec_ctx \<Rightarrow> world \<Rightarrow> bool" where
  trace_nil: "codec_trace ctx w [] ctx w"
| trace_call: "sqlite3Codec ctx data pgno mode w = Some (ret, data', ctx1, w1) \<Longrightarrow> codec_trace ctx1 w1 tr ctx2 w2 \<Longrightarrow>
    codec_trace ctx w (((data, pgno, mode), (ret, data')) # tr) ctx2 w2"

inductive_simps codec_trace_simps [simp]:
  "codec_trace ctx w [] ctx' w'" "codec_trace ctx w (s # tr) ctx' w'"

definition page_call :: "codec_ctx \<Rightarrow> codec_call \<Rightarrow> bool" where
  "page_call ctx c \<longleftrightarrow> (case c of (data, pgno, mode) \<Rightarrow> length data = nat (page_sz ctx) \<and> header_ok ctx pgno)"

definition refused :: "codec_ctx \<Rightarrow> codec_call \<times> codec_reply \<Rightarrow> bool" where
  "refused ctx s \<longleftrightarrow> (case s of ((data, pgno, mode), (ret, data')) \<Rightarrow>
     if mode = CODEC_READ_OP then ret = Ret_pData \<and> data' = replicate (nat (page_sz ctx)) 0 @ drop (nat (page_sz ctx)) data
     else ret = Ret_NULL \<and> data' = data)"

lemma codec_call_error:
  assumes "x_error ctx \<noteq> SQLITE_OK" "sqlite3Codec ctx data pgno mode w = Some (ret, data', ctx', w')"
  shows "ctx' = sqlcipher_codec_ctx_set_error ctx (x_error ctx)" "w' = w" "refused ctx ((data, pgno, mode), (ret, data'))"
  using assms by (auto simp: sqlite3Codec_def refused_def Let_def sqlcipher_memset_eq split: if_splits)

lemma codec_call_error_runs:
  assumes "x_error ctx \<noteq> SQLITE_OK" "length data = nat (page_sz ctx)" "0 \<le> page_sz ctx"
  obtains ret data' where "sqlite3Codec ctx data pgno mode w = Some (ret, data', sqlcipher_codec_ctx_set_error ctx (x_error ctx), w)"
  using assms by (cases "mode = CODEC_READ_OP") (auto simp: sqlite3Codec_def Let_def)

text \<open>What a session keeps: the blocks, the sizes, and a well-formed context while there is no error.\<close>

definition session_inv :: "world \<Rightarrow> (nat \<times> nat) set \<Rightarrow> codec_ctx \<Rightarrow> codec_ctx \<Rightarrow> world \<Rightarrow> bool" where
  "session_inv g R ctx0 ctx w \<longleftrightarrow> holds g R (codec_owned ctx) w \<and> same_layout ctx0 ctx \<and> 0 \<le> page_sz ctx0
     \<and> (x_error ctx = SQLITE_OK \<longrightarrow> codec_wf ctx)"

lemma page_call_layout: "same_layout ctx0 ctx \<Longrightarrow> page_call ctx c = page_call ctx0 c"
  by (auto simp: page_call_def same_layout_def header_ok_def codec_offset_def split: prod.splits)

lemma session_step:
  assumes "session_inv g R ctx0 ctx w" "page_call ctx0 (data, pgno, mode)"
  shows "\<exists>ret data' ctx' w'. sqlite3Codec ctx data pgno mode w = Some (ret, data', ctx', w') \<and> session_inv g R ctx0 ctx' w'"
proof (cases "x_error ctx = SQLITE_OK")
  case True
  then have c: "codec_wf ctx" "holds g R (codec_owned ctx) w" "length data = nat (page_sz ctx)" "header_ok ctx pgno"
    using assms page_call_layout [of ctx0 ctx "(data, pgno, mode)"] by (auto simp: session_inv_def page_call_def same_layout_def)
  from codec_call_ok [OF c(1) True c(2-4), of mode] show ?thesis using assms(1)
    by (auto simp: session_inv_def codec_outcome_def same_layout_def)
next
  case False
  have "length data = nat (page_sz ctx)" "0 \<le> page_sz ctx"
    using assms by (simp_all add: session_inv_def page_call_def same_layout_def)
  then obtain ret data' where "sqlite3Codec ctx data pgno mode w = Some (ret, data', sqlcipher_codec_ctx_set_error ctx (x_error ctx), w)"
    using codec_call_error_runs [OF False] by blast
  then show ?thesis using assms(1) False by (simp add: session_inv_def same_layout_def)
qed

lemma session_trace:
  assumes "codec_trace ctx w tr ctx' w'" "session_inv g R ctx0 ctx w" "\<forall>s \<in> set tr. page_call ctx0 (fst s)"
  shows "session_inv g R ctx0 ctx' w'"
  using assms
proof (induction rule: codec_trace.induct)
  case (trace_call ctx data pgno mode w ret data' ctx1 w1 tr ctx2 w2)
  then show ?case using session_step [of g R ctx0 ctx w data pgno mode] by auto
qed simp

section \<open>Reading back what was written\<close>

text \<open>Once the keys are derived, derivation changes nothing.\<close>

lemma derive_again:
  assumes "read_ctx ctx = Some r" "write_ctx ctx = Some t" "derive_key r = 0" "derive_key t = 0"
    "store_pass ctx \<noteq> 1 \<longrightarrow> pass r = None \<and> pass_sz r = 0 \<and> pass t = None \<and> pass_sz t = 0"
  shows "sqlcipher_codec_key_derive ctx w = Some (SQLITE_OK, ctx, w)"
proof -
  have "derive_forget ctx w = Some (SQLITE_OK, ctx, w)"
  proof (cases "store_pass ctx = 1")
    case False
    then have "r\<lparr>pass := None, pass_sz := 0\<rparr> = r" "t\<lparr>pass := None, pass_sz := 0\<rparr> = t" "ctx\<lparr>read_ctx := Some r, write_ctx := Some t\<rparr> = ctx"
      using assms by (simp_all add: cipher_ctx.equality codec_ctx.equality)
    moreover have "ctx\<lparr>read_ctx := Some r\<rparr> = ctx" using assms by (simp add: codec_ctx.equality)
    ultimately show ?thesis using False assms by (simp add: derive_forget_def sqlcipher_cipher_ctx_set_pass_def buf_free_def)
  qed (simp add: derive_forget_def)
  then show ?thesis using assms by (simp add: sqlcipher_codec_key_derive_def derive_read_def derive_write_def)
qed

text \<open>The page cipher undone, also on a first page with nothing to encrypt.\<close>

lemma page_cipher_undone:
  assumes "codec_wf ctx" "agree ctx" "0 \<le> psz" "reserve_sz ctx \<le> psz" "psz \<le> int (length plain)" "length out = length plain" "length out2 = length plain"
    "sqlcipher_page_cipher ctx CIPHER_WRITE_CTX pgno SQLCIPHER_ENCRYPT psz plain out w = Some (SQLITE_OK, page, w')"
    "shield_mask v = shield_mask w"
  obtains res where "sqlcipher_page_cipher ctx CIPHER_READ_CTX pgno SQLCIPHER_DECRYPT psz page out2 v = Some (SQLITE_OK, res, v)"
    "take (nat (psz - reserve_sz ctx)) res = take (nat (psz - reserve_sz ctx)) plain"
proof (cases "pgno = 1 \<and> psz = reserve_sz ctx")
  case True
  obtain c where "ctx_of ctx CIPHER_READ_CTX = Some c" using codec_wf_ctx_of [OF assms(1)] by blast
  moreover obtain p where "x_provider ctx = Some p" using assms(1) by (auto simp: wf_defs)
  ultimately have "sqlcipher_page_cipher ctx CIPHER_READ_CTX pgno SQLCIPHER_DECRYPT psz page out2 v = Some (SQLITE_OK, out2, v)"
    using True by (simp add: sqlcipher_page_cipher_def ctx_of_def)
  then show ?thesis by (rule that) (use True in simp)
next
  case False
  obtain r t where a: "read_ctx ctx = Some r" "write_ctx ctx = Some t" "same_material r t" using assms(2) by (auto simp: agree_def)
  have c: "ctx_of ctx CIPHER_WRITE_CTX = Some t" "ctx_of ctx CIPHER_READ_CTX = Some r"
    using a by (simp_all add: ctx_of_def CIPHER_READ_CTX_def CIPHER_WRITE_CTX_def)
  have g: "page_args ctx pgno psz plain out" "page_args ctx pgno psz plain out2" using False assms(3-7) by (simp_all add: page_args_def)
  have m: "contents (key t) = contents (key r)" "contents (hmac_key t) = contents (hmac_key r)" using a(3) by (simp_all add: same_material_def)
  from decrypt_encrypt [OF assms(1) g c m assms(8,9)] show ?thesis using that by blast
qed

lemma frame_settings:
  assumes "ctx_frame ctx ctx'"
  shows "same_settings ctx ctx'"
proof -
  have "ctx' = ctx'\<lparr>read_ctx := read_ctx ctx'\<rparr>" by simp
  then show ?thesis using frame_same_settings(1) [OF assms, of "read_ctx ctx'"] by simp
qed

text \<open>The form of a successful write.\<close>

lemma codec_write_run:
  assumes "codec_wf ctx" "x_error ctx = SQLITE_OK" "holds g R (codec_owned ctx) w" "page_call ctx (data, pgno, CODEC_WRITE_OP)"
    and run: "sqlite3Codec ctx data pgno CODEC_WRITE_OP w = Some (Ret_buffer, data', ctx', w')"
  obtains ctx1 w1 a buf salt out k where "codec_wf ctx1" "same_settings ctx ctx1" "agree ctx \<longrightarrow> agree ctx1" "0 \<le> plaintext_header_sz ctx"
    "sqlcipher_page_cipher ctx1 CIPHER_WRITE_CTX pgno SQLCIPHER_ENCRYPT (page_sz ctx - codec_offset ctx pgno) (drop (nat (codec_offset ctx pgno)) data)
         (drop (nat (codec_offset ctx pgno)) buf) w1 = Some (SQLITE_OK, out, w1\<lparr>w_calls := k\<rparr>)"
    "length buf = nat (page_sz ctx)" "length out = nat (page_sz ctx) - nat (codec_offset ctx pgno)"
    "length (encrypt_head ctx salt data pgno) = nat (codec_offset ctx pgno)"
    "ctx' = ctx1\<lparr>buffer := Some (a, encrypt_head ctx salt data pgno @ out), flags := SQLCIPHER_FLAG_SET (flags ctx1) CIPHER_FLAG_KEY_USED\<rparr>"
    "w' = w1\<lparr>w_calls := k\<rparr>" "\<And>v. sqlcipher_codec_key_derive ctx' v = Some (SQLITE_OK, ctx', v)"
proof -
  have h: "holds g R ({#} + codec_owned ctx) w" using assms(3) by simp
  from tripleD [OF codec_key_derive_triple [of g ctx] _ h] assms(1) obtain rc ctx0 w0 where
    d: "sqlcipher_codec_key_derive ctx w = Some (rc, ctx0, w0)" "holds g R ({#} + codec_owned ctx0) w0" "rc = SQLITE_OK \<longrightarrow> derived ctx ctx0" by blast
  note ss = codec_key_derive_settings [OF assms(1,3) d(1)]
  note s = same_settings_fields [OF ss]
  have ok: "rc = SQLITE_OK" "0 \<le> plaintext_header_sz ctx0" and
    en: "codec_encrypt ctx0 CIPHER_WRITE_CTX data pgno w0 = Some (Ret_buffer, data', ctx', w')"
    using run d(1) assms(2) by (auto simp: sqlite3Codec_def CODEC_READ_OP_def CODEC_WRITE_OP_def split: if_splits)
  have wf0: "codec_wf ctx0" "agree ctx \<longrightarrow> agree ctx0" and dr: "derived ctx ctx0" using d(3) ok by (simp_all add: derived_def both_done_def)
  have a: "length data = nat (page_sz ctx0)" "header_ok ctx0 pgno" "holds g R (codec_owned ctx0) w0" using assms(4) s d(2) by (simp_all add: page_call_def)
  note eh = encrypt_head_def
  from wf0(1) a(1) ok(2) a(2,3) show ?thesis
  proof (rule codec_encrypt_run [where cctx = CIPHER_WRITE_CTX])
    fix rc ctx1 w1
    assume "codec_encrypt ctx0 CIPHER_WRITE_CTX data pgno w0 = Some (Ret_NULL, data, sqlcipher_codec_ctx_set_error ctx1 rc, w1)"
    then show ?thesis using en by simp
  next
    fix rc ctx1 w1 a buf salt out k page
    assume f: "ctx_frame ctx0 ctx1"
      and pc: "sqlcipher_page_cipher ctx1 CIPHER_WRITE_CTX pgno SQLCIPHER_ENCRYPT (page_sz ctx0 - codec_offset ctx0 pgno) (drop (nat (codec_offset ctx0 pgno)) data)
         (drop (nat (codec_offset ctx0 pgno)) buf) w1 = Some (rc, out, w1\<lparr>w_calls := k\<rparr>)"
      and l: "length buf = nat (page_sz ctx0)" "length out = nat (page_sz ctx0) - nat (codec_offset ctx0 pgno)"
        "length (encrypt_head ctx0 salt data pgno) = nat (codec_offset ctx0 pgno)"
      and page: "page = encrypt_head ctx0 salt data pgno @ (if rc = SQLITE_OK then out else replicate (length out) 0)"
      and e: "codec_encrypt ctx0 CIPHER_WRITE_CTX data pgno w0 =
        (if rc = SQLITE_OK then Some (Ret_buffer, data, ctx1\<lparr>buffer := Some (a, page), flags := SQLCIPHER_FLAG_SET (flags ctx1) CIPHER_FLAG_KEY_USED\<rparr>, w1\<lparr>w_calls := k\<rparr>)
         else Some (Ret_NULL, data, sqlcipher_codec_ctx_set_error (ctx1\<lparr>buffer := Some (a, page)\<rparr>) rc, w1\<lparr>w_calls := k\<rparr>))"
    have rc: "rc = SQLITE_OK" and c: "ctx' = ctx1\<lparr>buffer := Some (a, page), flags := SQLCIPHER_FLAG_SET (flags ctx1) CIPHER_FLAG_KEY_USED\<rparr>" "w' = w1\<lparr>w_calls := k\<rparr>"
      using e en by (auto split: if_splits)
    note ff = ctx_frame_fields [OF f]
    have hd: "encrypt_head ctx0 salt data pgno = encrypt_head ctx salt data pgno" using s by (simp add: eh)
    have ag: "agree ctx \<longrightarrow> agree ctx1" using wf0(2) ff by (simp add: agree_def)
    obtain r t where rt: "read_ctx ctx0 = Some r" "write_ctx ctx0 = Some t" "derive_key r = 0" "derive_key t = 0"
      "store_pass ctx0 \<noteq> 1 \<longrightarrow> pass r = None \<and> pass_sz r = 0 \<and> pass t = None \<and> pass_sz t = 0"
      using dr s by (auto simp: derived_def both_done_def)
    have again: "sqlcipher_codec_key_derive ctx' v = Some (SQLITE_OK, ctx', v)" for v
      by (rule derive_again [of ctx' r t]) (use rt ff c(1) in simp_all)
    show ?thesis
      by (rule that [OF ctx_frame_wf [OF f wf0(1)] same_settings_trans [OF ss frame_settings [OF f]] ag _ _ _ _ _ _ c(2) again])
        (use ok(2) s pc rc l hd c(1) page in simp_all)
  qed
qed

definition written :: "codec_ctx \<Rightarrow> u32 \<Rightarrow> bytes \<Rightarrow> bytes" where
  "written ctx pgno data =
     (let d = take (nat (page_sz ctx - reserve_sz ctx)) data
      in if pgno = 1 \<and> plaintext_header_sz ctx = 0 then SQLITE_FILE_HEADER @ drop 16 d else d)"

lemma read_back_bytes:
  assumes "0 \<le> plaintext_header_sz ctx" "reserve_sz ctx \<le> page_sz ctx - codec_offset ctx pgno" "length data = nat (page_sz ctx)" "0 \<le> reserve_sz ctx"
    and h: "length (encrypt_head ctx salt data pgno) = nat (codec_offset ctx pgno)"
    and m: "m = nat (page_sz ctx - codec_offset ctx pgno - reserve_sz ctx)"
    and r: "take m res = take m (drop (nat (codec_offset ctx pgno)) data)"
  shows "take (nat (page_sz ctx - reserve_sz ctx)) (decrypt_head ctx (encrypt_head ctx salt data pgno @ out) pgno @ res) = written ctx pgno data"
proof -
  have n: "nat (page_sz ctx - reserve_sz ctx) = nat (codec_offset ctx pgno) + m"
    using codec_offset_bounds [OF assms(1), of pgno] assms(2,4) by (simp add: m)
  have "length (decrypt_head ctx (encrypt_head ctx salt data pgno @ out) pgno) = nat (codec_offset ctx pgno)"
    using h by (auto simp: decrypt_head_def codec_offset_def FILE_HEADER_SZ_def)
  then have "take (nat (page_sz ctx - reserve_sz ctx)) (decrypt_head ctx (encrypt_head ctx salt data pgno @ out) pgno @ res) =
      decrypt_head ctx (encrypt_head ctx salt data pgno @ out) pgno @ take m (drop (nat (codec_offset ctx pgno)) data)"
    unfolding n using r by simp
  moreover have "decrypt_head ctx (encrypt_head ctx salt data pgno @ out) pgno =
      (if pgno = 1 \<and> plaintext_header_sz ctx = 0 then SQLITE_FILE_HEADER else take (nat (codec_offset ctx pgno)) data)"
    using h by (auto simp: decrypt_head_def encrypt_head_def codec_offset_def FILE_HEADER_SZ_def)
  moreover have "take (nat (codec_offset ctx pgno) + m) data = take (nat (codec_offset ctx pgno)) data @ take m (drop (nat (codec_offset ctx pgno)) data)"
    by (rule take_add)
  moreover have "pgno = 1 \<and> plaintext_header_sz ctx = 0 \<Longrightarrow> drop 16 (take (nat (codec_offset ctx pgno) + m) data) = take m (drop (nat (codec_offset ctx pgno)) data)"
    by (simp add: codec_offset_def FILE_HEADER_SZ_def drop_take)
  ultimately show ?thesis unfolding written_def n Let_def by auto
qed

lemma codec_read_back:
  assumes "codec_wf ctx" "x_error ctx = SQLITE_OK" "agree ctx" "holds g R (codec_owned ctx) w" "page_call ctx (data, pgno, CODEC_WRITE_OP)"
    and run: "sqlite3Codec ctx data pgno CODEC_WRITE_OP w = Some (Ret_buffer, data', ctx', w')"
  shows "\<exists>page res ctx'' w''. contents (buffer ctx') = Some page \<and> length page = length data
    \<and> sqlite3Codec ctx' page pgno CODEC_READ_OP w' = Some (Ret_pData, res, ctx'', w'') \<and> x_error ctx'' = SQLITE_OK
    \<and> take (nat (page_sz ctx - reserve_sz ctx)) res = written ctx pgno data"
  using assms(1,2,4,5) run
proof (rule codec_write_run)
  fix ctx1 w1 a buf salt out k
  let ?off = "nat (codec_offset ctx pgno)" and ?n = "page_sz ctx - codec_offset ctx pgno" and ?h = "encrypt_head ctx salt data pgno"
  assume wf: "codec_wf ctx1" "same_settings ctx ctx1" "agree ctx \<longrightarrow> agree ctx1" and ph: "0 \<le> plaintext_header_sz ctx"
    and pc: "sqlcipher_page_cipher ctx1 CIPHER_WRITE_CTX pgno SQLCIPHER_ENCRYPT ?n (drop ?off data) (drop ?off buf) w1 = Some (SQLITE_OK, out, w1\<lparr>w_calls := k\<rparr>)"
    and l: "length buf = nat (page_sz ctx)" "length out = nat (page_sz ctx) - ?off" "length ?h = ?off"
    and c: "ctx' = ctx1\<lparr>buffer := Some (a, ?h @ out), flags := SQLCIPHER_FLAG_SET (flags ctx1) CIPHER_FLAG_KEY_USED\<rparr>" "w' = w1\<lparr>w_calls := k\<rparr>"
    and again: "\<And>v. sqlcipher_codec_key_derive ctx' v = Some (SQLITE_OK, ctx', v)"
  note s = same_settings_fields [OF wf(2)]
  obtain b d where pg: "512 \<le> page_sz ctx" "0 < reserve_sz ctx" by (rule codec_wf_page [OF assms(1)])
  have hk: "length data = nat (page_sz ctx)" "header_ok ctx pgno" using assms(5) by (simp_all add: page_call_def)
  have o: "0 \<le> codec_offset ctx pgno" "reserve_sz ctx \<le> ?n" "?off \<le> nat (page_sz ctx)"
    using hk(2) ph codec_offset_bounds [OF ph, of pgno] pg by (auto simp: header_ok_def)
  have co: "codec_offset ctx' pgno = codec_offset ctx pgno" "page_sz ctx' = page_sz ctx" "reserve_sz ctx' = reserve_sz ctx"
    "plaintext_header_sz ctx' = plaintext_header_sz ctx" "x_error ctx' = SQLITE_OK" "buffer ctx' = Some (a, ?h @ out)"
    using s assms(2) by (simp_all add: c(1) codec_offset_def)
  have ag: "agree ctx1" using wf(3) assms(3) by simp
  have r: "reserve_sz ctx1 = reserve_sz ctx" using s by simp
  have n: "0 \<le> ?n" "reserve_sz ctx1 \<le> ?n" "?n \<le> int (length (drop ?off data))" "length (drop ?off buf) = length (drop ?off data)"
    "length out = length (drop ?off data)" using o pg hk(1) l r by simp_all
  obtain res0 where d: "sqlcipher_page_cipher ctx1 CIPHER_READ_CTX pgno SQLCIPHER_DECRYPT ?n out out w' = Some (SQLITE_OK, res0, w')"
    "take (nat (?n - reserve_sz ctx1)) res0 = take (nat (?n - reserve_sz ctx1)) (drop ?off data)"
    by (rule page_cipher_undone [OF wf(1) ag n pc, of w']) (simp_all add: c(2))
  have lr: "length res0 = length out"
  proof (rule page_cipher_any [OF wf(1) n(2), of out out SQLCIPHER_DECRYPT CIPHER_READ_CTX pgno w'])
    show "?n \<le> int (length out)" "?n \<le> int (length out)" using n by simp_all
  qed (use d(1) in simp_all)
  let ?d = "decrypt_head ctx' (?h @ out) pgno"
  have room: "codec_room ctx' (codec_offset ctx' pgno) (?h @ out) (?h @ out)" using o pg co l by (simp add: codec_room_def)
  have lp: "length (?h @ out) = nat (page_sz ctx')" using o co l by simp
  have d': "sqlcipher_page_cipher ctx' CIPHER_READ_CTX pgno SQLCIPHER_DECRYPT (page_sz ctx' - codec_offset ctx' pgno)
      (drop ?off (?h @ out)) (drop ?off (?h @ out)) w' = Some (SQLITE_OK, res0, w')"
    using d(1) unfolding co(1,2) by (simp add: l(3) c(1) page_cipher_cong [OF bits_key_used])
  have dh: "?d = decrypt_head ctx (?h @ out) pgno" unfolding decrypt_head_def co(1,4) ..
  note e = codec_decrypt_eq [OF co(6) room lp lp _ d' _ refl]
  have e': "codec_decrypt ctx' (?h @ out) pgno w' = Some (Ret_pData, ?d @ res0,
      ctx'\<lparr>buffer := Some (a, ?d @ res0), flags := SQLCIPHER_FLAG_SET (flags ctx') CIPHER_FLAG_KEY_USED\<rparr>, w')"
    by (rule e [unfolded if_P [OF refl]]) (use co(1) lr l in simp_all)
  have "sqlite3Codec ctx' (?h @ out) pgno CODEC_READ_OP w' = Some (Ret_pData, ?d @ res0,
      ctx'\<lparr>buffer := Some (a, ?d @ res0), flags := SQLCIPHER_FLAG_SET (flags ctx') CIPHER_FLAG_KEY_USED\<rparr>, w')"
    using e' again ph co by (simp add: sqlite3Codec_def)
  moreover have "take (nat (page_sz ctx - reserve_sz ctx)) (?d @ res0) = written ctx pgno data"
    unfolding dh by (rule read_back_bytes [OF ph o(2) hk(1) _ l(3) refl]) (use pg d(2) r in simp_all)
  ultimately show ?thesis using co lp hk by simp
qed

section \<open>An instance\<close>

text \<open>A context whose keys are derived and whose passphrase is stored, and a page for it.\<close>

definition demo_ready :: codec_ctx where
  "demo_ready = demo_codec\<lparr>store_pass := 1, read_ctx := Some ((demo_cipher 4096)\<lparr>derive_key := 0\<rparr>),
     write_ctx := Some ((demo_cipher 8192)\<lparr>derive_key := 0\<rparr>)\<rparr>"

definition demo_full :: bytes where
  "demo_full = replicate 512 9"

lemma demo_ready_facts:
  "codec_wf demo_ready" "holds demo_held {} (codec_owned demo_ready) demo_held" "agree demo_ready" "x_error demo_ready = SQLITE_OK"
  "page_call demo_ready (demo_full, 2, mode)" "header_ok demo_ready 2" "length demo_full = 512"
  using demo_codec_wf demo_held_holds
  by (auto simp: demo_ready_def wf_defs codec_owned_def cipher_owned_def agree_def same_material_def demo_codec_def demo_cipher_def
      page_call_def demo_full_def header_ok_def codec_offset_def cipher_wf_def)

lemma demo_provider_encrypts:
  assumes "codec_wf ctx" "x_provider ctx = Some demo_provider" "reserve_sz ctx \<le> psz" "psz \<le> int (length inp)" "psz \<le> int (length out)" "pgno \<noteq> 1"
    "sqlcipher_page_cipher ctx f pgno SQLCIPHER_ENCRYPT psz inp out w = Some (rc, out', w')"
  shows "rc = SQLITE_OK"
proof -
  obtain c where c: "ctx_of ctx f = Some c" using codec_wf_ctx_of [OF assms(1)] by blast
  have "page_args ctx pgno psz inp out" using assms by (simp add: page_args_def)
  from codec_wf_params [OF assms(1) c this] obtain p S Z I H k hk where
    g: "page_params ctx c psz p S Z I H k hk" "S + Z \<le> length inp" "S + Z \<le> length out"
      "\<not> (pgno = 1 \<and> S = 0)" "(if f \<noteq> 0 then write_ctx ctx else read_ctx ctx) = Some c" by blast
  have p: "p = demo_provider" using g(1) assms(2) by (simp add: page_params_def)
  have r: "pv_random p (w_calls w) Z = (SQLITE_OK, replicate Z (of_nat (w_calls w)))" by (simp add: p demo_provider_def)
  have x: "pv_cipher p SQLCIPHER_ENCRYPT (plain_key w ctx k) (take I (replicate Z (of_nat (w_calls w)))) (take S inp) = (SQLITE_OK, map (\<lambda>b. b XOR 0xAA) (take S inp))"
    by (simp add: p demo_provider_def)
  have "fst (mac_of w ctx p hk pgno y) = SQLITE_OK" for y by (simp add: mac_of_def p demo_provider_def)
  then show ?thesis using encrypt_page [OF g(1,5,2-4) r x] assms(7) by simp
qed

lemma demo_ready_writes:
  obtains ctx' w' where "sqlite3Codec demo_ready demo_full 2 CODEC_WRITE_OP demo_held = Some (Ret_buffer, demo_full, ctx', w')"
proof -
  have d: "sqlcipher_codec_key_derive demo_ready demo_held = Some (SQLITE_OK, demo_ready, demo_held)"
    by (rule derive_again [where r = "(demo_cipher 4096)\<lparr>derive_key := 0\<rparr>" and t = "(demo_cipher 8192)\<lparr>derive_key := 0\<rparr>"])
      (simp_all add: demo_ready_def)
  note f = demo_ready_facts
  have s: "page_sz demo_ready = 512" "reserve_sz demo_ready = 6" "plaintext_header_sz demo_ready = 0" "x_provider demo_ready = Some demo_provider"
    by (simp_all add: demo_ready_def demo_codec_def)
  have a: "length demo_full = nat (page_sz demo_ready)" "0 \<le> plaintext_header_sz demo_ready" using s f(7) by simp_all
  have "\<exists>ctx' w'. codec_encrypt demo_ready CIPHER_WRITE_CTX demo_full 2 demo_held = Some (Ret_buffer, demo_full, ctx', w')"
  proof (rule codec_encrypt_run [OF f(1) a f(6) f(2), of CIPHER_WRITE_CTX])
    fix rc ctx1 w1
    assume "codec_encrypt demo_ready CIPHER_WRITE_CTX demo_full 2 demo_held = Some (Ret_NULL, demo_full, sqlcipher_codec_ctx_set_error ctx1 rc, w1)" "(2 :: u32) = 1"
    then show ?thesis by simp
  next
    fix rc ctx1 w1 a buf salt out k page
    assume c: "ctx_frame demo_ready ctx1" "length buf = nat (page_sz demo_ready)"
      and p: "sqlcipher_page_cipher ctx1 CIPHER_WRITE_CTX 2 SQLCIPHER_ENCRYPT (page_sz demo_ready - codec_offset demo_ready 2)
         (drop (nat (codec_offset demo_ready 2)) demo_full) (drop (nat (codec_offset demo_ready 2)) buf) w1 = Some (rc, out, w1\<lparr>w_calls := k\<rparr>)"
      and e: "codec_encrypt demo_ready CIPHER_WRITE_CTX demo_full 2 demo_held =
        (if rc = SQLITE_OK then Some (Ret_buffer, demo_full, ctx1\<lparr>buffer := Some (a, page), flags := SQLCIPHER_FLAG_SET (flags ctx1) CIPHER_FLAG_KEY_USED\<rparr>, w1\<lparr>w_calls := k\<rparr>)
         else Some (Ret_NULL, demo_full, sqlcipher_codec_ctx_set_error (ctx1\<lparr>buffer := Some (a, page)\<rparr>) rc, w1\<lparr>w_calls := k\<rparr>))"
    have "rc = SQLITE_OK"
      by (rule demo_provider_encrypts [OF ctx_frame_wf [OF c(1) f(1)] _ _ _ _ _ p])
        (use s c(2) f(7) ctx_frame_fields [OF c(1)] in \<open>simp_all add: codec_offset_def\<close>)
    then show ?thesis using e by simp
  qed
  then show ?thesis using d f(4) s that by (auto simp: sqlite3Codec_def CODEC_READ_OP_def CODEC_WRITE_OP_def)
qed

section \<open>Properties\<close>

text \<open>
  C1: A page that the codec encrypted for writing is what it decrypts again: while the read and
  write contexts hold the same key material, reading back the buffer of a successful write
  succeeds without an error, and gives the usable part of the page as it was; on the first page
  of a database without a plain header the salt gives way to the SQLite file magic.
\<close>

theorem codec_write_then_read:
  assumes "codec_wf ctx" "x_error ctx = SQLITE_OK" "agree ctx" "holds g R (codec_owned ctx) w" "page_call ctx (data, pgno, CODEC_WRITE_OP)"
    and "sqlite3Codec ctx data pgno CODEC_WRITE_OP w = Some (Ret_buffer, data', ctx', w')"
  shows "\<exists>page res ctx'' w''. contents (buffer ctx') = Some page \<and> length page = length data
    \<and> sqlite3Codec ctx' page pgno CODEC_READ_OP w' = Some (Ret_pData, res, ctx'', w'') \<and> x_error ctx'' = SQLITE_OK
    \<and> take (nat (page_sz ctx - reserve_sz ctx)) res = written ctx pgno data"
  using assms by (rule codec_read_back)

theorem codec_write_then_read_witness:
  "\<exists>page ctx' w' res ctx'' w''. sqlite3Codec demo_ready demo_full 2 CODEC_WRITE_OP demo_held = Some (Ret_buffer, demo_full, ctx', w')
    \<and> contents (buffer ctx') = Some page
    \<and> sqlite3Codec ctx' page 2 CODEC_READ_OP w' = Some (Ret_pData, res, ctx'', w'') \<and> take 506 res = replicate 506 9"
proof -
  obtain ctx' w' where r: "sqlite3Codec demo_ready demo_full 2 CODEC_WRITE_OP demo_held = Some (Ret_buffer, demo_full, ctx', w')"
    by (rule demo_ready_writes)
  have "nat (page_sz demo_ready - reserve_sz demo_ready) = 506" "written demo_ready 2 demo_full = replicate 506 9"
    by (simp_all add: demo_ready_def demo_codec_def written_def demo_full_def)
  then show ?thesis
    using codec_write_then_read [OF demo_ready_facts(1,4,3,2,5) r] r by auto
qed



text \<open>
  C4: An error is final. After the codec has recorded one, every later call of any sequence is
  refused - a read gives a page of zeros, anything else gives NULL and leaves the page alone -
  the error stays the one recorded first, and neither memory nor the provider is used again.
\<close>

theorem codec_error_latched:
  assumes "x_error ctx \<noteq> SQLITE_OK" "codec_trace ctx w tr ctx' w'"
  shows "x_error ctx' = x_error ctx \<and> w' = w \<and> (\<forall>s \<in> set tr. refused ctx s)"
proof -
  have "x_error ctx' = x_error ctx \<and> w' = w \<and> (\<forall>s \<in> set tr. refused c s)"
    if "codec_trace ctx w tr ctx' w'" "x_error ctx \<noteq> SQLITE_OK" "page_sz c = page_sz ctx" for c ctx w tr ctx' w'
    using that
  proof (induction rule: codec_trace.induct)
    case (trace_call ctx data pgno mode w ret data' ctx1 w1 tr ctx2 w2)
    then show ?case using codec_call_error [OF _ trace_call.hyps(1)] by (auto simp: refused_def)
  qed simp
  from this [OF assms(2,1) refl] show ?thesis .
qed

theorem codec_error_latched_witness:
  "\<exists>ctx' w' ret1 ret2 d1 d2. codec_trace (demo_ready\<lparr>x_error := 7\<rparr>) demo_held
       [((demo_full, 2, CODEC_READ_OP), (ret1, d1)), ((demo_full, 2, CODEC_WRITE_OP), (ret2, d2))] ctx' w'
     \<and> ret1 = Ret_pData \<and> d1 = replicate 512 0 \<and> ret2 = Ret_NULL \<and> x_error ctx' = 7"
proof -
  let ?c = "demo_ready\<lparr>x_error := 7\<rparr>"
  have e: "x_error ?c \<noteq> SQLITE_OK" "length demo_full = nat (page_sz ?c)" "0 \<le> page_sz ?c"
    by (simp_all add: demo_ready_def demo_codec_def demo_full_def)
  obtain r1 d1 where 1: "sqlite3Codec ?c demo_full 2 CODEC_READ_OP demo_held = Some (r1, d1, sqlcipher_codec_ctx_set_error ?c 7, demo_held)"
    by (rule codec_call_error_runs [OF e, of 2 CODEC_READ_OP demo_held]) simp
  let ?d = "sqlcipher_codec_ctx_set_error ?c 7"
  have "x_error ?d \<noteq> SQLITE_OK" "length demo_full = nat (page_sz ?d)" "0 \<le> page_sz ?d" using e by simp_all
  from codec_call_error_runs [OF this, of 2 CODEC_WRITE_OP demo_held] obtain r2 d2 where
    2: "sqlite3Codec ?d demo_full 2 CODEC_WRITE_OP demo_held = Some (r2, d2, sqlcipher_codec_ctx_set_error ?d 7, demo_held)" by auto
  have t: "codec_trace ?c demo_held [((demo_full, 2, CODEC_READ_OP), (r1, d1)), ((demo_full, 2, CODEC_WRITE_OP), (r2, d2))]
      (sqlcipher_codec_ctx_set_error ?d 7) demo_held"
    using 1 2 by simp
  have "page_sz ?c = 512" by (simp add: demo_ready_def demo_codec_def)
  then show ?thesis using codec_error_latched [OF e(1) t] t demo_ready_facts(7)
    by (intro exI [of _ "sqlcipher_codec_ctx_set_error ?d 7"] exI [of _ demo_held] exI [of _ r1] exI [of _ r2] exI [of _ d1] exI [of _ d2])
      (simp add: refused_def CODEC_READ_OP_def CODEC_WRITE_OP_def del: codec_trace_simps)
qed

end
