(* ===== verification/SC_Varint.thy ===== *)
theory SC_Varint
  imports SC_Bytes SC_Xoshiro "HOL-Library.Monad_Syntax"
begin

unbundle bit_operations_syntax

text \<open>
  The variable-length integers of src/src/util.c and the other big-endian codes of that file.

  A writer returns the number of bytes it wrote and the bytes; a reader gets the memory from
  \<open>p\<close> on, has no result when it would read outside it, and returns what it stored and
  the number of bytes it read. The readers and writers are instances of one interface: codes
  that tell from their bytes where they end.
\<close>

section \<open>Definitions\<close>

lemma unat_drop_bit_less:
  fixes v :: "'a::len word"
  assumes "0 < k" "drop_bit k v \<noteq> 0"
  shows "unat (drop_bit k v) < unat v"
proof -
  have u: "unat (drop_bit k v) = unat v div 2 ^ k" by (simp only: unat_drop_bit_eq) (simp only: drop_bit_eq_div)
  have "unat (drop_bit k v) \<noteq> 0" using assms(2) by (simp only: unat_eq_0) simp
  then have "0 < unat v" unfolding u by (cases "unat v = 0") simp_all
  moreover have "(1 :: nat) < 2 ^ k" using assms(1) by (intro one_less_power) simp_all
  ultimately show ?thesis unfolding u by (intro div_less_dividend)
qed

text \<open>The do-while loop that collects groups of seven bits.\<close>

function put_groups :: "u64 \<Rightarrow> bytes" where
  "put_groups v =
     (let b = (ucast (v AND 0x7F) OR 0x80 :: byte); v = drop_bit 7 v
      in if v = 0 then [b] else b # put_groups v)"
  by pat_completeness auto
termination
  by (relation "measure unat") (simp_all add: unat_drop_bit_less)

declare put_groups.simps [simp del]

text \<open>The loop over the upper eight bytes of the nine-byte form, from the last one down.\<close>

fun put_high :: "nat \<Rightarrow> u64 \<Rightarrow> bytes" where
  "put_high 0 v = []"
| "put_high (Suc i) v = put_high i (drop_bit 7 v) @ [ucast (v AND 0x7F) OR 0x80]"

definition putVarint64 :: "u64 \<Rightarrow> int \<times> bytes" where
  "putVarint64 v =
     (if v AND push_bit 32 0xFF000000 \<noteq> 0 then (9, put_high 8 (drop_bit 8 v) @ [ucast v])
      else let buf = put_groups v; buf = buf[0 := buf ! 0 AND 0x7F] in (int (length buf), rev buf))"

definition sqlite3PutVarint :: "u64 \<Rightarrow> int \<times> bytes" where
  "sqlite3PutVarint v =
     (if v \<le> 0x7F then (1, [ucast (v AND 0x7F)])
      else if v \<le> 0x3FFF then (2, [ucast ((drop_bit 7 v AND 0x7F) OR 0x80), ucast (v AND 0x7F)])
      else putVarint64 v)"

definition byte_at :: "bytes \<Rightarrow> nat \<Rightarrow> byte option" where
  "byte_at p i = (if i < length p then Some (p ! i) else None)"

definition sqlite3GetVarint :: "bytes \<Rightarrow> (u64 \<times> nat) option" where
  "sqlite3GetVarint p = do {
     x \<leftarrow> byte_at p 0;
     let iKey = (ucast x :: u64);
     if iKey \<ge> 0x80 then do {
       x \<leftarrow> byte_at p 1;
       let iKey = push_bit 7 iKey XOR ucast x;
       if x \<ge> 0x80 then do {
         x \<leftarrow> byte_at p 2;
         let iKey = push_bit 7 iKey XOR ucast x;
         if x \<ge> 0x80 then do {
           x \<leftarrow> byte_at p 3;
           let iKey = push_bit 7 iKey XOR 0x10204000 XOR ucast x;
           if x \<ge> 0x80 then do {
             x \<leftarrow> byte_at p 4;
             let iKey = push_bit 7 iKey XOR 0x4000 XOR ucast x;
             if x \<ge> 0x80 then do {
               x \<leftarrow> byte_at p 5;
               let iKey = push_bit 7 iKey XOR 0x4000 XOR ucast x;
               if x \<ge> 0x80 then do {
                 x \<leftarrow> byte_at p 6;
                 let iKey = push_bit 7 iKey XOR 0x4000 XOR ucast x;
                 if x \<ge> 0x80 then do {
                   x \<leftarrow> byte_at p 7;
                   let iKey = push_bit 7 iKey XOR 0x4000 XOR ucast x;
                   if x \<ge> 0x80 then do {
                     x \<leftarrow> byte_at p 8;
                     Some (push_bit 8 iKey XOR 0x8000 XOR ucast x, 9) }
                   else Some (iKey, 8) }
                 else Some (iKey, 7) }
               else Some (iKey, 6) }
             else Some (iKey, 5) }
           else Some (iKey, 4) }
         else Some (iKey XOR 0x204000, 3) }
       else Some (iKey XOR 0x4000, 2) }
     else Some (iKey, 1) }"

definition sqlite3VarintValue :: "bytes \<Rightarrow> u64 option" where
  "sqlite3VarintValue p = do {
     x \<leftarrow> byte_at p 0;
     let iKey = (ucast x :: u64);
     if iKey \<ge> 0x80 then do {
       x \<leftarrow> byte_at p 1;
       let iKey = push_bit 7 iKey XOR ucast x;
       if x \<ge> 0x80 then do {
         x \<leftarrow> byte_at p 2;
         let iKey = push_bit 7 iKey XOR ucast x;
         if x \<ge> 0x80 then do {
           x \<leftarrow> byte_at p 3;
           let iKey = push_bit 7 iKey XOR 0x10204000 XOR ucast x;
           if x \<ge> 0x80 then do {
             x \<leftarrow> byte_at p 4;
             let iKey = push_bit 7 iKey XOR 0x4000 XOR ucast x;
             if x \<ge> 0x80 then do {
               x \<leftarrow> byte_at p 5;
               let iKey = push_bit 7 iKey XOR 0x4000 XOR ucast x;
               if x \<ge> 0x80 then do {
                 x \<leftarrow> byte_at p 6;
                 let iKey = push_bit 7 iKey XOR 0x4000 XOR ucast x;
                 if x \<ge> 0x80 then do {
                   x \<leftarrow> byte_at p 7;
                   let iKey = push_bit 7 iKey XOR 0x4000 XOR ucast x;
                   if x \<ge> 0x80 then do {
                     x \<leftarrow> byte_at p 8;
                     Some (push_bit 8 iKey XOR 0x8000 XOR ucast x) }
                   else Some iKey }
                 else Some iKey }
               else Some iKey }
             else Some iKey }
           else Some iKey }
         else Some (iKey XOR 0x204000) }
       else Some (iKey XOR 0x4000) }
     else Some iKey }"

text \<open>\<open>sqlite3GetVarint32\<close> expects a first byte with its high bit set; the macro \<open>getVarint32\<close> is what callers use.\<close>

definition sqlite3GetVarint32 :: "bytes \<Rightarrow> (u32 \<times> nat) option" where
  "sqlite3GetVarint32 p = do {
     a \<leftarrow> byte_at p 0;
     b \<leftarrow> byte_at p 1;
     if b AND 0x80 = 0 then Some (push_bit 7 (ucast (a AND 0x7F)) OR ucast b, 2)
     else do {
       c \<leftarrow> byte_at p 2;
       if c AND 0x80 = 0 then
         Some (push_bit 14 (ucast (a AND 0x7F)) OR push_bit 7 (ucast (b AND 0x7F)) OR ucast c, 3)
       else do {
         (v64, n) \<leftarrow> sqlite3GetVarint p;
         if v64 AND 0xFFFFFFFF \<noteq> v64 then Some (0xFFFFFFFF, n) else Some (ucast v64, n) } } }"

definition getVarint32 :: "bytes \<Rightarrow> (u32 \<times> nat) option" where
  "getVarint32 p = do {
     a \<leftarrow> byte_at p 0;
     if a < 0x80 then Some (ucast a, 1) else sqlite3GetVarint32 p }"

text \<open>The loop of \<open>sqlite3VarintLen\<close> with its counter.\<close>

function varint_len_loop :: "u64 \<Rightarrow> int \<Rightarrow> int" where
  "varint_len_loop v i = (let v = drop_bit 7 v in if v \<noteq> 0 then varint_len_loop v (i + 1) else i)"
  by pat_completeness auto
termination
  by (relation "measure (\<lambda>(v, i). unat v)") (simp_all add: unat_drop_bit_less)

declare varint_len_loop.simps [simp del]

definition sqlite3VarintLen :: "u64 \<Rightarrow> int" where
  "sqlite3VarintLen v = varint_len_loop v 1"

text \<open>Eight bytes, big-endian, and the byte swap by masks that big-endian stores use.\<close>

definition sqlite3Get8byte :: "bytes \<Rightarrow> u64" where
  "sqlite3Get8byte p =
     push_bit 56 (ucast (p ! 0)) + push_bit 48 (ucast (p ! 1)) + push_bit 40 (ucast (p ! 2)) + push_bit 32 (ucast (p ! 3))
     + push_bit 24 (ucast (p ! 4)) + push_bit 16 (ucast (p ! 5)) + push_bit 8 (ucast (p ! 6)) + ucast (p ! 7)"

definition sqlite3BSwap64 :: "u64 \<Rightarrow> u64" where
  "sqlite3BSwap64 x =
     (let x = push_bit 32 x OR drop_bit 32 x;
          x = push_bit 16 (x AND 0x0000FFFF0000FFFF) OR drop_bit 16 (x AND 0xFFFF0000FFFF0000);
          x = push_bit 8 (x AND 0x00FF00FF00FF00FF) OR drop_bit 8 (x AND 0xFF00FF00FF00FF00)
      in x)"

section \<open>The reference decoder\<close>

text \<open>Seven bits from each byte up to the first one below 128; the ninth byte counts whole.\<close>

definition low :: "byte \<Rightarrow> u64" where
  "low x = ucast (x AND 0x7F)"

function vread :: "nat \<Rightarrow> u64 \<Rightarrow> bytes \<Rightarrow> (u64 \<times> nat) option" where
  "vread k acc p = do {
     x \<leftarrow> byte_at p k;
     if 8 \<le> k then Some (push_bit 8 acc XOR ucast x, k + 1)
     else if x \<ge> 0x80 then vread (Suc k) (push_bit 7 acc XOR low x) p
     else Some (push_bit 7 acc XOR low x, Suc k) }"
  by pat_completeness auto
termination
  by (relation "measure (\<lambda>(k, acc, p). 9 - k)") auto

declare vread.simps [simp del]

lemma unat_ucast_byte [simp]: "unat (ucast (x :: byte) :: u64) = unat x"
proof -
  have "unat x < 2 ^ 8" using unsigned_less [of x] by simp
  then show ?thesis by (simp add: unsigned_ucast_eq take_bit_nat_eq_self_iff)
qed

lemma split_flag:
  fixes x :: byte
  shows "x < 0x80 \<Longrightarrow> x AND 0x7F = x" "\<not> x < 0x80 \<Longrightarrow> (ucast x :: u64) = 0x80 XOR ucast (x AND 0x7F)"
    "(0x80 \<le> (ucast x :: u64)) \<longleftrightarrow> \<not> x < 0x80"
proof -
  have m: "x AND 0x7F = x AND mask 7" by (simp add: mask_eq_exp_minus_1)
  have lt: "x < 0x80 \<longleftrightarrow> x AND mask 7 = x" using mask_eq_iff_w2p [of 7 x] by (simp add: word_size)
  show "x AND 0x7F = x" if "x < 0x80" using that m lt by simp
  show "(0x80 \<le> (ucast x :: u64)) \<longleftrightarrow> \<not> x < 0x80"
    by (simp add: word_le_nat_alt word_less_nat_alt not_less)
  have "bit x 7" if "\<not> x < 0x80"
  proof (rule ccontr)
    assume "\<not> bit x 7"
    then have "x AND mask 7 = x" by (intro bit_word_eqI) (auto simp: bit_simps less_Suc_eq numeral_eq_Suc)
    then show False using that lt by simp
  qed
  note b = this
  have c: "bit (0x80 :: int) n \<longleftrightarrow> n = 7" for n using bit_exp_iff [where 'a = int, of 7 n] by auto
  show "(ucast x :: u64) = 0x80 XOR ucast (x AND 0x7F)" if "\<not> x < 0x80"
    unfolding m
  proof (rule bit_word_eqI)
    fix n assume "n < LENGTH(64)"
    moreover have "bit x n \<Longrightarrow> n < 8" using bit_imp_le_length [of x n] by simp
    ultimately show "bit (ucast x :: u64) n = bit (0x80 XOR ucast (x AND mask 7) :: u64) n"
      using b [OF that] by (cases "n = 7"; cases "n < 7") (auto simp: bit_xor_iff bit_and_iff bit_mask_iff bit_unsigned_iff c)
  qed
qed

lemma low_high:
  "\<not> 0x80 \<le> x \<Longrightarrow> ucast x = low x" "0x80 \<le> x \<Longrightarrow> ucast x = 0x80 XOR low x"
  using split_flag [of x] by (simp_all add: low_def)

lemma xor_left_cancel: fixes x y :: u64 shows "x XOR (x XOR y) = y"
  by (simp flip: xor.assoc)

lemmas varint_xor = push_bit_xor xor.assoc xor.commute xor.left_commute xor_left_cancel

lemma vread_unroll:
  "vread 0 acc p = byte_at p 0 \<bind> (\<lambda>x. if x \<ge> 0x80 then vread 1 (push_bit 7 acc XOR low x) p else Some (push_bit 7 acc XOR low x, 1))"
  "vread 1 acc p = byte_at p 1 \<bind> (\<lambda>x. if x \<ge> 0x80 then vread 2 (push_bit 7 acc XOR low x) p else Some (push_bit 7 acc XOR low x, 2))"
  "vread 2 acc p = byte_at p 2 \<bind> (\<lambda>x. if x \<ge> 0x80 then vread 3 (push_bit 7 acc XOR low x) p else Some (push_bit 7 acc XOR low x, 3))"
  "vread 3 acc p = byte_at p 3 \<bind> (\<lambda>x. if x \<ge> 0x80 then vread 4 (push_bit 7 acc XOR low x) p else Some (push_bit 7 acc XOR low x, 4))"
  "vread 4 acc p = byte_at p 4 \<bind> (\<lambda>x. if x \<ge> 0x80 then vread 5 (push_bit 7 acc XOR low x) p else Some (push_bit 7 acc XOR low x, 5))"
  "vread 5 acc p = byte_at p 5 \<bind> (\<lambda>x. if x \<ge> 0x80 then vread 6 (push_bit 7 acc XOR low x) p else Some (push_bit 7 acc XOR low x, 6))"
  "vread 6 acc p = byte_at p 6 \<bind> (\<lambda>x. if x \<ge> 0x80 then vread 7 (push_bit 7 acc XOR low x) p else Some (push_bit 7 acc XOR low x, 7))"
  "vread 7 acc p = byte_at p 7 \<bind> (\<lambda>x. if x \<ge> 0x80 then vread 8 (push_bit 7 acc XOR low x) p else Some (push_bit 7 acc XOR low x, 8))"
  "vread 8 acc p = byte_at p 8 \<bind> (\<lambda>x. Some (push_bit 8 acc XOR ucast x, 9))"
  by (rule trans [OF vread.simps], simp cong: if_cong | simp add: numeral_2_eq_2 cong: if_cong)+

lemma GetVarint_vread: "sqlite3GetVarint p = vread 0 0 p"
proof -
  have le: "(0x80 \<le> (ucast x :: u64)) = (0x80 \<le> x)" for x :: byte by (simp add: split_flag not_less)
  show ?thesis unfolding sqlite3GetVarint_def Let_def le vread_unroll
    by (intro Option.bind_cong if_cong refl) (simp_all add: low_high varint_xor)
qed


text \<open>\<open>sqlite3VarintValue\<close> is the same computation without the length.\<close>

lemma VarintValue_eq: "sqlite3VarintValue p = map_option fst (sqlite3GetVarint p)"
proof -
  have m: "map_option fst (x \<bind> f) = x \<bind> (\<lambda>a. map_option fst (f a))" for x :: "byte option" and f :: "byte \<Rightarrow> (u64 \<times> nat) option"
    by (cases x) simp_all
  show ?thesis unfolding sqlite3VarintValue_def sqlite3GetVarint_def Let_def m if_distrib [of "map_option fst"]
    by (intro Option.bind_cong if_cong refl) simp_all
qed

section \<open>The writers\<close>

lemma length_put_high [simp]: "length (put_high n v) = n"
  by (induction n arbitrary: v) simp_all

lemma rev_put_groups: "rev (put_groups v) = put_high (length (put_groups v)) v"
proof (induction v rule: put_groups.induct)
  case (1 v)
  show ?case
  proof (cases "drop_bit 7 v = 0")
    case False
    then show ?thesis using 1 [OF refl refl] by (simp add: put_groups.simps [of v])
  qed (simp add: put_groups.simps [of v])
qed

lemma put_groups_step:
  "drop_bit 7 v = 0 \<Longrightarrow> length (put_groups v) = 1"
  "drop_bit 7 v \<noteq> 0 \<Longrightarrow> length (put_groups v) = Suc (length (put_groups (drop_bit 7 v)))"
  "0 < length (put_groups v)"
  by (simp_all add: put_groups.simps [of v] Let_def)

lemma put_groups_enough: "drop_bit (7 * length (put_groups v)) v = 0"
proof (induction v rule: put_groups.induct)
  case (1 v)
  show ?case
  proof (cases "drop_bit 7 v = 0")
    case False
    then show ?thesis using 1 [OF refl refl] by (simp add: put_groups_step(2) add.commute)
  qed (simp add: put_groups_step(1))
qed

lemma put_groups_least: "length (put_groups v) = Suc n \<Longrightarrow> 0 < n \<Longrightarrow> drop_bit (7 * n) v \<noteq> 0"
proof (induction v arbitrary: n rule: put_groups.induct)
  case (1 v)
  show ?case
  proof (cases "drop_bit 7 v = 0")
    case True
    then show ?thesis using 1(2,3) by (simp add: put_groups_step)
  next
    case False
    obtain k where n: "n = Suc k" using 1(3) by (cases n) auto
    have l: "length (put_groups (drop_bit 7 v)) = Suc k" using 1(2) n False by (simp add: put_groups_step)
    show ?thesis
    proof (cases k)
      case 0
      then show ?thesis using False n by simp
    next
      case (Suc j)
      then show ?thesis using 1(1) [OF refl refl False l] n by (simp add: add.commute)
    qed
  qed
qed

lemma varint_len_loop_eq: "varint_len_loop v i = i + int (length (put_groups v)) - 1"
proof (induction v i rule: varint_len_loop.induct)
  case (1 v i)
  then show ?case by (cases "drop_bit 7 v = 0") (simp_all add: varint_len_loop.simps [of v] put_groups.simps [of v])
qed


lemma drop_bit_zero_mono:
  fixes v :: u64
  assumes "drop_bit k v = 0" "k \<le> m"
  shows "drop_bit m v = 0"
proof -
  have "drop_bit m v = drop_bit (m - k) (drop_bit k v)" unfolding drop_bit_drop_bit using assms(2) by simp
  then show ?thesis by (simp add: assms(1))
qed

lemma drop_bit_zero_iff: "drop_bit 7 v = 0 \<longleftrightarrow> v \<le> 0x7F" "drop_bit 14 v = 0 \<longleftrightarrow> v \<le> 0x3FFF" for v :: u64
proof -
  have u: "unat (drop_bit k v) = unat v div 2 ^ k" for k by (simp only: unat_drop_bit_eq) (simp only: drop_bit_eq_div)
  have "unat (drop_bit 7 v) = 0 \<longleftrightarrow> unat v \<le> 127" "unat (drop_bit 14 v) = 0 \<longleftrightarrow> unat v \<le> 16383"
    unfolding u by (auto simp: div_eq_0_iff)
  then show "drop_bit 7 v = 0 \<longleftrightarrow> v \<le> 0x7F" "drop_bit 14 v = 0 \<longleftrightarrow> v \<le> 0x3FFF"
    unfolding unat_eq_0 by (simp_all add: word_le_nat_alt)
qed

lemma high_byte_mask: "v AND 0xFF00000000000000 = 0 \<longleftrightarrow> drop_bit 56 v = 0" for v :: u64
proof -
  have m: "0xFF00000000000000 = (push_bit 56 (mask 8) :: u64)" by (simp add: mask_eq_exp_minus_1)
  have "v AND push_bit 56 (mask 8) = push_bit 56 (drop_bit 56 v)"
    by (rule bit_word_eqI) (auto simp: bit_simps)
  moreover have "push_bit 56 (drop_bit 56 v) = 0 \<longleftrightarrow> drop_bit 56 v = 0"
  proof
    assume z: "push_bit 56 (drop_bit 56 v) = 0"
    show "drop_bit 56 v = 0"
    proof (rule bit_word_eqI)
      fix n assume "n < LENGTH(64)"
      have "\<not> bit (push_bit 56 (drop_bit 56 v)) (56 + n)" unfolding z by simp
      then show "bit (drop_bit 56 v) n = bit 0 n" using bit_imp_le_length [of v "56 + n"] by (auto simp: bit_simps)
    qed
  qed simp
  ultimately show ?thesis unfolding m by simp
qed

lemma bit_0x80 [simp]: "bit (0x80 :: int) n \<longleftrightarrow> n = 7"
  using bit_exp_iff [where 'a = int, of 7 n] by auto

lemma bit_0x7F [simp]: "bit (0x7F :: int) n \<longleftrightarrow> n < 7"
  using bit_mask_iff [where 'a = int, of 7 n] by (simp add: mask_eq_exp_minus_1)

lemma flag_byte:
  "(ucast (x AND 0x7F) OR 0x80) AND 0x7F = (ucast (x AND 0x7F) :: byte)" "ucast ((x AND 0x7F) OR 0x80) = (ucast (x AND 0x7F) OR 0x80 :: byte)"
  "0x80 \<le> (ucast (x AND 0x7F) OR 0x80 :: byte)" "low (ucast (x AND 0x7F) OR 0x80) = x AND 0x7F" "low (ucast (x AND 0x7F)) = x AND 0x7F"
  "\<not> 0x80 \<le> (ucast (x AND 0x7F) :: byte)"
  for x :: u64
proof -
  show a: "(ucast (x AND 0x7F) OR 0x80) AND 0x7F = (ucast (x AND 0x7F) :: byte)"
    "ucast ((x AND 0x7F) OR 0x80) = (ucast (x AND 0x7F) OR 0x80 :: byte)"
    by (rule bit_word_eqI; auto simp: bit_or_iff bit_and_iff bit_unsigned_iff)+
  show b: "0x80 \<le> (ucast (x AND 0x7F) OR 0x80 :: byte)"
  proof (rule ccontr)
    assume "\<not> 0x80 \<le> (ucast (x AND 0x7F) OR 0x80 :: byte)"
    then have "(ucast (x AND 0x7F) OR 0x80 :: byte) = ucast (x AND 0x7F)" using split_flag(1) [of "ucast (x AND 0x7F) OR 0x80"] a by (simp add: not_le)
    then have "bit (ucast (x AND 0x7F) OR 0x80 :: byte) 7 = bit (ucast (x AND 0x7F) :: byte) 7" by simp
    then show False by (simp add: bit_or_iff bit_and_iff bit_unsigned_iff)
  qed
  have c: "ucast (ucast (x AND 0x7F) :: byte) = x AND 0x7F" by (rule bit_word_eqI) (auto simp: bit_and_iff bit_unsigned_iff)
  have d: "ucast (x AND 0x7F) AND 0x7F = (ucast (x AND 0x7F) :: byte)" by (rule bit_word_eqI) (auto simp: bit_and_iff bit_unsigned_iff)
  show "low (ucast (x AND 0x7F) OR 0x80) = x AND 0x7F" "low (ucast (x AND 0x7F)) = x AND 0x7F" unfolding low_def a(1) d by (rule c)+
  show "\<not> 0x80 \<le> (ucast (x AND 0x7F) :: byte)" 
  proof
    assume "0x80 \<le> (ucast (x AND 0x7F) :: byte)"
    then have "(ucast (ucast (x AND 0x7F) :: byte) :: u64) = 0x80 XOR ucast (ucast (x AND 0x7F) AND 0x7F :: byte)" by (intro split_flag(2)) simp
    then have "bit (x AND 0x7F) 7 = bit (0x80 XOR x AND 0x7F) 7" unfolding c d by (rule arg_cong)
    then show False by (simp add: bit_xor_iff bit_and_iff)
  qed
qed

text \<open>The form of every code: groups with the flag set, and one last byte.\<close>

lemma PutVarint_form:
  obtains (nine) "sqlite3PutVarint v = (9, put_high 8 (drop_bit 8 v) @ [ucast v])" "drop_bit 56 v \<noteq> 0"
    | (short) n where "sqlite3PutVarint v = (int (Suc n), put_high n (drop_bit 7 v) @ [ucast (v AND 0x7F)])" "n < 8"
      "drop_bit (7 * Suc n) v = 0" "Suc n = length (put_groups v)"
proof -
  obtain n where n: "length (put_groups v) = Suc n" using put_groups_step(3) [of v] by (cases "length (put_groups v)") auto
  have enough: "drop_bit (7 * Suc n) v = 0" using put_groups_enough [of v] n by simp
  show ?thesis
  proof (cases "drop_bit 56 v = 0")
    case False
    then have "\<not> v \<le> 0x7F" "\<not> v \<le> 0x3FFF" using drop_bit_zero_mono [of 7 v 56] drop_bit_zero_mono [of 14 v 56] by (auto simp flip: drop_bit_zero_iff)
    then show ?thesis using False nine by (simp add: sqlite3PutVarint_def putVarint64_def high_byte_mask)
  next
    case True
    have n8: "n < 8"
    proof (rule ccontr)
      assume "\<not> n < 8"
      then show False using put_groups_least [OF n] drop_bit_zero_mono [OF True, of "7 * n"] by simp
    qed
    have "sqlite3PutVarint v = (int (Suc n), put_high n (drop_bit 7 v) @ [ucast (v AND 0x7F)])"
    proof (cases "drop_bit 7 v = 0")
      case True
      then show ?thesis using n by (simp add: put_groups_step(1) sqlite3PutVarint_def drop_bit_zero_iff)
    next
      case False
      have g: "put_groups v = (ucast (v AND 0x7F) OR 0x80) # put_groups (drop_bit 7 v)" using False by (simp add: put_groups.simps [of v])
      have l: "length (put_groups (drop_bit 7 v)) = n" using n g by simp
      show ?thesis
      proof (cases "drop_bit 14 v = 0")
        case d: True
        then have "put_groups (drop_bit 7 v) = [ucast (drop_bit 7 v AND 0x7F) OR 0x80]" by (simp add: put_groups.simps [of "drop_bit 7 v"])
        then have "n = 1" using l by simp
        then show ?thesis using False d by (simp add: sqlite3PutVarint_def drop_bit_zero_iff flag_byte)
      next
        case d: False
        then have "sqlite3PutVarint v = putVarint64 v" using False by (simp add: sqlite3PutVarint_def drop_bit_zero_iff)
        also have "\<dots> = (int (Suc n), rev (put_groups (drop_bit 7 v)) @ [ucast (v AND 0x7F)])"
          using \<open>drop_bit 56 v = 0\<close> l by (simp add: putVarint64_def high_byte_mask g flag_byte)
        finally show ?thesis by (simp add: rev_put_groups l)
      qed
    qed
    then show ?thesis using n8 enough n by (intro short) simp_all
  qed
qed

lemma group_bits: "push_bit 7 (drop_bit 7 v AND mask n) XOR (v AND 0x7F) = v AND mask (n + 7)" for v :: u64
  by (rule bit_word_eqI) (auto simp: bit_simps not_less)

lemma vread_high:
  assumes "k + n \<le> 8" "length pre = k"
  shows "vread k acc (pre @ put_high n v @ rest) = vread (k + n) (push_bit (7 * n) acc XOR (v AND mask (7 * n))) (pre @ put_high n v @ rest)"
  using assms
proof (induction n arbitrary: v rest)
  case (Suc n)
  let ?b = "ucast (v AND 0x7F) OR 0x80 :: byte"
  let ?p = "pre @ put_high n (drop_bit 7 v) @ [?b] @ rest" and ?a = "push_bit (7 * n) acc XOR (drop_bit 7 v AND mask (7 * n))"
  have "vread k acc ?p = vread (k + n) ?a ?p" using Suc by simp
  also have "\<dots> = vread (Suc (k + n)) (push_bit 7 ?a XOR low ?b) ?p"
    by (subst vread.simps) (use Suc.prems in \<open>simp add: byte_at_def nth_append flag_byte\<close>)
  also have "push_bit 7 ?a XOR low ?b = push_bit (7 * Suc n) acc XOR (v AND mask (7 * Suc n))"
    using group_bits [of v "7 * n"] by (simp add: flag_byte push_bit_xor push_bit_push_bit xor.assoc add.commute)
  finally show ?case by simp
qed simp

section \<open>Round trip\<close>

lemma GetVarint_PutVarint: "sqlite3GetVarint (snd (sqlite3PutVarint v) @ rest) = Some (v, length (snd (sqlite3PutVarint v)))"
proof (cases rule: PutVarint_form [of v])
  case nine
  have "vread 0 0 (put_high 8 (drop_bit 8 v) @ [ucast v] @ rest) = vread 8 (drop_bit 8 v AND mask 56) (put_high 8 (drop_bit 8 v) @ [ucast v] @ rest)"
    using vread_high [of 0 8 "[]" 0 "drop_bit 8 v" "[ucast v] @ rest"] by simp
  also have "\<dots> = Some (push_bit 8 (drop_bit 8 v AND mask 56) XOR ucast (ucast v :: byte), 9)"
    by (subst vread.simps) (simp add: byte_at_def nth_append)
  also have "push_bit 8 (drop_bit 8 v AND mask 56) XOR ucast (ucast v :: byte) = v"
    by (rule bit_word_eqI) (auto simp: bit_simps not_less)
  finally show ?thesis using nine by (simp add: GetVarint_vread)
next
  case (short n)
  have "vread 0 0 (put_high n (drop_bit 7 v) @ [ucast (v AND 0x7F)] @ rest) = vread n (drop_bit 7 v AND mask (7 * n)) (put_high n (drop_bit 7 v) @ [ucast (v AND 0x7F)] @ rest)"
    using vread_high [of 0 n "[]" 0 "drop_bit 7 v" "[ucast (v AND 0x7F)] @ rest"] short(2) by simp
  also have "\<dots> = Some (push_bit 7 (drop_bit 7 v AND mask (7 * n)) XOR (v AND 0x7F), Suc n)"
    by (subst vread.simps) (use short(2) in \<open>simp add: byte_at_def nth_append flag_byte\<close>)
  also have "push_bit 7 (drop_bit 7 v AND mask (7 * n)) XOR (v AND 0x7F) = v"
  proof -
    have "v AND mask (7 * n + 7) = v"
    proof (rule bit_word_eqI)
      fix i
      have "\<not> bit v (7 * Suc n + j)" for j using short(3) bit_drop_bit_eq [of "7 * Suc n" v] by (metis bit_0_eq bot_apply bot_bool_def comp_apply)
      then have "bit v i \<Longrightarrow> i < 7 * Suc n" by (metis le_add_diff_inverse not_less)
      then show "bit (v AND mask (7 * n + 7)) i = bit v i" using bit_imp_le_length [of v i] by (auto simp: bit_simps)
    qed
    then show ?thesis unfolding group_bits .
  qed
  finally show ?thesis using short(1) by (simp add: GetVarint_vread)
qed

lemma PutVarint_length: "fst (sqlite3PutVarint v) = int (length (snd (sqlite3PutVarint v)))" "1 \<le> length (snd (sqlite3PutVarint v))" "length (snd (sqlite3PutVarint v)) \<le> 9"
  by (cases rule: PutVarint_form [of v]; simp)+


section \<open>Codes that end by themselves\<close>

text \<open>
  A decoder that undoes its encoder whatever follows. Such a code is prefix free, so that a
  sequence of encoded values is read back without any separator.
\<close>

primrec dec_list :: "(bytes \<Rightarrow> ('a \<times> nat) option) \<Rightarrow> nat \<Rightarrow> bytes \<Rightarrow> ('a list \<times> bytes) option" where
  "dec_list dec 0 p = Some ([], p)"
| "dec_list dec (Suc k) p = do {
     (x, n) \<leftarrow> dec p;
     (xs, p) \<leftarrow> dec_list dec k (drop n p);
     Some (x # xs, p) }"

locale self_delimiting =
  fixes enc :: "'a \<Rightarrow> bytes" and dec :: "bytes \<Rightarrow> ('a \<times> nat) option"
  assumes dec_enc: "dec (enc x @ rest) = Some (x, length (enc x))"
begin

lemma prefix_free: "enc x @ r = enc y @ s \<Longrightarrow> x = y \<and> r = s"
  using dec_enc [of x r] dec_enc [of y s] by auto

lemma read_list: "dec_list dec (length xs) (concat (map enc xs) @ rest) = Some (xs, rest)"
  by (induction xs) (simp_all add: dec_enc)

lemma concat_inj: "length xs = length ys \<Longrightarrow> concat (map enc xs) @ r = concat (map enc ys) @ s \<Longrightarrow> xs = ys \<and> r = s"
  by (metis option.inject prod.inject read_list)

end

interpretation varint: self_delimiting "\<lambda>v. snd (sqlite3PutVarint v)" sqlite3GetVarint
  by unfold_locales (rule GetVarint_PutVarint)

interpretation be32: self_delimiting sqlite3Put4byte "\<lambda>p. if 4 \<le> length p then Some (sqlite3Get4byte p, 4) else None"
  by unfold_locales (simp add: sqlite3Get4byte_Put4byte)

section \<open>32-bit values\<close>

definition clamp32 :: "u64 \<Rightarrow> u32" where
  "clamp32 v = (if v \<le> 0xFFFFFFFF then ucast v else 0xFFFFFFFF)"

lemma bit7: "bit x 7 \<longleftrightarrow> 0x80 \<le> x" for x :: byte
proof
  assume "bit x 7"
  show "0x80 \<le> x"
  proof (rule ccontr)
    assume "\<not> 0x80 \<le> x"
    then have "x AND 0x7F = x" by (intro split_flag(1)) (simp add: not_le)
    moreover have "\<not> bit (x AND 0x7F) 7" by (simp add: bit_and_iff)
    ultimately show False using \<open>bit x 7\<close> by simp
  qed
next
  assume "0x80 \<le> x"
  then have "(ucast x :: u64) = 0x80 XOR ucast (x AND 0x7F)" by (intro split_flag(2)) (simp add: not_less)
  then have "bit (ucast x :: u64) 7 = bit (0x80 XOR ucast (x AND 0x7F) :: u64) 7" by (rule arg_cong)
  then show "bit x 7" by (simp add: bit_xor_iff bit_and_iff bit_unsigned_iff)
qed

lemma flag_test: "x AND 0x80 = 0 \<longleftrightarrow> \<not> 0x80 \<le> x" for x :: byte
proof -
  have "\<not> bit x 7" if "x AND 0x80 = 0" using arg_cong [OF that, of "\<lambda>w. bit w 7"] by (simp add: bit_and_iff)
  moreover have "x AND 0x80 = 0" if "\<not> bit x 7" by (rule bit_word_eqI) (use that in \<open>auto simp: bit_and_iff\<close>)
  ultimately have "x AND 0x80 = 0 \<longleftrightarrow> \<not> bit x 7" by blast
  then show ?thesis by (simp add: bit7)
qed

lemma mask32: "v AND 0xFFFFFFFF = v \<longleftrightarrow> v \<le> 0xFFFFFFFF" for v :: u64
  using mask_eq_iff_w2p [of 32 v] by (auto simp: word_size mask_eq_exp_minus_1 word_le_nat_alt word_less_nat_alt)

lemma clamp32_bits:
  assumes "\<And>n. bit v n \<Longrightarrow> n < 32"
  shows "clamp32 v = ucast v"
proof -
  have "v AND mask 32 = v" by (rule bit_word_eqI) (use assms in \<open>auto simp: bit_and_iff bit_mask_iff\<close>)
  then have "v AND 0xFFFFFFFF = v" by (simp add: mask_eq_exp_minus_1)
  then show ?thesis unfolding mask32 by (simp add: clamp32_def)
qed

lemma bit_byte: "bit (x :: byte) n \<Longrightarrow> n < 8" "\<not> 0x80 \<le> (x :: byte) \<Longrightarrow> bit x n \<Longrightarrow> n < 7"
proof -
  show a: "bit x n \<Longrightarrow> n < 8" using bit_imp_le_length [of x n] by simp
  show "\<not> 0x80 \<le> x \<Longrightarrow> bit x n \<Longrightarrow> n < 7" using a bit7 [of x] by (cases "n = 7") auto
qed

lemma bit_low: "bit (low x) n \<longleftrightarrow> bit x n \<and> n < 7"
  by (auto simp: low_def bit_unsigned_iff bit_and_iff dest: bit_byte)

lemma short_varints:
  fixes a b c :: byte
  shows "\<not> 0x80 \<le> a \<Longrightarrow> clamp32 (low a) = ucast a"
    "\<not> 0x80 \<le> b \<Longrightarrow> clamp32 (push_bit 7 (low a) XOR low b) = push_bit 7 (ucast (a AND 0x7F)) OR ucast b"
    "\<not> 0x80 \<le> c \<Longrightarrow> clamp32 (push_bit 7 (push_bit 7 (low a) XOR low b) XOR low c) =
      push_bit 14 (ucast (a AND 0x7F)) OR push_bit 7 (ucast (b AND 0x7F)) OR ucast c"
proof -
  note bs = bit_xor_iff bit_or_iff bit_and_iff bit_push_bit_iff bit_unsigned_iff bit_low
  show "clamp32 (low a) = ucast a" if "\<not> 0x80 \<le> a"
  proof -
    have "clamp32 (low a) = ucast (low a)" by (rule clamp32_bits) (auto simp: bs)
    also have "\<dots> = ucast a" by (rule bit_word_eqI) (auto simp: bs dest: bit_byte(2) [OF that])
    finally show ?thesis .
  qed
  show "clamp32 (push_bit 7 (low a) XOR low b) = push_bit 7 (ucast (a AND 0x7F)) OR ucast b" if "\<not> 0x80 \<le> b"
  proof -
    have "clamp32 (push_bit 7 (low a) XOR low b) = ucast (push_bit 7 (low a) XOR low b)" by (rule clamp32_bits) (auto simp: bs)
    also have "\<dots> = push_bit 7 (ucast (a AND 0x7F)) OR ucast b" by (rule bit_word_eqI) (auto simp: bs dest: bit_byte(2) [OF that])
    finally show ?thesis .
  qed
  show "clamp32 (push_bit 7 (push_bit 7 (low a) XOR low b) XOR low c) =
      push_bit 14 (ucast (a AND 0x7F)) OR push_bit 7 (ucast (b AND 0x7F)) OR ucast c" if "\<not> 0x80 \<le> c"
  proof -
    let ?v = "push_bit 7 (push_bit 7 (low a) XOR low b) XOR low c"
    have "clamp32 ?v = ucast ?v" by (rule clamp32_bits) (auto simp: bs)
    also have "\<dots> = push_bit 14 (ucast (a AND 0x7F)) OR push_bit 7 (ucast (b AND 0x7F)) OR ucast c"
    proof (rule bit_word_eqI)
      fix n
      have "n < 7 \<or> \<not> bit c n" using bit_byte(2) [OF that] by blast
      then show "bit (ucast ?v :: u32) n = bit (push_bit 14 (ucast (a AND 0x7F)) OR push_bit 7 (ucast (b AND 0x7F)) OR ucast c :: u32) n"
        by (cases "n < 7"; cases "n < 14") (auto simp: bs)
    qed
    finally show ?thesis .
  qed
qed

lemma getVarint32_clamp: "getVarint32 p = map_option (\<lambda>(v, n). (clamp32 v, n)) (sqlite3GetVarint p)"
proof (cases "byte_at p 0")
  case (Some a)
  note a = this
  show ?thesis
  proof (cases "0x80 \<le> a")
    case False
    then show ?thesis using a short_varints(1) [OF False] by (simp add: getVarint32_def GetVarint_vread vread_unroll del: One_nat_def flip: not_le)
  next
    case a8: True
    show ?thesis
    proof (cases "byte_at p 1")
      case (Some b)
      note b = this
      show ?thesis
      proof (cases "0x80 \<le> b")
        case False
        then show ?thesis using a a8 b short_varints(2) [OF False]
          by (simp add: getVarint32_def sqlite3GetVarint32_def GetVarint_vread vread_unroll flag_test del: One_nat_def flip: not_le)
      next
        case b8: True
        show ?thesis
        proof (cases "byte_at p 2")
          case (Some c)
          note c = this
          show ?thesis
          proof (cases "0x80 \<le> c")
            case True
            have "getVarint32 p = sqlite3GetVarint p \<bind> (\<lambda>(v, n). if v AND 0xFFFFFFFF \<noteq> v then Some (0xFFFFFFFF, n) else Some (ucast v, n))"
              using a a8 b b8 c True by (simp add: getVarint32_def sqlite3GetVarint32_def flag_test del: One_nat_def flip: not_le)
            then show ?thesis by (cases "sqlite3GetVarint p") (auto simp: mask32 clamp32_def)
          next
            case False
            then show ?thesis using a a8 b b8 c short_varints(3) [OF False]
              by (simp add: getVarint32_def sqlite3GetVarint32_def GetVarint_vread vread_unroll flag_test del: One_nat_def flip: not_le)
          qed
        qed (use a a8 b b8 in \<open>simp add: getVarint32_def sqlite3GetVarint32_def GetVarint_vread vread_unroll flag_test del: One_nat_def flip: not_le\<close>)
      qed
    qed (use a a8 in \<open>simp add: getVarint32_def sqlite3GetVarint32_def GetVarint_vread vread_unroll del: One_nat_def flip: not_le\<close>)
  qed
qed (simp add: getVarint32_def sqlite3GetVarint_def)

lemma VarintLen_eq: "sqlite3VarintLen v = (if v < 2 ^ 63 then fst (sqlite3PutVarint v) else 10)"
proof -
  obtain n where n: "length (put_groups v) = Suc n" using put_groups_step(3) [of v] by (cases "length (put_groups v)") auto
  have len: "sqlite3VarintLen v = int (Suc n)" by (simp add: sqlite3VarintLen_def varint_len_loop_eq n)
  have e: "drop_bit (7 * Suc n) v = 0" using put_groups_enough [of v] n by simp
  have l: "0 < n \<Longrightarrow> drop_bit (7 * n) v \<noteq> 0" using put_groups_least [OF n] .
  have z: "drop_bit 63 v = 0 \<longleftrightarrow> v < 2 ^ 63"
  proof -
    have "unat (drop_bit 63 v) = unat v div 2 ^ 63" by (simp only: unat_drop_bit_eq) (simp only: drop_bit_eq_div)
    then have "unat (drop_bit 63 v) = 0 \<longleftrightarrow> unat v < 2 ^ 63" by (simp add: div_eq_0_iff)
    then show ?thesis unfolding unat_eq_0 by (simp add: word_less_nat_alt)
  qed
  have 64: "drop_bit 70 v = 0" by (rule bit_word_eqI) (auto simp: bit_simps dest: bit_imp_le_length)
  show ?thesis
  proof (cases rule: PutVarint_form [of v])
    case nine
    have n8: "8 \<le> n" using drop_bit_zero_mono [OF e, of 56] nine(2) by (cases "8 \<le> n") auto
    have "n < 10" using drop_bit_zero_mono [OF 64, of "7 * n"] l by (cases "n < 10") auto
    moreover have "drop_bit 63 v = 0 \<longleftrightarrow> n < 9"
      using drop_bit_zero_mono [of 63 v "7 * n"] l drop_bit_zero_mono [OF e, of 63] n8 by (cases "n < 9") auto
    ultimately show ?thesis using nine(1) len z n8 by auto
  next
    case (short m)
    then have "drop_bit 63 v = 0" using drop_bit_zero_mono [OF short(3), of 63] by simp
    then show ?thesis using short len n z by simp
  qed
qed


section \<open>Eight bytes\<close>

lemma native_byte: "i < 8 \<Longrightarrow> u64_native x ! i = ucast (drop_bit (8 * i) x)"
  by (simp add: u64_native_def)

lemma bswap_masks:
  "0x0000FFFF0000FFFF = (push_bit 32 (mask 16) OR mask 16 :: u64)"
  "0xFFFF0000FFFF0000 = (push_bit 48 (mask 16) OR push_bit 16 (mask 16) :: u64)"
  "0x00FF00FF00FF00FF = (push_bit 48 (mask 8) OR push_bit 32 (mask 8) OR push_bit 16 (mask 8) OR mask 8 :: u64)"
  "0xFF00FF00FF00FF00 = (push_bit 56 (mask 8) OR push_bit 40 (mask 8) OR push_bit 24 (mask 8) OR push_bit 8 (mask 8) :: u64)"
  by (simp_all add: mask_eq_exp_minus_1)

lemma bit_BSwap64: "n < 64 \<Longrightarrow> bit (sqlite3BSwap64 x) n \<longleftrightarrow> bit x (56 - 8 * (n div 8) + n mod 8)"
proof -
  assume n: "n < 64"
  have "bit (sqlite3BSwap64 x) (8 * i + j) = bit x (56 - 8 * i + j)" if i: "i < 8" and j: "j < 8" for i j
  proof -
    consider "i = 0" | "i = 1" | "i = 2" | "i = 3" | "i = 4" | "i = 5" | "i = 6" | "i = 7" using i by linarith
    moreover have "\<not> bit x (64 + j)" "\<not> bit x (72 + j)" "\<not> bit x (80 + j)" "\<not> bit x (88 + j)"
      using bit_imp_le_length [of x "64 + j"] bit_imp_le_length [of x "72 + j"] bit_imp_le_length [of x "80 + j"] bit_imp_le_length [of x "88 + j"] by auto
    ultimately show ?thesis using j
      by cases (simp_all add: sqlite3BSwap64_def bswap_masks bit_or_iff bit_and_iff bit_push_bit_iff bit_drop_bit_eq bit_mask_iff)
  qed
  from this [of "n div 8" "n mod 8"] n show ?thesis by simp
qed


lemma add_byte: "push_bit 8 a + ucast b = push_bit 8 a OR (ucast b :: u64)" for b :: byte
  by (rule disjunctive_add) (auto simp: bit_push_bit_iff bit_unsigned_iff dest: bit_byte)

text \<open>The sum of shifted bytes, in Horner form.\<close>

lemma Get8byte_or:
  "sqlite3Get8byte p = push_bit 56 (ucast (p ! 0)) OR push_bit 48 (ucast (p ! 1)) OR push_bit 40 (ucast (p ! 2)) OR push_bit 32 (ucast (p ! 3))
     OR push_bit 24 (ucast (p ! 4)) OR push_bit 16 (ucast (p ! 5)) OR push_bit 8 (ucast (p ! 6)) OR ucast (p ! 7)"
proof -
  let ?c = "\<lambda>a i. push_bit 8 a + ucast (p ! i) :: u64" and ?d = "\<lambda>a i. push_bit 8 a OR ucast (p ! i) :: u64"
  have "sqlite3Get8byte p = ?c (?c (?c (?c (?c (?c (?c (ucast (p ! 0)) 1) 2) 3) 4) 5) 6) 7"
    by (simp add: sqlite3Get8byte_def push_bit_add push_bit_push_bit)
  also have "\<dots> = ?d (?d (?d (?d (?d (?d (?d (ucast (p ! 0)) 1) 2) 3) 4) 5) 6) 7" by (simp only: add_byte)
  finally show ?thesis by (simp add: push_bit_or push_bit_push_bit or.assoc)
qed

lemma Get8byte_native: "sqlite3Get8byte (u64_native (sqlite3BSwap64 x) @ rest) = x"
proof (rule bit_word_eqI)
  fix n :: nat assume "n < LENGTH(64)"
  then have n: "n < 64" by simp
  define i j where "i = n div 8" and "j = n mod 8"
  have ij: "n = 8 * i + j" "i < 8" "j < 8" using n by (auto simp: i_def j_def)
  have b: "bit (ucast (u64_native (sqlite3BSwap64 x) ! k) :: u64) m \<longleftrightarrow> m < 8 \<and> bit x (56 - 8 * k + m)" if "k < 8" for k m
  proof (cases "m < 8")
    case True
    then have "bit (sqlite3BSwap64 x) (8 * k + m) = bit x (56 - 8 * k + m)" using bit_BSwap64 [of "8 * k + m" x] that by simp
    then show ?thesis using True that by (simp add: native_byte bit_unsigned_iff bit_drop_bit_eq)
  qed (auto simp: bit_unsigned_iff dest: bit_byte)
  have nth: "(u64_native (sqlite3BSwap64 x) @ rest) ! k = u64_native (sqlite3BSwap64 x) ! k" if "k < 8" for k
    using that by (simp add: nth_append)
  consider "i = 0" | "i = 1" | "i = 2" | "i = 3" | "i = 4" | "i = 5" | "i = 6" | "i = 7" using ij(2) by linarith
  then show "bit (sqlite3Get8byte (u64_native (sqlite3BSwap64 x) @ rest)) n = bit x n"
    unfolding Get8byte_or using ij(3)
    by cases (simp_all add: ij(1) nth b bit_or_iff bit_push_bit_iff)
qed


section \<open>Properties\<close>

text \<open>
  C23: Variable-length integers written one after the other, whatever bytes follow, are read back
  as the same values in the same order, and each takes between one and nine bytes, the number
  the writer returns.
\<close>

theorem varint_sequence_roundtrip:
  "dec_list sqlite3GetVarint (length vs) (concat (map (\<lambda>v. snd (sqlite3PutVarint v)) vs) @ rest) = Some (vs, rest)
   \<and> fst (sqlite3PutVarint v) = int (length (snd (sqlite3PutVarint v))) \<and> 1 \<le> fst (sqlite3PutVarint v) \<and> fst (sqlite3PutVarint v) \<le> 9"
  using varint.read_list [of vs rest] PutVarint_length [of v] by auto

text \<open>
  C24: The unrolled reader with its correction constants computes the plain definition of the
  encoding on every input; the reader that drops the length gives the same integer, and the
  32-bit reader the same integer capped at 2^32 - 1 with the same length. All of them fail on
  the same truncated inputs.
\<close>

theorem varint_readers_agree:
  "sqlite3GetVarint p = vread 0 0 p \<and> sqlite3VarintValue p = map_option fst (sqlite3GetVarint p)
   \<and> getVarint32 p = map_option (\<lambda>(v, n). (clamp32 v, n)) (sqlite3GetVarint p)"
  by (simp add: GetVarint_vread [symmetric] VarintValue_eq getVarint32_clamp)

text \<open>
  C25: The length function agrees with the writer below 2^63. From 2^63 on it answers ten, while
  the writer needs nine bytes.
\<close>

theorem varint_len_agrees:
  "sqlite3VarintLen v = (if v < 2 ^ 63 then fst (sqlite3PutVarint v) else 10)"
  by (rule VarintLen_eq)

end
