(* ===== verification/SC_Int64.thy ===== *)
theory SC_Int64
  imports SC_Prelude "HOL-Library.Signed_Division"
begin

unbundle bit_operations_syntax

text \<open>
  The overflow-checked 64-bit arithmetic, the wide multiplications and the logarithmic
  estimates of src/src/util.c.

  The source has two builds of several routines: one with the compiler's intrinsics and a
  portable one. Both are modelled, with a flag that selects the build. A signed 64-bit value is
  an \<open>int\<close> in the range of \<open>i64\<close>; the checked operations return their result code and
  the new contents of \<open>*pA\<close>.
\<close>

section \<open>Definitions\<close>

lemma unat_drop: "unat (drop_bit k x) = unat x div 2 ^ k" for x :: "'a::len word"
  by (simp only: unat_drop_bit_eq) (simp only: drop_bit_eq_div)

lemma unat_cut: "unat (ucast x :: 'b::len word) = unat x mod 2 ^ LENGTH('b)" for x :: "'a::len word"
  by (simp only: unsigned_ucast_eq) (simp only: take_bit_eq_mod)

definition LARGEST_INT64 :: int where "LARGEST_INT64 = 0xFFFFFFFF OR push_bit 32 0x7FFFFFFF"
definition SMALLEST_INT64 :: int where "SMALLEST_INT64 = - 1 - LARGEST_INT64"

definition i64 :: "int \<Rightarrow> bool" where
  "i64 x \<longleftrightarrow> SMALLEST_INT64 \<le> x \<and> x \<le> LARGEST_INT64"

text \<open>The compiler's checked operations store the result reduced to 64 bits and say whether it was reduced.\<close>

definition wrap64 :: "int \<Rightarrow> int" where
  "wrap64 x = sint (word_of_int x :: u64)"

definition builtin_overflow :: "int \<Rightarrow> int \<times> int" where
  "builtin_overflow r = (if wrap64 r = r then 0 else 1, wrap64 r)"

definition sqlite3AddInt64 :: "bool \<Rightarrow> int \<Rightarrow> int \<Rightarrow> int \<times> int" where
  "sqlite3AddInt64 gcc iA iB =
     (if gcc then builtin_overflow (iA + iB)
      else if iB \<ge> 0 then (if iA > 0 \<and> LARGEST_INT64 - iA < iB then (1, iA) else (0, iA + iB))
      else (if iA < 0 \<and> - (iA + LARGEST_INT64) > iB + 1 then (1, iA) else (0, iA + iB)))"

definition sqlite3SubInt64 :: "bool \<Rightarrow> int \<Rightarrow> int \<Rightarrow> int \<times> int" where
  "sqlite3SubInt64 gcc iA iB =
     (if gcc then builtin_overflow (iA - iB)
      else if iB = SMALLEST_INT64 then (if iA \<ge> 0 then (1, iA) else (0, iA - iB))
      else sqlite3AddInt64 gcc iA (- iB))"

definition sqlite3MulInt64 :: "bool \<Rightarrow> int \<Rightarrow> int \<Rightarrow> int \<times> int" where
  "sqlite3MulInt64 gcc iA iB =
     (if gcc then builtin_overflow (iA * iB)
      else if iB > 0 then
        (if iA > LARGEST_INT64 sdiv iB then (1, iA)
         else if iA < SMALLEST_INT64 sdiv iB then (1, iA)
         else (0, iA * iB))
      else if iB < 0 then
        (if iA > 0 then (if iB < SMALLEST_INT64 sdiv iA then (1, iA) else (0, iA * iB))
         else if iA < 0 then
           (if iB = SMALLEST_INT64 then (1, iA)
            else if iA = SMALLEST_INT64 then (1, iA)
            else if - iA > LARGEST_INT64 sdiv (- iB) then (1, iA)
            else (0, iA * iB))
         else (0, iA * iB))
      else (0, iA * iB))"

definition sqlite3AbsInt32 :: "int \<Rightarrow> int" where
  "sqlite3AbsInt32 x = (if x \<ge> 0 then x else if x = - 0x80000000 then 0x7FFFFFFF else - x)"

text \<open>The product of two 64-bit numbers, and of a 96-bit by a 64-bit number without its low 64 bits.\<close>

definition sqlite3Multiply128 :: "bool \<Rightarrow> u64 \<Rightarrow> u64 \<Rightarrow> u64 \<times> u64" where
  "sqlite3Multiply128 uint128 a b =
     (if uint128 then
        let r = (ucast a * ucast b :: 128 word) in (ucast (drop_bit 64 r), ucast r)
      else
        let a0 = ucast (ucast a :: u32); a1 = drop_bit 32 a;
            b0 = ucast (ucast b :: u32); b1 = drop_bit 32 b;
            a0b0 = a0 * b0; a1b1 = a1 * b1; a0b1 = a0 * b1; a1b0 = a1 * b0;
            t = drop_bit 32 a0b0 + ucast (ucast a0b1 :: u32) + ucast (ucast a1b0 :: u32)
        in (a1b1 + drop_bit 32 a0b1 + drop_bit 32 a1b0 + drop_bit 32 t, (a0b0 AND 0xFFFFFFFF) OR push_bit 32 t))"

definition sqlite3Multiply160 :: "bool \<Rightarrow> u64 \<Rightarrow> u32 \<Rightarrow> u64 \<Rightarrow> u64 \<times> u32" where
  "sqlite3Multiply160 uint128 a aLo b =
     (if uint128 then
        let r = (ucast a * ucast b :: 128 word); r = r + drop_bit 32 (ucast aLo * ucast b)
        in (ucast (drop_bit 64 r), ucast (drop_bit 32 r AND 0xFFFFFFFF))
      else
        let x2 = drop_bit 32 a; x1 = a AND 0xFFFFFFFF; x0 = ucast aLo;
            y1 = drop_bit 32 b; y0 = b AND 0xFFFFFFFF;
            x2y1 = x2 * y1; r4 = drop_bit 32 x2y1;
            x2y0 = x2 * y0; x1y1 = x1 * y1;
            r3 = (x2y1 AND 0xFFFFFFFF) + drop_bit 32 x2y0 + drop_bit 32 x1y1;
            x1y0 = x1 * y0; x0y1 = x0 * y1;
            r2 = (x2y0 AND 0xFFFFFFFF) + (x1y1 AND 0xFFFFFFFF) + drop_bit 32 x1y0 + drop_bit 32 x0y1;
            x0y0 = x0 * y0;
            r1 = (x1y0 AND 0xFFFFFFFF) + (x0y1 AND 0xFFFFFFFF) + drop_bit 32 x0y0;
            r2 = r2 + drop_bit 32 r1;
            r3 = r3 + drop_bit 32 r2
        in (push_bit 32 r4 + r3, ucast (r2 AND 0xFFFFFFFF)))"

text \<open>Leading zeros: \<open>__builtin_clzll\<close>, whose argument must not be zero, or six halving steps.\<close>

definition builtin_clz :: "u64 \<Rightarrow> nat" where
  "builtin_clz m = length (takeWhile (\<lambda>i. \<not> bit m i) (rev [0..<64]))"

definition clz_step :: "nat \<Rightarrow> u64 \<times> nat \<Rightarrow> u64 \<times> nat" where
  "clz_step s = (\<lambda>(m, n). if m \<le> drop_bit s (- 1) then (push_bit s m, n + s) else (m, n))"

definition countLeadingZeros :: "bool \<Rightarrow> u64 \<Rightarrow> nat" where
  "countLeadingZeros builtin m =
     (if builtin then builtin_clz m
      else let (m, n) = clz_step 2 (clz_step 4 (clz_step 8 (clz_step 16 (clz_step 32 (m, 0)))))
           in if m \<le> 0x7FFFFFFFFFFFFFFF then n + 1 else n)"

text \<open>Estimates of ten times the binary logarithm, with the loops of the portable build.\<close>

definition LogEstAdd_table :: "int list" where
  "LogEstAdd_table =
     [10, 10, 9, 9, 8, 8, 7, 7, 7, 6, 6, 6, 5, 5, 5, 4, 4, 4, 4, 3, 3, 3, 3, 3, 3, 2, 2, 2, 2, 2, 2, 2]"

definition sqlite3LogEstAdd :: "int \<Rightarrow> int \<Rightarrow> int" where
  "sqlite3LogEstAdd a b =
     (if a \<ge> b then
        (if a > b + 49 then a else if a > b + 31 then a + 1 else a + LogEstAdd_table ! nat (a - b))
      else
        (if b > a + 49 then b else if b > a + 31 then b + 1 else b + LogEstAdd_table ! nat (b - a)))"

function logest_up :: "u64 \<Rightarrow> int \<Rightarrow> u64 \<times> int" where
  "logest_up x y = (if 2 \<le> x \<and> x < 8 then logest_up (push_bit 1 x) (y - 10) else (x, y))"
  by pat_completeness auto
termination
proof (relation "measure (\<lambda>(x, y). 8 - unat x)")
  fix x :: u64 and y :: int assume "2 \<le> x \<and> x < 8"
  then have x: "2 \<le> unat x" "unat x < 8" by (simp_all add: word_le_nat_alt word_less_nat_alt)
  then have "unat (push_bit 1 x) = 2 * unat x" by (simp add: unat_word_ariths)
  then have "8 - unat (push_bit 1 x) < 8 - unat x" using x by linarith
  then show "((push_bit 1 x, y - 10), x, y) \<in> measure (\<lambda>(x, y). 8 - unat x)" by simp
qed simp

function logest_down4 :: "u64 \<Rightarrow> int \<Rightarrow> u64 \<times> int" where
  "logest_down4 x y = (if x > 255 then logest_down4 (drop_bit 4 x) (y + 40) else (x, y))"
  by pat_completeness auto
termination
  by (relation "measure (\<lambda>(x, y). unat x)") (auto simp: unat_drop word_less_nat_alt)

function logest_down1 :: "u64 \<Rightarrow> int \<Rightarrow> u64 \<times> int" where
  "logest_down1 x y = (if x > 15 then logest_down1 (drop_bit 1 x) (y + 10) else (x, y))"
  by pat_completeness auto
termination
  by (relation "measure (\<lambda>(x, y). unat x)") (auto simp: unat_drop word_less_nat_alt)

declare logest_up.simps [simp del] logest_down4.simps [simp del] logest_down1.simps [simp del]

definition sqlite3LogEst :: "bool \<Rightarrow> u64 \<Rightarrow> int" where
  "sqlite3LogEst gcc x =
     (if x < 2 then 0
      else let (x, y) = (if x < 8 then logest_up x 40
                         else if gcc then let i = 60 - builtin_clz x in (drop_bit i x, 40 + int i * 10)
                         else let (x, y) = logest_down4 x 40 in logest_down1 x y)
           in [0, 2, 3, 5, 6, 7, 8, 9] ! unat (x AND 7) + y - 10)"

definition sqlite3LogEstToInt :: "int \<Rightarrow> u64" where
  "sqlite3LogEstToInt x =
     (let n = (word_of_int (x smod 10) :: u64); x = x sdiv 10;
          n = (if n \<ge> 5 then n - 2 else if n \<ge> 1 then n - 1 else n)
      in if x > 60 then word_of_int LARGEST_INT64
         else if x \<ge> 3 then push_bit (nat (x - 3)) (n + 8) else drop_bit (nat (3 - x)) (n + 8))"

section \<open>Checked arithmetic\<close>

lemma limits: "LARGEST_INT64 = 2 ^ 63 - 1" "SMALLEST_INT64 = - (2 ^ 63)"
  by (simp_all add: LARGEST_INT64_def SMALLEST_INT64_def)

lemma i64_iff: "i64 x \<longleftrightarrow> - (2 ^ 63) \<le> x \<and> x < 2 ^ 63"
  by (auto simp: i64_def limits)

lemma wrap64_iff: "wrap64 x = x \<longleftrightarrow> i64 x"
proof -
  have "wrap64 x = signed_take_bit 63 x" by (simp add: wrap64_def sint_sbintrunc')
  then show ?thesis by (simp add: signed_take_bit_int_eq_self_iff i64_iff)
qed

lemma AddInt64_portable: "i64 a \<Longrightarrow> i64 b \<Longrightarrow> sqlite3AddInt64 False a b = (if i64 (a + b) then (0, a + b) else (1, a))"
  by (auto simp: sqlite3AddInt64_def i64_def limits)

lemma SubInt64_portable: "i64 a \<Longrightarrow> i64 b \<Longrightarrow> sqlite3SubInt64 False a b = (if i64 (a - b) then (0, a - b) else (1, a))"
proof (cases "b = SMALLEST_INT64")
  case True
  then show "i64 a \<Longrightarrow> sqlite3SubInt64 False a b = (if i64 (a - b) then (0, a - b) else (1, a))"
    by (auto simp: sqlite3SubInt64_def i64_def limits)
next
  case False
  assume ab: "i64 a" "i64 b"
  then have "i64 (- b)" using False by (auto simp: i64_def limits)
  then show "sqlite3SubInt64 False a b = (if i64 (a - b) then (0, a - b) else (1, a))"
    using AddInt64_portable [OF ab(1), of "- b"] False by (simp add: sqlite3SubInt64_def)
qed

text \<open>Truncating division bounds a factor.\<close>

lemma le_div_iff: "0 < b \<Longrightarrow> a \<le> m div b \<longleftrightarrow> a * b \<le> m" for a b m :: int
proof
  assume b: "0 < b" and "a \<le> m div b"
  then have "a * b \<le> m div b * b" by (simp add: mult_right_mono)
  also have "\<dots> \<le> m" using b pos_mod_sign [OF b, of m] div_mult_mod_eq [of m b] by linarith
  finally show "a * b \<le> m" .
next
  assume b: "0 < b" and "a * b \<le> m"
  then have "a * b div b \<le> m div b" by (intro zdiv_mono1)
  then show "a \<le> m div b" using b by simp
qed

lemma sdiv_bounds:
  fixes a b m :: int
  assumes "0 < b" "0 \<le> m"
  shows "m sdiv b < a \<longleftrightarrow> m < a * b" "a < - m sdiv b \<longleftrightarrow> a * b < - m"
proof -
  have d: "m sdiv b = m div b" "- m sdiv b = - (m div b)" using assms by (cases "m = 0"; simp add: signed_divide_int_def sgn_if)+
  show "m sdiv b < a \<longleftrightarrow> m < a * b" unfolding d using le_div_iff [OF assms(1), of a m] by linarith
  show "a < - m sdiv b \<longleftrightarrow> a * b < - m" unfolding d using le_div_iff [OF assms(1), of "- a" m] by auto
qed

lemma MulInt64_portable:
  assumes "i64 a" "i64 b"
  shows "sqlite3MulInt64 False a b = (if i64 (a * b) then (0, a * b) else (1, a))"
proof -
  have L: "0 \<le> LARGEST_INT64" "0 \<le> LARGEST_INT64 + 1" "SMALLEST_INT64 = - (LARGEST_INT64 + 1)" by (simp_all add: limits)
  note div = sdiv_bounds(1) [OF _ L(1)] sdiv_bounds(2) [OF _ L(2), folded L(3)]
  consider "0 < b" | "b < 0" "0 < a" | "b < 0" "a < 0" | "b < 0" "a = 0" | "b = 0" by linarith
  then show ?thesis
  proof cases
    case 1
    then show ?thesis using div [of b a] by (auto simp: sqlite3MulInt64_def i64_def)
  next
    case 2
    then have "a * b < 0" by (simp add: mult_pos_neg)
    then show ?thesis using 2 div(2) [of a b] L by (auto simp: sqlite3MulInt64_def i64_def mult.commute)
  next
    case 3
    then have p: "0 < a * b" "- a \<le> a * b" "- b \<le> a * b"
      using mult_left_mono [of 1 "- b" "- a"] mult_left_mono [of 1 "- a" "- b"] by (auto simp: mult_neg_neg mult.commute)
    show ?thesis
    proof (cases "a = SMALLEST_INT64 \<or> b = SMALLEST_INT64")
      case True
      then have "\<not> i64 (a * b)" using p L by (auto simp: i64_def)
      then show ?thesis using 3 True by (auto simp: sqlite3MulInt64_def)
    next
      case False
      then show ?thesis using 3 p div(1) [of "- b" "- a"] L by (auto simp: sqlite3MulInt64_def i64_def)
    qed
  qed (simp_all add: sqlite3MulInt64_def i64_def limits)
qed

text \<open>Both builds of the three operations, on any operands.\<close>

definition checked :: "bool \<Rightarrow> int \<Rightarrow> int \<Rightarrow> int \<times> int" where
  "checked gcc r iA = (if i64 r then (0, r) else (1, if gcc then wrap64 r else iA))"

lemma checked_builtin: "builtin_overflow r = checked True r a"
  using wrap64_iff [of r] by (simp add: builtin_overflow_def checked_def)

lemmas portable = AddInt64_portable SubInt64_portable MulInt64_portable

lemma checked_ops:
  assumes "i64 a" "i64 b"
  shows "sqlite3AddInt64 gcc a b = checked gcc (a + b) a" "sqlite3SubInt64 gcc a b = checked gcc (a - b) a"
    "sqlite3MulInt64 gcc a b = checked gcc (a * b) a"
  using portable [OF assms] checked_builtin
  by (cases gcc; simp add: sqlite3AddInt64_def sqlite3SubInt64_def sqlite3MulInt64_def checked_def)+


section \<open>Wide products\<close>

lemma bit_0xFFFFFFFF: "bit (0xFFFFFFFF :: int) n \<longleftrightarrow> n < 32"
  using bit_mask_iff [where 'a = int, of 32 n] by (simp add: mask_eq_exp_minus_1)

lemma unat_half:
  "unat (drop_bit 32 x) = unat x div 2 ^ 32" "unat (x AND 0xFFFFFFFF) = unat x mod 2 ^ 32" "unat (ucast (ucast x :: u32) :: u64) = unat x mod 2 ^ 32"
  "unat (push_bit 32 x) = unat x mod 2 ^ 32 * 2 ^ 32" for x :: u64
proof -
  show "unat (drop_bit 32 x) = unat x div 2 ^ 32" by (rule unat_drop)
  have m: "x AND 0xFFFFFFFF = take_bit 32 x" by (simp add: take_bit_eq_mask mask_eq_exp_minus_1)
  show "unat (x AND 0xFFFFFFFF) = unat x mod 2 ^ 32" unfolding m unsigned_take_bit_eq by (rule take_bit_eq_mod)
  have c: "(ucast (ucast x :: u32) :: u64) = take_bit 32 x" by (rule bit_word_eqI) (auto simp: bit_unsigned_iff bit_take_bit_iff)
  show "unat (ucast (ucast x :: u32) :: u64) = unat x mod 2 ^ 32" unfolding c unsigned_take_bit_eq by (rule take_bit_eq_mod)
  have "unat (push_bit 32 x) = unat x * 2 ^ 32 mod 2 ^ 64"
    unfolding unsigned_push_bit_eq by (simp only: push_bit_eq_mult take_bit_eq_mod) simp
  also have "\<dots> = unat x mod 2 ^ 32 * 2 ^ 32" by (simp add: mult_mod_left)
  finally show "unat (push_bit 32 x) = unat x mod 2 ^ 32 * 2 ^ 32" .
qed

lemma mul_less: "x < 2 ^ 32 \<Longrightarrow> y < 2 ^ 32 \<Longrightarrow> x * y \<le> (2 ^ 32 - 1) * (2 ^ 32 - 1)" for x y :: nat
  by (rule mult_le_mono) simp_all

lemma unat_mul32: "unat x < 2 ^ 32 \<Longrightarrow> unat y < 2 ^ 32 \<Longrightarrow> unat (x * y) = unat x * unat y" for x y :: u64
  using mul_less [of "unat x" "unat y"] by (subst unat_mult_lem [symmetric]) simp

lemma unat_less64: "unat x < 2 ^ 64" for x :: u64
  using unsigned_less [of x] by simp

lemma unat_add: "unat x + unat y < 2 ^ 64 \<Longrightarrow> unat (x + y) = unat x + unat y" for x y :: u64
  by (subst unat_add_lem [symmetric]) simp

lemma unat_add3: "unat x + unat y + unat z < 2 ^ 64 \<Longrightarrow> unat (x + y + z) = unat x + unat y + unat z" for x y z :: u64
  using unat_add [of x y] unat_add [of "x + y" z] by simp

lemma unat_add4: "unat x + unat y + unat z + unat v < 2 ^ 64 \<Longrightarrow> unat (x + y + z + v) = unat x + unat y + unat z + unat v" for x y z v :: u64
  using unat_add3 [of x y z] unat_add [of "x + y + z" v] by simp

lemma small_sum: "x < 2 ^ 32 \<Longrightarrow> y < 2 ^ 32 \<Longrightarrow> z < 2 ^ 32 \<Longrightarrow> x + y + z < (2 :: nat) ^ 34"
  by simp

lemma W2: "(2 :: nat) ^ 64 = 2 ^ 32 * 2 ^ 32"
  by simp

lemma unat_join: "unat x < 2 ^ 32 \<Longrightarrow> unat (x OR push_bit 32 t) = unat x + unat t mod 2 ^ 32 * 2 ^ 32" for x t :: u64
proof -
  assume x: "unat x < 2 ^ 32"
  have "x AND 0xFFFFFFFF = x" using x by (subst word_unat_eq_iff) (simp add: unat_half)
  then have e: "x AND mask 32 = x" by (simp add: mask_eq_exp_minus_1)
  have b: "bit x n \<Longrightarrow> n < 32" for n by (subst (asm) e [symmetric]) (simp add: bit_and_iff bit_mask_iff)
  have "x OR push_bit 32 t = x + push_bit 32 t"
    by (rule disjunctive_add [symmetric]) (auto simp: bit_push_bit_iff dest: b)
  moreover have "unat t mod 2 ^ 32 * 2 ^ 32 \<le> (2 ^ 32 - 1) * 2 ^ 32" by (intro mult_le_mono1) simp
  ultimately show ?thesis using x unat_add [of x "push_bit 32 t"] by (simp add: unat_half)
qed

text \<open>The schoolbook scheme: the carries of four 32 by 32 bit products.\<close>

lemma schoolbook128:
  fixes P Q R S W :: nat
  assumes "t = P div W + Q mod W + R mod W"
  shows "(S + Q div W + R div W + t div W) * (W * W) + (P mod W + t mod W * W) = S * (W * W) + (Q + R) * W + P"
proof -
  obtain p q r u where d: "p = P div W" "q = Q div W" "r = R div W" "u = t div W" by blast
  obtain p' q' r' u' where e: "p' = P mod W" "q' = Q mod W" "r' = R mod W" "u' = t mod W" by blast
  have P: "P = p * W + p'" and Q: "Q = q * W + q'" and R: "R = r * W + r'" and t: "u * W + u' = p + q' + r'"
    using assms by (simp_all add: d e)
  have "(S + q + r + u) * (W * W) + (p' + u' * W) = (S + q + r) * (W * W) + (u * W + u') * W + p'" by (simp add: algebra_simps)
  also have "\<dots> = S * (W * W) + (Q + R) * W + P" unfolding t P Q R by (simp add: algebra_simps)
  finally show ?thesis by (simp add: d e)
qed

lemma Multiply128_portable:
  assumes "sqlite3Multiply128 False a b = (hi, lo)"
  shows "unat hi * 2 ^ 64 + unat lo = unat a * unat b"
proof -
  define a0 a1 b0 b1 :: u64 where "a0 = ucast (ucast a :: u32)" and "a1 = drop_bit 32 a" and "b0 = ucast (ucast b :: u32)" and "b1 = drop_bit 32 b"
  define t where "t = drop_bit 32 (a0 * b0) + ucast (ucast (a0 * b1) :: u32) + ucast (ucast (a1 * b0) :: u32)"
  have r: "hi = a1 * b1 + drop_bit 32 (a0 * b1) + drop_bit 32 (a1 * b0) + drop_bit 32 t" "lo = (a0 * b0 AND 0xFFFFFFFF) OR push_bit 32 t"
    using assms by (simp_all add: sqlite3Multiply128_def Let_def a0_def a1_def b0_def b1_def t_def)
  let ?A0 = "unat a mod 2 ^ 32" and ?A1 = "unat a div 2 ^ 32" and ?B0 = "unat b mod 2 ^ 32" and ?B1 = "unat b div 2 ^ 32"
  have u: "unat a0 = ?A0" "unat a1 = ?A1" "unat b0 = ?B0" "unat b1 = ?B1" unfolding a0_def a1_def b0_def b1_def by (simp_all only: unat_half)
  have l: "unat a0 < 2 ^ 32" "unat a1 < 2 ^ 32" "unat b0 < 2 ^ 32" "unat b1 < 2 ^ 32"
    unfolding u using unat_less64 [of a] unat_less64 [of b] by (simp_all add: less_mult_imp_div_less)
  note m = unat_mul32 [OF l(1) l(3)] unat_mul32 [OF l(1) l(4)] unat_mul32 [OF l(2) l(3)] unat_mul32 [OF l(2) l(4)]
  let ?P = "?A0 * ?B0" and ?Q = "?A0 * ?B1" and ?R = "?A1 * ?B0" and ?S = "?A1 * ?B1"
  let ?t = "?P div 2 ^ 32 + ?Q mod 2 ^ 32 + ?R mod 2 ^ 32"
  have "?P div 2 ^ 32 < 2 ^ 32" using mul_less [OF l(1) l(3)] u by (simp add: less_mult_imp_div_less)
  moreover have "?Q mod 2 ^ 32 < 2 ^ 32" "?R mod 2 ^ 32 < 2 ^ 32" by simp_all
  ultimately have "?t < 2 ^ 34" by (rule small_sum)
  then have "?t < 2 ^ 64" by (rule less_trans) simp
  then have t: "unat t = ?t" unfolding t_def
    using unat_add3 [of "drop_bit 32 (a0 * b0)" "ucast (ucast (a0 * b1) :: u32)" "ucast (ucast (a1 * b0) :: u32)"] by (simp only: unat_half m u)
  have lo: "unat lo = ?P mod 2 ^ 32 + ?t mod 2 ^ 32 * 2 ^ 32"
    unfolding r(2) using unat_join [of "a0 * b0 AND 0xFFFFFFFF" t] by (simp only: unat_half m u t) simp
  let ?h = "?S + ?Q div 2 ^ 32 + ?R div 2 ^ 32 + ?t div 2 ^ 32"
  have AB: "?h * 2 ^ 64 + unat lo = unat a * unat b"
  proof -
    have "unat a = ?A1 * 2 ^ 32 + ?A0" "unat b = ?B1 * 2 ^ 32 + ?B0" by simp_all
    then have "unat a * unat b = (?A1 * 2 ^ 32 + ?A0) * (?B1 * 2 ^ 32 + ?B0)" by simp
    also have "\<dots> = ?S * (2 ^ 32 * 2 ^ 32) + (?Q + ?R) * 2 ^ 32 + ?P" by (simp only: algebra_simps)
    finally have "?h * (2 ^ 32 * 2 ^ 32) + unat lo = unat a * unat b" unfolding lo by (rule trans [OF schoolbook128 [OF refl], OF sym])
    then show ?thesis by (simp only: W2)
  qed
  have "unat a * unat b < 2 ^ 64 * 2 ^ 64" using unat_less64 [of a] unat_less64 [of b] by (intro mult_strict_mono) simp_all
  then have "?h * 2 ^ 64 < 2 ^ 64 * 2 ^ 64" using AB by linarith
  then have "?h < 2 ^ 64" unfolding mult_less_cancel2 by (rule conjunct2)
  then have "unat hi = ?h" unfolding r(1)
    using unat_add4 [of "a1 * b1" "drop_bit 32 (a0 * b1)" "drop_bit 32 (a1 * b0)" "drop_bit 32 t"] by (simp only: unat_half m u t)
  then show ?thesis using AB by simp
qed

lemma Multiply128_wide:
  assumes "sqlite3Multiply128 True a b = (hi, lo)"
  shows "unat hi * 2 ^ 64 + unat lo = unat a * unat b"
proof -
  let ?r = "ucast a * ucast b :: 128 word"
  have "unat a * unat b \<le> (2 ^ 64 - 1) * (2 ^ 64 - 1)" using unat_less64 [of a] unat_less64 [of b] by (intro mult_le_mono) simp_all
  then have p: "unat a * unat b < 2 ^ 128" by simp
  have u: "unat (ucast x :: 128 word) = unat x" for x :: u64
    using unat_less64 [of x] by (simp add: unsigned_ucast_eq take_bit_nat_eq_self_iff)
  have r: "unat ?r = unat a * unat b" using unat_mult_lem [of "ucast a :: 128 word" "ucast b"] p by (simp add: u)
  have "unat a * unat b div 2 ^ 64 < 2 ^ 64" using p by (simp add: less_mult_imp_div_less)
  then have "unat hi = unat ?r div 2 ^ 64" "unat lo = unat ?r mod 2 ^ 64"
    using assms r by (auto simp: sqlite3Multiply128_def Let_def unat_drop unat_cut)
  then show ?thesis unfolding r using div_mult_mod_eq [of "unat a * unat b" "2 ^ 64"] by simp
qed


text \<open>The same for a three by two digit product, with its two low digits dropped.\<close>

lemma schoolbook160:
  fixes A B C D E F W :: nat
  assumes r1: "r1 = C mod W + D mod W + E div W"
    and r2: "r2 = B mod W + F mod W + C div W + D div W + r1 div W"
    and r3: "r3 = A mod W + B div W + F div W + r2 div W"
  shows "(A div W * W + r3) * (W * W * W) + r2 mod W * (W * W) + (r1 mod W * W + E mod W) =
    A * (W * W * W) + (B + F) * (W * W) + (C + D) * W + E"
proof -
  define a b c d e f u v where "a = A div W" and "b = B div W" and "c = C div W" and "d = D div W" and "e = E div W" and "f = F div W"
    and "u = r1 div W" and "v = r2 div W"
  define a' b' c' d' e' f' u' v' where "a' = A mod W" and "b' = B mod W" and "c' = C mod W" and "d' = D mod W" and "e' = E mod W" and "f' = F mod W"
    and "u' = r1 mod W" and "v' = r2 mod W"
  note defs = a_def b_def c_def d_def e_def f_def u_def v_def a'_def b'_def c'_def d'_def e'_def f'_def u'_def v'_def
  have X: "A = a * W + a'" "B = b * W + b'" "C = c * W + c'" "D = d * W + d'" "E = e * W + e'" "F = f * W + f'" by (simp_all add: defs)
  have 1: "u * W + u' = c' + d' + e" using r1 by (simp add: defs)
  have 2: "v * W + v' = b' + f' + c + d + u" using r2 by (simp add: defs)
  have 3: "r3 = a' + b + f + v" using r3 by (simp add: defs)
  have "(a * W + r3) * (W * W * W) + v' * (W * W) + (u' * W + e') =
      (a * W + a' + b + f) * (W * W * W) + (v * W + v') * (W * W) + (u' * W + e')" unfolding 3 by (simp only: algebra_simps)
  also have "\<dots> = (a * W + a' + b + f) * (W * W * W) + (b' + f' + c + d) * (W * W) + (u * W + u') * W + e'" unfolding 2 by (simp only: algebra_simps)
  also have "\<dots> = A * (W * W * W) + (B + F) * (W * W) + (C + D) * W + E" unfolding 1 X by (simp only: algebra_simps)
  finally show ?thesis by (simp only: defs)
qed

lemma digit_sums:
  fixes x y z u v :: nat
  assumes "x < 2 ^ 32" "y < 2 ^ 32" "z < 2 ^ 32" "u < 2 ^ 32"
  shows "x + y + z < 2 ^ 64" "x + y + z + u < 2 ^ 64" "v < 2 ^ 64 \<Longrightarrow> x + y + z + v div 2 ^ 32 < 2 ^ 64"
    "v < 2 ^ 64 \<Longrightarrow> x + y + z + u + v div 2 ^ 32 < 2 ^ 64"
proof -
  have v: "v < 2 ^ 64 \<Longrightarrow> v div 2 ^ 32 < 2 ^ 32" by (simp add: less_mult_imp_div_less)
  show "x + y + z < 2 ^ 64" "x + y + z + u < 2 ^ 64" "v < 2 ^ 64 \<Longrightarrow> x + y + z + v div 2 ^ 32 < 2 ^ 64"
    "v < 2 ^ 64 \<Longrightarrow> x + y + z + u + v div 2 ^ 32 < 2 ^ 64" using assms v by simp_all
qed

lemma product_halves: "x < 2 ^ 32 \<Longrightarrow> y < 2 ^ 32 \<Longrightarrow> x * y div 2 ^ 32 < 2 ^ 32" for x y :: nat
  using mul_less [of x y] by (simp add: less_mult_imp_div_less)

lemma div_drop_low: "h * (W * W * W) + l * (W * W) + (m * W + n) = p \<Longrightarrow> m < W \<Longrightarrow> n < W \<Longrightarrow> p div (W * W) = h * W + l" for W :: nat
proof -
  assume p: "h * (W * W * W) + l * (W * W) + (m * W + n) = p" and "m < W" "n < W"
  have "m * W + n < Suc m * W" using \<open>n < W\<close> by simp
  also have "\<dots> \<le> W * W" using \<open>m < W\<close> by (intro mult_le_mono1) simp
  finally have r: "m * W + n < W * W" .
  have "p = m * W + n + (h * W + l) * (W * W)" unfolding p [symmetric] by (simp only: algebra_simps)
  moreover have "W * W \<noteq> 0" using \<open>m < W\<close> by simp
  ultimately show ?thesis using div_mult_self1 [of "W * W" "m * W + n" "h * W + l"] r by simp
qed

lemma Multiply160_portable:
  assumes "sqlite3Multiply160 False a aLo b = (hi, lo)"
  shows "unat hi * 2 ^ 32 + unat lo = (unat a * 2 ^ 32 + unat aLo) * unat b div 2 ^ 64"
proof -
  define x2 x1 x0 y1 y0 :: u64 where "x2 = drop_bit 32 a" and "x1 = a AND 0xFFFFFFFF" and "x0 = ucast aLo" and "y1 = drop_bit 32 b" and "y0 = b AND 0xFFFFFFFF"
  define r1 where "r1 = (x1 * y0 AND 0xFFFFFFFF) + (x0 * y1 AND 0xFFFFFFFF) + drop_bit 32 (x0 * y0)"
  define r2 where "r2 = (x2 * y0 AND 0xFFFFFFFF) + (x1 * y1 AND 0xFFFFFFFF) + drop_bit 32 (x1 * y0) + drop_bit 32 (x0 * y1) + drop_bit 32 r1"
  define r3 where "r3 = (x2 * y1 AND 0xFFFFFFFF) + drop_bit 32 (x2 * y0) + drop_bit 32 (x1 * y1) + drop_bit 32 r2"
  have r: "hi = push_bit 32 (drop_bit 32 (x2 * y1)) + r3" "lo = ucast (r2 AND 0xFFFFFFFF)"
    using assms by (simp_all add: sqlite3Multiply160_def Let_def x2_def x1_def x0_def y1_def y0_def r1_def r2_def r3_def)
  have al: "unat aLo < 2 ^ 32" using unsigned_less [of aLo] by simp
  have u: "unat x2 = unat a div 2 ^ 32" "unat x1 = unat a mod 2 ^ 32" "unat x0 = unat aLo" "unat y1 = unat b div 2 ^ 32" "unat y0 = unat b mod 2 ^ 32"
    unfolding x2_def x1_def x0_def y1_def y0_def using al by (simp_all only: unat_half unat_cut) simp
  have l: "unat x2 < 2 ^ 32" "unat x1 < 2 ^ 32" "unat x0 < 2 ^ 32" "unat y1 < 2 ^ 32" "unat y0 < 2 ^ 32"
    unfolding u using unat_less64 [of a] unat_less64 [of b] al by (simp_all add: less_mult_imp_div_less)
  note mu = unat_mul32 [OF l(1) l(4)] unat_mul32 [OF l(1) l(5)] unat_mul32 [OF l(2) l(4)] unat_mul32 [OF l(2) l(5)] unat_mul32 [OF l(3) l(4)] unat_mul32 [OF l(3) l(5)]
  note hi = product_halves [OF l(1) l(4)] product_halves [OF l(1) l(5)] product_halves [OF l(2) l(4)] product_halves [OF l(2) l(5)] product_halves [OF l(3) l(4)] product_halves [OF l(3) l(5)]
  have lo: "n mod 2 ^ 32 < 2 ^ 32" for n :: nat by simp
  let ?A = "unat x2 * unat y1" and ?B = "unat x2 * unat y0" and ?C = "unat x1 * unat y0" and ?D = "unat x0 * unat y1" and ?E = "unat x0 * unat y0" and ?F = "unat x1 * unat y1"
  let ?W = "2 ^ 32 :: nat"
  have 1: "unat r1 = ?C mod ?W + ?D mod ?W + ?E div ?W" unfolding r1_def
    by (subst unat_add3) (simp_all only: unat_half mu digit_sums(1) [OF lo lo hi(6) lo])
  have 2: "unat r2 = ?B mod ?W + ?F mod ?W + ?C div ?W + ?D div ?W + unat r1 div ?W"
  proof -
    have "unat ((x2 * y0 AND 0xFFFFFFFF) + (x1 * y1 AND 0xFFFFFFFF) + drop_bit 32 (x1 * y0) + drop_bit 32 (x0 * y1)) =
        ?B mod ?W + ?F mod ?W + ?C div ?W + ?D div ?W"
      by (subst unat_add4) (simp_all only: unat_half mu digit_sums(2) [OF lo lo hi(4) hi(5)])
    then show ?thesis unfolding r2_def
      by (subst unat_add) (simp_all only: unat_half digit_sums(4) [OF lo lo hi(4) hi(5) unat_less64])
  qed
  have 3: "unat r3 = ?A mod ?W + ?B div ?W + ?F div ?W + unat r2 div ?W"
  proof -
    have "unat ((x2 * y1 AND 0xFFFFFFFF) + drop_bit 32 (x2 * y0) + drop_bit 32 (x1 * y1)) = ?A mod ?W + ?B div ?W + ?F div ?W"
      by (subst unat_add3) (simp_all only: unat_half mu digit_sums(1) [OF lo hi(2) hi(3) lo])
    then show ?thesis unfolding r3_def
      by (subst unat_add) (simp_all only: unat_half digit_sums(3) [OF lo hi(2) hi(3) lo unat_less64])
  qed
  let ?h = "?A div ?W * ?W + unat r3" and ?p = "(unat a * ?W + unat aLo) * unat b"
  have p: "?h * (?W * ?W * ?W) + unat r2 mod ?W * (?W * ?W) + (unat r1 mod ?W * ?W + ?E mod ?W) = ?p"
  proof -
    have "unat a = unat x2 * ?W + unat x1" "unat b = unat y1 * ?W + unat y0" unfolding u by simp_all
    then have "?p = ((unat x2 * ?W + unat x1) * ?W + unat x0) * (unat y1 * ?W + unat y0)" unfolding u(3) by simp
    also have "\<dots> = ?A * (?W * ?W * ?W) + (?B + ?F) * (?W * ?W) + (?C + ?D) * ?W + ?E" by (simp only: algebra_simps)
    finally show ?thesis by (rule trans [OF schoolbook160 [OF 1 2 3], OF sym])
  qed
  have "?p < (?W * ?W * ?W) * (?W * ?W)"
  proof (rule mult_strict_mono)
    show "unat a * ?W + unat aLo < ?W * ?W * ?W" using al unat_less64 [of a] by simp
    show "unat b < ?W * ?W" using unat_less64 [of b] by simp
  qed simp_all
  then have "?h * (?W * ?W * ?W) < (?W * ?W) * (?W * ?W * ?W)" using p by (simp only: mult.commute)
  then have "?h < ?W * ?W" unfolding mult_less_cancel2 by (rule conjunct2)
  then have h: "unat hi = ?h" unfolding r(1) using hi(1) by (subst unat_add) (simp_all add: unat_half mu)
  have "unat lo = unat r2 mod ?W" unfolding r(2) by (simp add: unat_cut unat_half)
  then show ?thesis unfolding h W2 using div_drop_low [OF p] by simp
qed


lemma Multiply160_wide:
  assumes "sqlite3Multiply160 True a aLo b = (hi, lo)"
  shows "unat hi * 2 ^ 32 + unat lo = (unat a * 2 ^ 32 + unat aLo) * unat b div 2 ^ 64"
proof -
  let ?W = "2 ^ 32 :: nat" and ?p = "(unat a * 2 ^ 32 + unat aLo) * unat b"
  let ?s = "ucast a * ucast b :: 128 word" and ?t = "ucast aLo * ucast b :: 128 word"
  have al: "unat aLo < 2 ^ 32" using unsigned_less [of aLo] by simp
  have u: "unat (ucast a :: 128 word) = unat a" "unat (ucast b :: 128 word) = unat b" "unat (ucast aLo :: 128 word) = unat aLo"
    using unat_less64 [of a] unat_less64 [of b] al by (simp_all add: unat_cut)
  have q: "?p div ?W = unat a * unat b + unat aLo * unat b div ?W"
    using div_mult_self3 [of ?W "unat a * unat b" "unat aLo * unat b"] by (simp add: algebra_simps)
  have "?p < (?W * ?W * ?W) * (?W * ?W)"
  proof (rule mult_strict_mono)
    show "unat a * ?W + unat aLo < ?W * ?W * ?W" using al unat_less64 [of a] by simp
    show "unat b < ?W * ?W" using unat_less64 [of b] by simp
  qed simp_all
  then have lt: "?p div ?W < 2 ^ 128" by (intro less_mult_imp_div_less) simp
  have "unat a * unat b < 2 ^ 128" using lt q by linarith
  then have s: "unat ?s = unat a * unat b" using unat_mult_lem [of "ucast a :: 128 word" "ucast b"] by (simp add: u)
  have "unat aLo * unat b < 2 ^ 32 * 2 ^ 64" using al unat_less64 [of b] by (intro mult_strict_mono) simp_all
  then have "unat aLo * unat b < 2 ^ 128" by (rule less_trans) simp
  then have t: "unat ?t = unat aLo * unat b" using unat_mult_lem [of "ucast aLo :: 128 word" "ucast b"] by (simp add: u)
  have r: "unat (?s + drop_bit 32 ?t) = ?p div ?W"
    unfolding q using unat_add_lem [of ?s "drop_bit 32 ?t"] lt [unfolded q] by (simp add: unat_drop s t)
  have m: "ucast (x AND 0xFFFFFFFF) = (ucast x :: u32)" for x :: "128 word"
    by (rule bit_word_eqI) (auto simp: bit_unsigned_iff bit_and_iff bit_0xFFFFFFFF)
  have "hi = ucast (drop_bit 64 (?s + drop_bit 32 ?t))" "lo = ucast (drop_bit 32 (?s + drop_bit 32 ?t))"
    using assms by (simp_all add: sqlite3Multiply160_def Let_def m)
  moreover have "?p div ?W div 2 ^ 64 < 2 ^ 64" using lt by (intro less_mult_imp_div_less) simp
  ultimately have "unat hi = ?p div ?W div 2 ^ 64" "unat lo = ?p div ?W div ?W mod ?W" using r by (simp_all add: unat_cut unat_drop)
  moreover have "?p div ?W div 2 ^ 64 = ?p div ?W div ?W div ?W" "?p div 2 ^ 64 = ?p div ?W div ?W" by (simp_all add: div_mult2_eq [symmetric])
  ultimately show ?thesis by simp
qed

lemma Multiply_exact:
  "unat (fst (sqlite3Multiply128 w a b)) * 2 ^ 64 + unat (snd (sqlite3Multiply128 w a b)) = unat a * unat b"
  "unat (fst (sqlite3Multiply160 w a aLo b)) * 2 ^ 32 + unat (snd (sqlite3Multiply160 w a aLo b)) = (unat a * 2 ^ 32 + unat aLo) * unat b div 2 ^ 64"
  by (cases w; simp only: Multiply128_wide [OF surjective_pairing] Multiply128_portable [OF surjective_pairing]
      Multiply160_wide [OF surjective_pairing] Multiply160_portable [OF surjective_pairing])+

section \<open>Leading zeros and logarithms\<close>

text \<open>A shift amount for which a number becomes normal is unique.\<close>

lemma normal_unique:
  fixes M :: nat
  assumes "2 ^ 63 \<le> M * 2 ^ i" "M * 2 ^ i < 2 ^ 64" "2 ^ 63 \<le> M * 2 ^ j" "M * 2 ^ j < 2 ^ 64"
  shows "i = j"
proof (rule ccontr)
  have *: False if "2 ^ 63 \<le> M * 2 ^ a" "M * 2 ^ b < 2 ^ 64" "a < b" for a b
  proof -
    have "2 ^ 64 = 2 * (2 :: nat) ^ 63" by simp
    also have "\<dots> \<le> 2 * (M * 2 ^ a)" using that(1) by simp
    also have "\<dots> = M * 2 ^ Suc a" by simp
    also have "\<dots> \<le> M * 2 ^ b" using that(3) by (intro mult_le_mono2 power_increasing) simp_all
    finally show False using that(2) by simp
  qed
  assume "i \<noteq> j"
  then show False using * [of i j] * [of j i] assms by (cases "i < j") auto
qed

lemma clz_step_inv:
  assumes "clz_step s (m, n) = (m', n')" "unat m = M * 2 ^ n" "2 ^ (64 - 2 * s) \<le> unat m" "0 < s" "2 * s \<le> 64"
  shows "unat m' = M * 2 ^ n'" "2 ^ (64 - s) \<le> unat m'"
proof -
  have p: "(2 :: nat) ^ 64 = 2 ^ (64 - s) * 2 ^ s" using assms(5) by (simp flip: power_add)
  have "m \<le> drop_bit s (- 1) \<longleftrightarrow> unat m \<le> (2 ^ 64 - 1) div 2 ^ s"
    unfolding word_le_nat_alt unat_drop by (simp add: unsigned_minus_1_eq_mask mask_eq_exp_minus_1)
  also have "\<dots> \<longleftrightarrow> unat m * 2 ^ s \<le> 2 ^ 64 - 1" by (simp only: less_eq_div_iff_mult_less_eq zero_less_power zero_less_numeral)
  also have "\<dots> \<longleftrightarrow> unat m * 2 ^ s < 2 ^ 64" by auto
  also have "\<dots> \<longleftrightarrow> unat m < 2 ^ (64 - s)" unfolding p by simp
  finally have c: "m \<le> drop_bit s (- 1) \<longleftrightarrow> unat m < 2 ^ (64 - s)" .
  have d: "unat (push_bit s m) = unat m * 2 ^ s" if "unat m < 2 ^ (64 - s)"
  proof -
    have "unat m * 2 ^ s < 2 ^ 64" unfolding p using that by simp
    then show ?thesis unfolding unsigned_push_bit_eq by (simp only: push_bit_eq_mult take_bit_eq_mod) simp
  qed
  have e: "(2 :: nat) ^ (64 - s) = 2 ^ (64 - 2 * s) * 2 ^ s" using assms(5) by (simp flip: power_add)
  show "unat m' = M * 2 ^ n'" "2 ^ (64 - s) \<le> unat m'"
    using assms(1-3) c d unfolding e by (auto simp: clz_step_def power_add split: if_splits)
qed

lemma countLeadingZeros_portable:
  assumes "m \<noteq> 0"
  shows "2 ^ 63 \<le> unat m * 2 ^ countLeadingZeros False m \<and> unat m * 2 ^ countLeadingZeros False m < 2 ^ 64"
proof -
  obtain m1 n1 where 1: "clz_step 32 (m, 0) = (m1, n1)" by fastforce
  obtain m2 n2 where 2: "clz_step 16 (m1, n1) = (m2, n2)" by fastforce
  obtain m3 n3 where 3: "clz_step 8 (m2, n2) = (m3, n3)" by fastforce
  obtain m4 n4 where 4: "clz_step 4 (m3, n3) = (m4, n4)" by fastforce
  obtain m5 n5 where 5: "clz_step 2 (m4, n4) = (m5, n5)" by fastforce
  have m: "unat m = unat m * 2 ^ 0" "2 ^ (64 - 2 * 32) \<le> unat m" using assms by (simp_all add: Suc_le_eq unat_gt_0)
  note i1 = clz_step_inv [OF 1 m] 
  have j1: "unat m1 = unat m * 2 ^ n1" "2 ^ (64 - 2 * 16) \<le> unat m1" using i1 by simp_all
  note i2 = clz_step_inv [OF 2 j1]
  have j2: "unat m2 = unat m * 2 ^ n2" "2 ^ (64 - 2 * 8) \<le> unat m2" using i2 by simp_all
  note i3 = clz_step_inv [OF 3 j2]
  have j3: "unat m3 = unat m * 2 ^ n3" "2 ^ (64 - 2 * 4) \<le> unat m3" using i3 by simp_all
  note i4 = clz_step_inv [OF 4 j3]
  have j4: "unat m4 = unat m * 2 ^ n4" "2 ^ (64 - 2 * 2) \<le> unat m4" using i4 by simp_all
  note i5 = clz_step_inv [OF 5 j4]
  have j5: "unat m5 = unat m * 2 ^ n5" "2 ^ 62 \<le> unat m5" using i5 by simp_all
  have "countLeadingZeros False m = (if m5 \<le> 0x7FFFFFFFFFFFFFFF then n5 + 1 else n5)"
    by (simp add: countLeadingZeros_def 1 2 3 4 5)
  moreover have "m5 \<le> 0x7FFFFFFFFFFFFFFF \<longleftrightarrow> unat m5 < 2 ^ 63" by (simp add: word_le_nat_alt) linarith
  ultimately show ?thesis using j5 unat_less64 [of m5] by auto
qed

lemma builtin_clz_normal:
  assumes "m \<noteq> 0"
  shows "2 ^ 63 \<le> unat m * 2 ^ builtin_clz m \<and> unat m * 2 ^ builtin_clz m < 2 ^ 64"
proof -
  let ?L = "rev [0..<64]" and ?P = "\<lambda>i. \<not> bit m i" and ?k = "builtin_clz m"
  have nth: "?L ! j = 63 - j" if "j < 64" for j using that by (simp add: rev_nth)
  have k: "?k = length (takeWhile ?P ?L)" by (simp add: builtin_clz_def)
  have "\<exists>i < 64. bit m i"
  proof (rule ccontr)
    assume "\<not> (\<exists>i < 64. bit m i)"
    then have "m = 0" by (intro bit_word_eqI) auto
    then show False using assms by simp
  qed
  then have "takeWhile ?P ?L \<noteq> ?L" by (auto simp: takeWhile_eq_all_conv)
  then have lt: "?k < 64" unfolding k using length_takeWhile_le [of ?P ?L] by (metis length_rev length_upt minus_nat.diff_0 nless_le takeWhile_eq_take take_all_iff)
  have top: "bit m (63 - ?k)" using nth_length_takeWhile [of ?P ?L] lt nth [of ?k] unfolding k by simp
  have zero: "i < 64 - ?k" if "bit m i" for i
  proof (rule ccontr)
    assume i: "\<not> i < 64 - ?k"
    have "i < 64" using bit_imp_le_length [OF that] by simp
    then have j: "63 - i < ?k" "63 - i < 64" "?L ! (63 - i) = i" using i lt nth [of "63 - i"] by auto
    have "takeWhile ?P ?L ! (63 - i) = i" using j takeWhile_nth [of "63 - i" ?P ?L] unfolding k by simp
    then have "i \<in> set (takeWhile ?P ?L)" using j(1) unfolding k by (metis nth_mem)
    then show False using that by (auto dest: set_takeWhileD)
  qed
  have "take_bit (64 - ?k) m = m" by (rule bit_word_eqI) (auto simp: bit_take_bit_iff dest: zero)
  then have "unat m mod 2 ^ (64 - ?k) = unat m" by (metis take_bit_eq_mod unsigned_take_bit_eq)
  then have hi: "unat m < 2 ^ (64 - ?k)" by (metis mod_less_divisor zero_less_numeral zero_less_power)
  have "bit (unat m) (63 - ?k)" using top by (simp add: bit_unsigned_iff)
  then have "unat m div 2 ^ (63 - ?k) \<noteq> 0" by (metis bit_iff_odd even_zero)
  then have lo: "2 ^ (63 - ?k) \<le> unat m" by (simp add: div_eq_0_iff)
  have "2 ^ 63 = (2 :: nat) ^ (63 - ?k) * 2 ^ ?k" "2 ^ 64 = (2 :: nat) ^ (64 - ?k) * 2 ^ ?k" using lt by (simp_all flip: power_add)
  then show ?thesis using lo hi by (metis mult_le_mono1 mult_less_mono1 zero_less_numeral zero_less_power)
qed

lemma clz_builds_agree: "m \<noteq> 0 \<Longrightarrow> countLeadingZeros False m = builtin_clz m"
  using countLeadingZeros_portable [of m] builtin_clz_normal [of m] normal_unique [of "unat m"] by blast


text \<open>Both builds of the logarithm shift a number down until four bits are left.\<close>

lemma nibble_unique:
  fixes X :: nat
  assumes "8 \<le> X div 2 ^ i" "X div 2 ^ i \<le> 15" "8 \<le> X div 2 ^ j" "X div 2 ^ j \<le> 15"
  shows "i = j"
proof (rule ccontr)
  have *: False if "X div 2 ^ a \<le> 15" "8 \<le> X div 2 ^ b" "a < b" for a b
  proof -
    have "8 * 2 ^ b \<le> X" using that(2) by (simp add: less_eq_div_iff_mult_less_eq)
    moreover have "X < 16 * 2 ^ a" using that(1) div_less_iff_less_mult [of "2 ^ a" X 16] by simp
    moreover have "2 * 2 ^ a \<le> (2 :: nat) ^ b" using that(3) power_increasing [of "Suc a" b "2 :: nat"] by simp
    ultimately show False by linarith
  qed
  assume "i \<noteq> j"
  then show False using * [of i j] * [of j i] assms by (cases "i < j") auto
qed

lemma down4_run:
  "8 \<le> unat x \<Longrightarrow> \<exists>j. logest_down4 x y = (drop_bit j x, y + 10 * int j) \<and> 8 \<le> unat (drop_bit j x) \<and> unat (drop_bit j x) \<le> 255"
proof (induction x y rule: logest_down4.induct)
  case (1 x y)
  show ?case
  proof (cases "x > 255")
    case True
    then have "8 \<le> unat (drop_bit 4 x)" by (simp add: unat_drop word_less_nat_alt)
    from 1(1) [OF True this] obtain j where "logest_down4 x y = (drop_bit (j + 4) x, y + 10 * int (j + 4))"
      "8 \<le> unat (drop_bit (j + 4) x)" "unat (drop_bit (j + 4) x) \<le> 255"
      using True by (auto simp: logest_down4.simps [of x y] algebra_simps)
    then show ?thesis by blast
  next
    case False
    then have "logest_down4 x y = (drop_bit 0 x, y + 10 * int 0)" "unat (drop_bit 0 x) \<le> 255"
      by (simp_all add: logest_down4.simps [of x y] word_less_nat_alt)
    moreover have "8 \<le> unat (drop_bit 0 x)" using 1(2) by simp
    ultimately show ?thesis by blast
  qed
qed

lemma down1_run:
  "8 \<le> unat x \<Longrightarrow> \<exists>j. logest_down1 x y = (drop_bit j x, y + 10 * int j) \<and> 8 \<le> unat (drop_bit j x) \<and> unat (drop_bit j x) \<le> 15"
proof (induction x y rule: logest_down1.induct)
  case (1 x y)
  show ?case
  proof (cases "x > 15")
    case True
    then have "8 \<le> unat (drop_bit 1 x)" by (simp add: unat_drop word_less_nat_alt)
    from 1(1) [OF True this] obtain j where "logest_down1 x y = (drop_bit (j + 1) x, y + 10 * int (j + 1))"
      "8 \<le> unat (drop_bit (j + 1) x)" "unat (drop_bit (j + 1) x) \<le> 15"
      using True by (auto simp: logest_down1.simps [of x y] algebra_simps)
    then show ?thesis by blast
  next
    case False
    then have "logest_down1 x y = (drop_bit 0 x, y + 10 * int 0)" "unat (drop_bit 0 x) \<le> 15"
      by (simp_all add: logest_down1.simps [of x y] word_less_nat_alt)
    moreover have "8 \<le> unat (drop_bit 0 x)" using 1(2) by simp
    ultimately show ?thesis by blast
  qed
qed

lemma LogEst_builds_agree: "sqlite3LogEst True x = sqlite3LogEst False x"
proof (cases "x < 8")
  case False
  then have x: "8 \<le> unat x" "\<not> x < 2" "x \<noteq> 0" by (auto simp: word_less_nat_alt)
  obtain j where 4: "logest_down4 x 40 = (drop_bit j x, 40 + 10 * int j)" "8 \<le> unat (drop_bit j x)" "unat (drop_bit j x) \<le> 255"
    using down4_run [OF x(1)] by blast
  obtain k where 1: "logest_down1 (drop_bit j x) (40 + 10 * int j) = (drop_bit k (drop_bit j x), 40 + 10 * int j + 10 * int k)"
    "8 \<le> unat (drop_bit k (drop_bit j x))" "unat (drop_bit k (drop_bit j x)) \<le> 15"
    using down1_run [OF 4(2)] by blast
  let ?i = "60 - builtin_clz x"
  have "8 \<le> unat x div 2 ^ ?i \<and> unat x div 2 ^ ?i \<le> 15"
  proof -
    let ?k = "builtin_clz x"
    have n: "2 ^ 63 \<le> unat x * 2 ^ ?k" "unat x * 2 ^ ?k < 2 ^ 64" using builtin_clz_normal [OF x(3)] by blast+
    have k: "?k \<le> 60"
    proof (rule ccontr)
      assume "\<not> ?k \<le> 60"
      then have "8 * 2 ^ 61 \<le> unat x * 2 ^ ?k" using x(1) by (intro mult_le_mono power_increasing) simp_all
      then show False using n(2) by simp
    qed
    have p: "2 ^ 63 = 8 * 2 ^ ?i * (2 :: nat) ^ ?k" "2 ^ 64 = 16 * 2 ^ ?i * (2 :: nat) ^ ?k"
      using k power_add [of "2 :: nat" ?i ?k] by (simp_all add: mult.commute)
    have "8 * 2 ^ ?i \<le> unat x" "unat x < 16 * 2 ^ ?i" using n unfolding p by simp_all
    then show ?thesis using div_less_iff_less_mult [of "2 ^ ?i" "unat x" 16] by (simp add: less_eq_div_iff_mult_less_eq)
  qed
  then have "k + j = ?i" using 1(2,3) nibble_unique [of "unat x" "k + j" ?i] by (simp add: unat_drop)
  then show ?thesis using False x 4(1) 1(1) by (simp add: sqlite3LogEst_def Let_def)
qed (simp add: sqlite3LogEst_def)


section \<open>Properties\<close>

text \<open>
  C26: The checked addition, subtraction and multiplication report an overflow exactly when the
  true result is no signed 64-bit integer, in the portable and in the intrinsic build alike, and
  otherwise store the true result. On overflow the portable build leaves the operand alone, as
  the comment promises; the intrinsic build overwrites it with the result reduced to 64 bits.
\<close>

theorem int64_overflow_checked:
  assumes "i64 a" "i64 b"
  shows "sqlite3AddInt64 gcc a b = (if i64 (a + b) then (0, a + b) else (1, if gcc then wrap64 (a + b) else a))
    \<and> sqlite3SubInt64 gcc a b = (if i64 (a - b) then (0, a - b) else (1, if gcc then wrap64 (a - b) else a))
    \<and> sqlite3MulInt64 gcc a b = (if i64 (a * b) then (0, a * b) else (1, if gcc then wrap64 (a * b) else a))"
  using checked_ops [OF assms] by (simp add: checked_def)

theorem int64_overflow_checked_witness:
  "sqlite3AddInt64 True LARGEST_INT64 1 = (1, SMALLEST_INT64) \<and> sqlite3AddInt64 False LARGEST_INT64 1 = (1, LARGEST_INT64)"
proof -
  have i: "i64 LARGEST_INT64" "i64 1" "\<not> i64 (LARGEST_INT64 + 1)" by (simp_all add: i64_def limits)
  have "wrap64 (LARGEST_INT64 + 1) = SMALLEST_INT64" by (simp add: wrap64_def limits)
  then show ?thesis using int64_overflow_checked [OF i(1,2)] i(3) by simp
qed

text \<open>
  C27: The wide multiplications are exact in both builds: the two words of the 128-bit product are
  the product, and the 96 by 64 bit multiplication gives the upper 96 bits of its product.
\<close>

theorem wide_products_exact:
  "unat (fst (sqlite3Multiply128 w a b)) * 2 ^ 64 + unat (snd (sqlite3Multiply128 w a b)) = unat a * unat b
   \<and> unat (fst (sqlite3Multiply160 w a aLo b)) * 2 ^ 32 + unat (snd (sqlite3Multiply160 w a aLo b)) =
       (unat a * 2 ^ 32 + unat aLo) * unat b div 2 ^ 64"
  using Multiply_exact by blast

text \<open>
  C28: The builds with and without the compiler's leading-zero intrinsic compute the same: the
  halving steps count the leading zeros of every nonzero word, and the logarithmic estimate is
  the same for every argument.
\<close>

theorem clz_and_logest_builds_agree:
  "(m \<noteq> 0 \<longrightarrow> countLeadingZeros False m = countLeadingZeros True m) \<and> sqlite3LogEst False x = sqlite3LogEst True x"
  using clz_builds_agree [of m] LogEst_builds_agree [of x] by (simp add: countLeadingZeros_def)

theorem clz_and_logest_builds_agree_witness:
  "countLeadingZeros False 1 = countLeadingZeros True 1"
  using clz_and_logest_builds_agree [of 1] by simp

end
