(* ===== verification/SC_Decimal.thy ===== *)
theory SC_Decimal
  imports SC_Int64 SC_Strings SC_Bytes
begin

unbundle bit_operations_syntax

text \<open>
  Integers as text, src/src/util.c: printing signed 64-bit integers two digits at a time,
  reading them back from UTF-8 or UTF-16 text with the range check at 2^63, hexadecimal and
  unsigned 32-bit integers, and BLOB literals.

  Text with a length is the list of its bytes. Zero-terminated text is, as elsewhere, the list
  without the terminator.
\<close>

section \<open>Definitions\<close>

definition sqlite3DigitPairs :: bytes where
  "sqlite3DigitPairs = str (
     ''00010203040506070809'' @ ''10111213141516171819'' @ ''20212223242526272829'' @ ''30313233343536373839'' @
     ''40414243444546474849'' @ ''50515253545556575859'' @ ''60616263646566676869'' @ ''70717273747576777879'' @
     ''80818283848586878889'' @ ''90919293949596979899'')"

definition digit_pair :: "nat \<Rightarrow> bytes" where
  "digit_pair k = [sqlite3DigitPairs ! (2 * k), sqlite3DigitPairs ! (2 * k + 1)]"

text \<open>The digit loops; \<open>a\<close> is the part of the buffer that is filled already.\<close>

function digits_loop :: "u64 \<Rightarrow> bytes \<Rightarrow> bytes" where
  "digits_loop x a =
     (if x \<ge> 10 then digits_loop (x div 100) (digit_pair (unat (x mod 100)) @ a)
      else if x \<noteq> 0 then ucast (x + 48) # a else a)"
  by pat_completeness auto
termination
  by (relation "measure (\<lambda>(x, a). unat x)") (auto simp: word_le_nat_alt unat_div)

function u64_text_loop :: "u64 \<Rightarrow> bytes \<Rightarrow> u64 \<times> bytes" where
  "u64_text_loop v a =
     (if drop_bit 32 v \<noteq> 0 then
        let x32 = (ucast (v mod 100000000) :: u32); v = v div 100000000;
            y = x32 mod 10000; x32 = x32 div 10000;
            x1 = x32 div 100; x0 = x32 mod 100; y1 = y div 100; y0 = y mod 100
        in u64_text_loop v (digit_pair (unat x1) @ digit_pair (unat x0) @ digit_pair (unat y1) @ digit_pair (unat y0) @ a)
      else (v, a))"
  by pat_completeness auto
termination
proof (relation "measure (\<lambda>(v, a). unat v)")
  fix v w :: u64 and a b :: bytes assume "drop_bit 32 v \<noteq> 0" "w = v div 100000000"
  then have "unat v \<noteq> 0" "unat w = unat v div 100000000" by (auto simp: unat_div unat_eq_0)
  then show "((w, b), (v, a)) \<in> measure (\<lambda>(v, a). unat v)" by simp
qed simp

function u32_text_loop :: "u32 \<Rightarrow> bytes \<Rightarrow> bytes" where
  "u32_text_loop x32 a =
     (if x32 \<ge> 10 then u32_text_loop (x32 div 100) (digit_pair (unat (x32 mod 100)) @ a)
      else if x32 \<noteq> 0 then ucast (x32 + 48) # a else a)"
  by pat_completeness auto
termination
  by (relation "measure (\<lambda>(x, a). unat x)") (auto simp: word_le_nat_alt unat_div)

declare digits_loop.simps [simp del] u64_text_loop.simps [simp del] u32_text_loop.simps [simp del]

definition sqlite3UInt64ToText :: "u64 \<Rightarrow> bytes" where
  "sqlite3UInt64ToText v = (let (v, a) = u64_text_loop v [] in u32_text_loop (ucast v) a)"

definition sqlite3Int64ToText :: "bool \<Rightarrow> int \<Rightarrow> bytes" where
  "sqlite3Int64ToText avoid_divide v =
     (if v = 0 then [48]
      else
        let x = (if v > 0 then word_of_int v else if v = SMALLEST_INT64 then push_bit 63 1 else word_of_int (- v)) :: u64;
            a = (if avoid_divide then sqlite3UInt64ToText x else digits_loop x [])
        in if v < 0 then 45 # a else a)"

definition pow63 :: bytes where
  "pow63 = str ''922337203685477580''"

text \<open>The characters \<open>zNum[0]\<close>, \<open>zNum[incr]\<close>, ... are the list \<open>z\<close>.\<close>

definition compare2pow63 :: "bytes \<Rightarrow> int" where
  "compare2pow63 z =
     (let c = fold (\<lambda>i c. if c = 0 then (uint (z ! i) - uint (pow63 ! i)) * 10 else c) [0..<18] 0
      in if c = 0 then uint (z ! 18) - 56 else c)"

definition sqlite3Isspace :: "byte \<Rightarrow> bool" where
  "sqlite3Isspace c \<longleftrightarrow> c = 32 \<or> 9 \<le> c \<and> c \<le> 13"

definition SQLITE_UTF8 :: int where "SQLITE_UTF8 = 1"
definition SQLITE_UTF16LE :: int where "SQLITE_UTF16LE = 2"
definition SQLITE_UTF16BE :: int where "SQLITE_UTF16BE = 3"

text \<open>
  The characters the parser sees up to \<open>zEnd\<close>, and whether a UTF-16 character above 255 cut
  them short: in UTF-16 every second byte, up to the first unit whose high byte is not zero.
\<close>

fun utf16_units :: "bool \<Rightarrow> bytes \<Rightarrow> bytes \<times> bool" where
  "utf16_units be (x # y # z) =
     (let hi = (if be then x else y); lo = (if be then y else x)
      in if hi = 0 then let (cs, nonNum) = utf16_units be z in (lo # cs, nonNum) else ([], True))"
| "utf16_units be z = ([], False)"

definition atoi_text :: "bytes \<Rightarrow> int \<Rightarrow> bytes \<times> bool" where
  "atoi_text z enc = (if enc = SQLITE_UTF8 then (z, False) else utf16_units (enc = SQLITE_UTF16BE) z)"

definition atoi_sign :: "bytes \<Rightarrow> bool \<times> bytes" where
  "atoi_sign z = (case z of [] \<Rightarrow> (False, []) | c # cs \<Rightarrow> if c = 45 then (True, cs) else if c = 43 then (False, cs) else (False, z))"

definition atoi_value :: "bool \<Rightarrow> u64 \<Rightarrow> int" where
  "atoi_value neg u =
     (if uint u > LARGEST_INT64 then (if neg then SMALLEST_INT64 else LARGEST_INT64)
      else if neg then - uint u else uint u)"

definition sqlite3Atoi64 :: "bytes \<Rightarrow> int \<Rightarrow> int \<times> int" where
  "sqlite3Atoi64 z enc =
     (let (z, nonNum) = atoi_text z enc;
          (neg, zStart) = atoi_sign (dropWhile sqlite3Isspace z);
          zNum = dropWhile (\<lambda>c. c = 48) zStart;
          ds = takeWhile sqlite3Isdigit zNum;
          u = foldl (\<lambda>u c. u * 10 + ucast (c - 48)) (0 :: u64) ds;
          rest = drop (length ds) zNum;
          rc = (if ds = [] \<and> zStart = zNum then - 1
                else if nonNum then 1
                else if \<not> list_all sqlite3Isspace rest then 1 else 0)
      in if length ds < 19 then (rc, atoi_value neg u)
         else
           let j = (if length ds > 19 then 1 else compare2pow63 zNum)
           in if j < 0 then (rc, atoi_value neg u)
              else (if j > 0 then 2 else if neg then rc else 3, if neg then SMALLEST_INT64 else LARGEST_INT64))"

definition DecOrHex_chars :: bytes where
  "DecOrHex_chars = str ''+- '' @ [10, 9] @ str ''0123456789''"

definition sqlite3DecOrHexToI64 :: "bytes \<Rightarrow> int \<times> int" where
  "sqlite3DecOrHexToI64 z =
     (if hd0 z = 48 \<and> (hd0 (tl z) = 120 \<or> hd0 (tl z) = 88) then
        let z = dropWhile (\<lambda>c. c = 48) (drop 2 z);
            ds = takeWhile sqlite3Isxdigit z;
            u = foldl (\<lambda>u c. u * 16 + ucast (sqlite3HexToInt c)) (0 :: u64) ds
        in (if length ds > 16 then 2 else if drop (length ds) z \<noteq> [] then 1 else 0, sint u)
      else
        let n = length (takeWhile (\<lambda>c. c \<in> set DecOrHex_chars) z) mod 2 ^ 30;
            n = (if n < length z then n + 1 else n)
        in sqlite3Atoi64 (take n z) SQLITE_UTF8)"

text \<open>The loop of \<open>sqlite3GetUInt32\<close>: \<open>None\<close> as soon as the value exceeds 32 bits.\<close>

fun uint32_loop :: "u64 \<Rightarrow> bytes \<Rightarrow> (u64 \<times> bytes) option" where
  "uint32_loop v [] = Some (v, [])"
| "uint32_loop v (c # z) =
     (if sqlite3Isdigit c then
        let v = v * 10 + ucast c - 48 in if v > 4294967295 then None else uint32_loop v z
      else Some (v, c # z))"

definition sqlite3GetUInt32 :: "bytes \<Rightarrow> int \<times> u32" where
  "sqlite3GetUInt32 z =
     (case uint32_loop 0 z of
        None \<Rightarrow> (0, 0)
      | Some (v, rest) \<Rightarrow> if rest = z \<or> rest \<noteq> [] then (0, 0) else (1, ucast v))"

text \<open>\<open>sqlite3HexToBlob\<close> on \<open>n\<close> digits: one byte for every pair.\<close>

fun hex_to_blob :: "bytes \<Rightarrow> bytes" where
  "hex_to_blob (a # b # z) = (push_bit 4 (sqlite3HexToInt a) OR sqlite3HexToInt b) # hex_to_blob z"
| "hex_to_blob z = []"

definition sqlite3HexToBlob :: "bool \<Rightarrow> bytes \<Rightarrow> nat \<Rightarrow> bytes option" where
  "sqlite3HexToBlob malloc_ok z n = (if malloc_ok then Some (hex_to_blob (take n z)) else None)"


section \<open>Decimal numerals\<close>

text \<open>The value of a digit string, and the digit string of a positive number.\<close>

definition dval :: "bytes \<Rightarrow> nat" where
  "dval ds = foldl (\<lambda>a c. a * 10 + (unat c - 48)) 0 ds"

fun dec_text :: "nat \<Rightarrow> bytes" where
  "dec_text n = (if n = 0 then [] else dec_text (n div 10) @ [of_nat (48 + n mod 10)])"

declare dec_text.simps [simp del]

definition dchar :: "nat \<Rightarrow> byte" where
  "dchar k = of_nat (48 + k)"

lemma dval_snoc: "dval (xs @ [c]) = dval xs * 10 + (unat c - 48)"
  by (simp add: dval_def)

lemma dval_append: "dval (xs @ ys) = dval xs * 10 ^ length ys + dval ys"
proof (induction ys rule: rev_induct)
  case (snoc c ys)
  have "dval (xs @ ys @ [c]) = dval (xs @ ys) * 10 + (unat c - 48)" using dval_snoc [of "xs @ ys"] by simp
  also have "\<dots> = dval xs * 10 ^ length ys * 10 + (dval ys * 10 + (unat c - 48))" by (simp only: snoc add_mult_distrib add.assoc)
  finally show ?case by (simp only: dval_snoc length_append_singleton power_Suc2 mult.assoc)
qed (simp add: dval_def)

lemma dval_simps [simp]: "dval [] = 0" "dval [c] = unat c - 48" "dval (c # ds) = (unat c - 48) * 10 ^ length ds + dval ds"
  using dval_append [of "[c]" ds] by (simp_all add: dval_def)

lemma digit_range: "sqlite3Isdigit c \<longleftrightarrow> 48 \<le> unat c \<and> unat c \<le> 57"
  by (simp add: sqlite3Isdigit_def word_le_nat_alt)

lemma dval_less: "list_all sqlite3Isdigit ds \<Longrightarrow> dval ds < 10 ^ length ds"
proof (induction ds)
  case (Cons c ds)
  then have "unat c - 48 \<le> 9" "dval ds < 10 ^ length ds" by (auto simp: digit_range)
  then have "(unat c - 48) * 10 ^ length ds \<le> 9 * 10 ^ length ds" by (intro mult_le_mono1)
  then have "(unat c - 48) * 10 ^ length ds + dval ds < 10 * 10 ^ length ds" using \<open>dval ds < _\<close> by linarith
  then show ?case by (simp only: dval_simps length_Cons power_Suc)
qed simp

lemma dchar: "k < 10 \<Longrightarrow> unat (dchar k) = 48 + k" "k < 10 \<Longrightarrow> sqlite3Isdigit (dchar k)" "k < 10 \<Longrightarrow> dchar k = 48 \<longleftrightarrow> k = 0"
proof -
  show u: "unat (dchar k) = 48 + k" if "k < 10" for k using that by (simp add: dchar_def unat_of_nat del: of_nat_add)
  show "k < 10 \<Longrightarrow> sqlite3Isdigit (dchar k)" using u [of k] by (simp add: digit_range)
  show "k < 10 \<Longrightarrow> dchar k = 48 \<longleftrightarrow> k = 0" using u [of k] by (auto simp: word_unat_eq_iff)
qed

lemma dec_text_step: "0 < n \<Longrightarrow> dec_text n = dec_text (n div 10) @ [dchar (n mod 10)]" "dec_text 0 = []"
  by (simp_all add: dec_text.simps [of n] dec_text.simps [of 0] dchar_def)

lemma dec_text_props: "dval (dec_text n) = n \<and> list_all sqlite3Isdigit (dec_text n) \<and> (0 < n \<longrightarrow> dec_text n \<noteq> [] \<and> hd (dec_text n) \<noteq> 48)"
proof (induction n rule: dec_text.induct)
  case (1 n)
  show ?case
  proof (cases "n = 0")
    case False
    note ih = 1 [OF False]
    have m: "n mod 10 < 10" by simp
    show ?thesis
    proof (cases "n div 10 = 0")
      case True
      then have "n < 10" by simp
      then show ?thesis using False True by (simp add: dec_text_step dchar)
    next
      case F: False
      then show ?thesis using False ih by (simp add: dec_text_step(1) [of n] dval_append dchar)
    qed
  qed (simp add: dec_text_step)
qed

lemma dec_text_length: "0 < n \<Longrightarrow> n < 10 ^ k \<Longrightarrow> length (dec_text n) \<le> k"
proof (induction k arbitrary: n)
  case (Suc k)
  show ?case
  proof (cases "n div 10 = 0")
    case False
    then have "length (dec_text (n div 10)) \<le> k" using Suc by simp
    then show ?thesis using Suc(2) by (simp add: dec_text_step(1) [of n])
  qed (use Suc in \<open>simp add: dec_text_step\<close>)
qed simp

lemma dec_text_pair:
  assumes "10 \<le> n"
  shows "dec_text n = dec_text (n div 100) @ [dchar (n mod 100 div 10), dchar (n mod 10)]"
proof -
  have "dec_text n = dec_text (n div 10) @ [dchar (n mod 10)]" using assms by (intro dec_text_step) simp
  also have "dec_text (n div 10) = dec_text (n div 10 div 10) @ [dchar (n div 10 mod 10)]" using assms by (intro dec_text_step) simp
  also have "n div 10 div 10 = n div 100" by (simp add: div_mult2_eq [symmetric])
  also have "n div 10 mod 10 = n mod 100 div 10" using mod_mult2_eq [of n 10 10] by simp
  finally show ?thesis by simp
qed

lemma digit_pair_eq: "k < 100 \<Longrightarrow> digit_pair k = [dchar (k div 10), dchar (k mod 10)]"
proof -
  have "list_all (\<lambda>k. digit_pair k = [dchar (k div 10), dchar (k mod 10)]) [0..<100]" by code_simp
  then show "k < 100 \<Longrightarrow> ?thesis" by (simp add: list_all_iff)
qed


lemma dec_text_digit_pair: "10 \<le> n \<Longrightarrow> dec_text n = dec_text (n div 100) @ digit_pair (n mod 100)"
  using dec_text_pair [of n] by (simp add: digit_pair_eq mod_mod_cancel)

section \<open>Printing\<close>

lemma ucast_digit:
  shows "unat (x :: u64) < 10 \<Longrightarrow> (ucast (x + 48) :: byte) = dchar (unat x)"
    and "unat (y :: u32) < 10 \<Longrightarrow> (ucast (y + 48) :: byte) = dchar (unat y)"
proof -
  show "(ucast (x + 48) :: byte) = dchar (unat x)" if "unat x < 10" for x :: u64
  proof (rule word_unat_eq_iff [THEN iffD2])
    have "unat (x + 48) = unat x + 48" using that by (simp add: unat_word_ariths)
    then show "unat (ucast (x + 48) :: byte) = unat (dchar (unat x))" using that by (simp add: dchar unsigned_ucast_eq take_bit_eq_mod)
  qed
  show "(ucast (y + 48) :: byte) = dchar (unat y)" if "unat y < 10" for y :: u32
  proof (rule word_unat_eq_iff [THEN iffD2])
    have "unat (y + 48) = unat y + 48" using that by (simp add: unat_word_ariths)
    then show "unat (ucast (y + 48) :: byte) = unat (dchar (unat y))" using that by (simp add: dchar unsigned_ucast_eq take_bit_eq_mod)
  qed
qed

lemma dec_text_digit: "0 < n \<Longrightarrow> n < 10 \<Longrightarrow> dec_text n = [dchar n]"
  by (simp add: dec_text_step)

lemma digits_loop_eq: "digits_loop x a = dec_text (unat x) @ a"
proof (induction x a rule: digits_loop.induct)
  case (1 x a)
  show ?case
  proof (cases "10 \<le> x")
    case True
    then show ?thesis using 1 dec_text_digit_pair [of "unat x"] by (simp add: digits_loop.simps [of x a] word_le_nat_alt unat_div unat_mod)
  next
    case False
    then have "unat x < 10" by (simp add: word_le_nat_alt)
    then show ?thesis using False
      by (cases "x = 0") (simp_all add: digits_loop.simps [of x a] digits_loop.simps [of 0 a] dec_text_step(2) dec_text_digit unat_gt_0 ucast_digit)
  qed
qed

lemma u32_text_loop_eq: "u32_text_loop x a = dec_text (unat x) @ a"
proof (induction x a rule: u32_text_loop.induct)
  case (1 x a)
  show ?case
  proof (cases "10 \<le> x")
    case True
    then show ?thesis using 1 dec_text_digit_pair [of "unat x"] by (simp add: u32_text_loop.simps [of x a] word_le_nat_alt unat_div unat_mod)
  next
    case False
    then have "unat x < 10" by (simp add: word_le_nat_alt)
    then show ?thesis using False
      by (cases "x = 0") (simp_all add: u32_text_loop.simps [of x a] u32_text_loop.simps [of 0 a] dec_text_step(2) dec_text_digit unat_gt_0 ucast_digit)
  qed
qed

text \<open>Eight digits at once.\<close>

lemma dec_text_eight:
  assumes "10 ^ 8 \<le> n"
  defines "r \<equiv> n mod 10 ^ 8"
  shows "dec_text n = dec_text (n div 10 ^ 8) @ digit_pair (r div 10000 div 100) @ digit_pair (r div 10000 mod 100) @
    digit_pair (r mod 10000 div 100) @ digit_pair (r mod 10000 mod 100)"
proof -
  define q where "q = n div 10 ^ 8"
  have "0 < q" using assms(1) by (simp add: q_def div_greater_zero_iff)
  have step: "0 < m \<Longrightarrow> k < 100 \<Longrightarrow> dec_text (m * 100 + k) = dec_text m @ digit_pair k" for m k
    using dec_text_digit_pair [of "m * 100 + k"] by simp
  define a b c d where "a = r div 1000000" and "b = r div 10000 mod 100" and "c = r div 100 mod 100" and "d = r mod 100"
  have lt: "a < 100" "b < 100" "c < 100" "d < 100" by (auto simp: a_def b_def c_def d_def r_def less_mult_imp_div_less)
  have n: "n = (((q * 100 + a) * 100 + b) * 100 + c) * 100 + d"
  proof -
    have r: "r = r div 100 * 100 + d" "r div 100 = r div 10000 * 100 + c" "r div 10000 = a * 100 + b"
      using div_mult_mod_eq [of "r div 100" 100] div_mult_mod_eq [of "r div 10000" 100]
      by (simp_all add: a_def b_def c_def d_def div_mult2_eq [symmetric])
    have "n = q * 10 ^ 8 + r" by (simp add: q_def r_def)
    moreover have "n = q * 10 ^ 8 + r \<Longrightarrow> r = x * 100 + d \<Longrightarrow> x = y * 100 + c \<Longrightarrow> y = a * 100 + b \<Longrightarrow> ?thesis" for x y by simp
    ultimately show ?thesis using r by blast
  qed
  have "dec_text n = dec_text (((q * 100 + a) * 100 + b) * 100 + c) @ digit_pair d"
    unfolding n using lt \<open>0 < q\<close> by (intro step) simp_all
  also have "dec_text (((q * 100 + a) * 100 + b) * 100 + c) = dec_text ((q * 100 + a) * 100 + b) @ digit_pair c"
    using lt \<open>0 < q\<close> by (intro step) simp_all
  also have "dec_text ((q * 100 + a) * 100 + b) = dec_text (q * 100 + a) @ digit_pair b"
    using lt \<open>0 < q\<close> by (intro step) simp_all
  also have "dec_text (q * 100 + a) = dec_text q @ digit_pair a"
    using lt \<open>0 < q\<close> by (intro step) simp_all
  also have "a = r div 10000 div 100" by (simp add: a_def div_mult2_eq [symmetric])
  also have "c = r mod 10000 div 100" using mod_mult2_eq [of r 100 100] by (simp add: c_def)
  also have "d = r mod 10000 mod 100" by (simp add: d_def mod_mod_cancel)
  finally show ?thesis by (simp add: b_def q_def)
qed

lemma u64_text_loop_eq:
  "u64_text_loop v a = (v', a') \<Longrightarrow> dec_text (unat v') @ a' = dec_text (unat v) @ a \<and> unat v' < 2 ^ 32"
proof (induction v a rule: u64_text_loop.induct)
  case (1 v a)
  show ?case
  proof (cases "drop_bit 32 v = 0")
    case True
    then have "unat v div 2 ^ 32 = 0" using unat_drop [of 32 v] by simp
    then show ?thesis using 1(2) True by (simp add: u64_text_loop.simps [of v a] div_eq_0_iff)
  next
    case False
    define r where "r = unat v mod 100000000"
    have "unat v div 2 ^ 32 \<noteq> 0" using False unat_drop [of 32 v] by (simp add: word_unat_eq_iff)
    then have big: "10 ^ 8 \<le> unat v" by (simp add: div_eq_0_iff)
    have r: "unat (ucast (v mod 100000000) :: u32) = r"
      by (simp add: unsigned_ucast_eq take_bit_eq_mod unat_mod r_def)
    show ?thesis using 1(1) [OF False refl refl refl refl refl refl refl refl] 1(2) False dec_text_eight [OF big]
      by (simp add: u64_text_loop.simps [of v a] Let_def unat_div unat_mod r r_def [symmetric])
  qed
qed

lemma sqlite3UInt64ToText_eq: "sqlite3UInt64ToText v = dec_text (unat v)"
proof -
  obtain v' a' where l: "u64_text_loop v [] = (v', a')" by (cases "u64_text_loop v []")
  then have "dec_text (unat v') @ a' = dec_text (unat v)" "unat v' < 2 ^ 32" using u64_text_loop_eq by (auto dest: u64_text_loop_eq)
  then show ?thesis by (simp add: sqlite3UInt64ToText_def l u32_text_loop_eq unsigned_ucast_eq take_bit_eq_mod)
qed

text \<open>The text of a signed integer.\<close>

definition int_text :: "int \<Rightarrow> bytes" where
  "int_text v = (if v = 0 then [48] else if v < 0 then 45 # dec_text (nat (- v)) else dec_text (nat v))"

lemma Int64ToText_eq:
  assumes "i64 v"
  shows "sqlite3Int64ToText b v = int_text v"
proof -
  have m: "unat (word_of_int w :: u64) = nat w" if "0 \<le> w" "w < 2 ^ 64" for w
    using that by (simp add: unat_eq_nat_uint uint_word_of_int)
  have "v < 0 \<Longrightarrow> v \<noteq> SMALLEST_INT64 \<Longrightarrow> unat (word_of_int (- v) :: u64) = nat (- v)" "v = SMALLEST_INT64 \<Longrightarrow> unat (push_bit 63 1 :: u64) = nat (- v)"
    "0 < v \<Longrightarrow> unat (word_of_int v :: u64) = nat v"
    using assms by (auto simp: i64_def SMALLEST_INT64_def LARGEST_INT64_def m simp del: of_int_minus)
  then show ?thesis
    by (auto simp: sqlite3Int64ToText_def int_text_def digits_loop_eq sqlite3UInt64ToText_eq Let_def)
qed


section \<open>Parsing\<close>

text \<open>Eighteen digits compared one by one, then the last one.\<close>

lemma compare_fold:
  "length ds = length es \<Longrightarrow> list_all sqlite3Isdigit ds \<Longrightarrow> list_all sqlite3Isdigit es \<Longrightarrow>
   sgn (fold (\<lambda>(x, y) c. if c = 0 then (uint x - uint y) * 10 else c) (zip ds es) (0 :: int)) = sgn (int (dval ds) - int (dval es))"
proof (induction ds es rule: list_induct2)
  case (Cons c ds e es)
  have keep: "c \<noteq> 0 \<Longrightarrow> fold (\<lambda>(x, y) c. if c = 0 then (uint x - uint y) * 10 else c) zs c = c" for zs :: "(byte \<times> byte) list" and c :: int
    by (induction zs) auto
  have b: "dval ds < 10 ^ length ds" "dval es < 10 ^ length ds" using Cons dval_less [of ds] dval_less [of es] by auto
  have d: "48 \<le> unat c" "48 \<le> unat e" using Cons by (auto simp: digit_range)
  consider "unat c = unat e" | "unat c < unat e" | "unat e < unat c" by linarith
  then show ?case
  proof cases
    case 1
    then have "c = e" by (simp add: word_unat_eq_iff)
    then show ?thesis using Cons by simp
  next
    case 2
    then have "Suc (unat c - 48) * 10 ^ length ds \<le> (unat e - 48) * 10 ^ length ds" using d by (intro mult_le_mono1) simp
    then have "dval (c # ds) < dval (e # es)" using b Cons(1) by simp
    moreover have "uint c < uint e" using 2 by (simp add: word_less_nat_alt [symmetric] word_less_def)
    ultimately show ?thesis using keep [of "(uint c - uint e) * 10"] by (simp add: sgn_if del: dval_simps)
  next
    case 3
    then have "Suc (unat e - 48) * 10 ^ length ds \<le> (unat c - 48) * 10 ^ length ds" using d by (intro mult_le_mono1) simp
    then have "dval (e # es) < dval (c # ds)" using b Cons(1) by simp
    moreover have "uint e < uint c" using 3 by (simp add: word_less_nat_alt [symmetric] word_less_def)
    ultimately show ?thesis using keep [of "(uint c - uint e) * 10"] by (simp add: sgn_if del: dval_simps)
  qed
qed simp

lemma pow63_digits: "list_all sqlite3Isdigit pow63" "length pow63 = 18" "dval pow63 = 922337203685477580"
  by (simp_all add: pow63_def str_def dval_def sqlite3Isdigit_def)

lemma compare2pow63_sgn:
  assumes "length ds = 19" "list_all sqlite3Isdigit ds"
  shows "sgn (compare2pow63 (ds @ rest)) = sgn (int (dval ds) - 2 ^ 63)"
proof -
  obtain es d where ds: "ds = es @ [d]" and len: "length es = 18" using assms(1) by (cases ds rule: rev_cases) auto
  let ?f = "\<lambda>(x, y) c. if c = 0 then (uint x - uint y) * 10 else c"
  define c where "c = fold ?f (zip es pow63) (0 :: int)"
  have "zip es pow63 = map (\<lambda>i. ((ds @ rest) ! i, pow63 ! i)) [0..<18]"
    by (intro nth_equalityI) (auto simp: len pow63_digits ds nth_append)
  moreover have "(ds @ rest) ! 18 = d" by (simp add: ds nth_append len)
  ultimately have cmp: "compare2pow63 (ds @ rest) = (if c = 0 then uint d - 56 else c)"
    by (simp only: c_def compare2pow63_def fold_map o_def Let_def prod.case)
  have s: "sgn c = sgn (int (dval es) - 922337203685477580)"
    unfolding c_def using assms by (subst compare_fold) (auto simp: len pow63_digits ds)
  have dd: "dval ds = dval es * 10 + (unat d - 48)" "48 \<le> unat d" "unat d \<le> 57"
    using assms(2) by (simp_all add: ds dval_snoc digit_range)
  have u: "int (unat d) = uint d" by simp
  then have "int (unat d - 48) = uint d - 48" using dd(2) by (simp add: of_nat_diff)
  then have di: "int (dval ds) = int (dval es) * 10 + (uint d - 48)" "48 \<le> uint d" "uint d \<le> 57" using dd u by linarith+
  show ?thesis
  proof (cases "c = 0")
    case True
    then have "int (dval es) = 922337203685477580" using s by (simp add: sgn_if split: if_splits)
    then show ?thesis using True cmp di by (auto simp: sgn_if)
  next
    case False
    then show ?thesis using cmp di s by (auto simp: sgn_if split: if_splits)
  qed
qed

text \<open>The accumulator does not wrap on 19 digits.\<close>

lemma atoi_acc:
  "list_all sqlite3Isdigit ds \<Longrightarrow> length ds \<le> 19 \<Longrightarrow> unat (foldl (\<lambda>u c. u * 10 + ucast (c - 48)) (0 :: u64) ds) = dval ds"
proof (induction ds rule: rev_induct)
  case (snoc c ds)
  have c: "unat (ucast (c - 48) :: u64) = unat c - 48"
    using snoc(2) by (auto simp: digit_range unsigned_ucast_eq take_bit_eq_mod unat_sub word_le_nat_alt)
  have "dval (ds @ [c]) < 10 ^ length (ds @ [c])" using snoc(2) by (rule dval_less)
  also have "\<dots> \<le> 10 ^ 19" using snoc(3) by (intro power_increasing) auto
  finally have "dval ds * 10 + (unat c - 48) < 10 ^ 19" by (simp only: dval_snoc)
  then show ?case using snoc by (simp add: dval_snoc unat_word_ariths c)
qed simp

lemma dval_zeros: "dval (dropWhile (\<lambda>c. c = 48) ds) = dval ds"
  by (induction ds) (auto simp del: dval_simps(3) simp: dval_simps)

text \<open>What a decimal literal denotes: the value if it fits, otherwise the nearest 64-bit integer.\<close>

definition atoi_result :: "bool \<Rightarrow> nat \<Rightarrow> int \<Rightarrow> int \<times> int" where
  "atoi_result neg n rc =
     (let v = (if neg then - int n else int n)
      in if i64 v then (rc, v)
         else (if n = 2 ^ 63 then 3 else 2, if neg then SMALLEST_INT64 else LARGEST_INT64))"

lemma atoi_digits:
  fixes rc :: int
  assumes ds: "list_all sqlite3Isdigit ds" and hd: "ds = [] \<or> hd ds \<noteq> 48"
  defines "u \<equiv> foldl (\<lambda>u c. u * 10 + ucast (c - 48)) (0 :: u64) ds"
  shows "(if length ds < 19 then (rc, atoi_value neg u)
         else
           let j = (if length ds > 19 then 1 else compare2pow63 (ds @ rest))
           in if j < 0 then (rc, atoi_value neg u)
              else (if j > 0 then 2 else if neg then rc else 3, if neg then SMALLEST_INT64 else LARGEST_INT64))
       = atoi_result neg (dval ds) rc"
proof -
  have small: "atoi_value neg u = (if neg then - int (dval ds) else int (dval ds))" "i64 (if neg then - int (dval ds) else int (dval ds))"
    if "length ds \<le> 19" "int (dval ds) < 2 ^ 63"
  proof -
    have "int (unat u) = int (dval ds)" using atoi_acc [OF ds that(1)] by (simp only: u_def)
    then have "uint u = int (dval ds)" by simp
    then show "atoi_value neg u = (if neg then - int (dval ds) else int (dval ds))" "i64 (if neg then - int (dval ds) else int (dval ds))"
      using that(2) by (auto simp: atoi_value_def i64_def LARGEST_INT64_def SMALLEST_INT64_def)
  qed
  consider "length ds < 19" | "length ds = 19" | "length ds > 19" by linarith
  then show ?thesis
  proof cases
    case 1
    have "dval ds < 10 ^ length ds" using ds by (rule dval_less)
    also have "\<dots> \<le> 10 ^ 18" using 1 by (intro power_increasing) auto
    finally have "int (dval ds) < 2 ^ 63" by simp
    then show ?thesis using 1 small by (simp add: atoi_result_def Let_def)
  next
    case 2
    note c = compare2pow63_sgn [OF 2 ds, of rest]
    consider "int (dval ds) < 2 ^ 63" "compare2pow63 (ds @ rest) < 0" | "dval ds = 2 ^ 63" "compare2pow63 (ds @ rest) = 0"
      | "int (dval ds) > 2 ^ 63" "compare2pow63 (ds @ rest) > 0"
      using c by (auto simp: sgn_if split: if_splits)
    then show ?thesis
      by cases (use 2 small in \<open>auto simp: atoi_result_def Let_def i64_def LARGEST_INT64_def SMALLEST_INT64_def\<close>)
  next
    case 3
    obtain c cs where cs: "ds = c # cs" using 3 by (cases ds) auto
    have "1 \<le> unat c - 48" using ds hd by (auto simp: cs digit_range word_unat_eq_iff)
    then have "1 * 10 ^ length cs \<le> dval ds" by (simp add: cs trans_le_add1)
    moreover have "(10 :: nat) ^ 19 \<le> 10 ^ length cs" using 3 by (intro power_increasing) (auto simp: cs)
    ultimately have "(10 :: nat) ^ 19 \<le> dval ds" by simp
    then show ?thesis using 3 by (auto simp: atoi_result_def i64_def LARGEST_INT64_def SMALLEST_INT64_def)
  qed
qed

lemma takeWhile_digits:
  assumes "list_all sqlite3Isdigit ds" "rest = [] \<or> \<not> sqlite3Isdigit (hd rest)"
  shows "dropWhile (\<lambda>c. c = 48) (ds @ rest) = dropWhile (\<lambda>c. c = 48) ds @ rest"
    and "takeWhile sqlite3Isdigit (dropWhile (\<lambda>c. c = 48) ds @ rest) = dropWhile (\<lambda>c. c = 48) ds"
proof -
  have r: "dropWhile (\<lambda>c. c = 48) rest = rest" using assms(2) by (cases rest) (auto simp: digit_range)
  show "dropWhile (\<lambda>c. c = 48) (ds @ rest) = dropWhile (\<lambda>c. c = 48) ds @ rest"
    by (induction ds) (auto simp: r)
  have "list_all sqlite3Isdigit (dropWhile (\<lambda>c. c = 48) ds)" using assms(1) by (auto simp: list_all_iff dest: set_dropWhileD)
  moreover have "takeWhile sqlite3Isdigit rest = []" using assms(2) by (cases rest) auto
  ultimately show "takeWhile sqlite3Isdigit (dropWhile (\<lambda>c. c = 48) ds @ rest) = dropWhile (\<lambda>c. c = 48) ds"
    by (simp add: takeWhile_append2 list_all_iff)
qed

definition is_sign :: "bytes \<Rightarrow> bool" where
  "is_sign sg \<longleftrightarrow> sg = [] \<or> sg = [43] \<or> sg = [45]"

lemma Atoi64_literal:
  assumes sp: "list_all sqlite3Isspace sp" and sg: "is_sign sg" and ds: "list_all sqlite3Isdigit ds" "ds \<noteq> []"
    and rest: "rest = [] \<or> \<not> sqlite3Isdigit (hd rest)"
  shows "sqlite3Atoi64 (sp @ sg @ ds @ rest) SQLITE_UTF8
    = atoi_result (sg = [45]) (dval ds) (if list_all sqlite3Isspace rest then 0 else 1)"
proof -
  define es where "es = dropWhile (\<lambda>c. c = 48) ds"
  have d0: "sqlite3Isdigit (hd ds)" using ds by (cases ds) auto
  have es: "list_all sqlite3Isdigit es" "es = [] \<or> hd es \<noteq> 48" "dval es = dval ds"
    using ds(1) hd_dropWhile [of "\<lambda>c. c = 48" ds] by (auto simp: es_def dval_zeros list_all_iff dest: set_dropWhileD)
  have skip: "dropWhile sqlite3Isspace (sp @ sg @ ds @ rest) = sg @ ds @ rest"
    using sp sg d0 ds(2) by (cases ds) (auto simp: is_sign_def sqlite3Isspace_def list_all_iff digit_range dropWhile_append2 word_le_nat_alt word_unat_eq_iff)
  have sgn: "atoi_sign (sg @ ds @ rest) = (sg = [45], ds @ rest)"
    using sg d0 ds(2) by (cases ds) (auto simp: is_sign_def atoi_sign_def digit_range)
  have rc: "(if es = [] \<and> ds @ rest = es @ rest then - 1 else if False then 1 else if \<not> list_all sqlite3Isspace rest then 1 else 0)
      = (if list_all sqlite3Isspace rest then 0 else 1 :: int)" using ds(2) by auto
  have dr: "drop (length es) (es @ rest) = rest" by simp
  show ?thesis
    by (simp only: sqlite3Atoi64_def atoi_text_def simp_thms(6) if_True Let_def prod.case skip sgn takeWhile_digits [OF ds(1) rest, folded es_def] dr rc
        atoi_digits [OF es(1,2), unfolded Let_def] es(3))
qed

lemma utf16_widen:
  "utf16_units True (concat (map (\<lambda>c. [0, c]) z)) = (z, False)" "utf16_units False (concat (map (\<lambda>c. [c, 0]) z)) = (z, False)"
  by (induction z) auto

lemma uint32_loop_spec:
  "unat v < 2 ^ 32 \<Longrightarrow> uint32_loop v z =
     (let ds = takeWhile sqlite3Isdigit z; n = unat v * 10 ^ length ds + dval ds
      in if n < 2 ^ 32 then Some (of_nat n, drop (length ds) z) else None)"
proof (induction v z rule: uint32_loop.induct)
  case (2 v c z)
  show ?case
  proof (cases "sqlite3Isdigit c")
    case True
    define w where "w = v * 10 + ucast c - 48"
    have "48 \<le> unat c" "unat c \<le> 57" using True by (simp_all add: digit_range)
    moreover have "unat (v * 10 + ucast c) = unat v * 10 + unat c"
      using 2(2) \<open>unat c \<le> 57\<close> by (simp add: unat_word_ariths unsigned_ucast_eq take_bit_eq_mod)
    ultimately have w: "unat w = unat v * 10 + (unat c - 48)" by (simp add: w_def unat_sub word_le_nat_alt)
    let ?ds = "takeWhile sqlite3Isdigit z"
    have n: "unat v * 10 ^ length (c # ?ds) + dval (c # ?ds) = unat w * 10 ^ length ?ds + dval ?ds"
      by (simp add: w add_mult_distrib)
    have tw: "takeWhile sqlite3Isdigit (c # z) = c # ?ds" using True by simp
    have "uint32_loop v (c # z) = (if unat w * 10 ^ length ?ds + dval ?ds < 2 ^ 32
        then Some (of_nat (unat w * 10 ^ length ?ds + dval ?ds), drop (length (c # ?ds)) (c # z)) else None)"
    proof (cases "w > 4294967295")
      case T: True
      then have "2 ^ 32 \<le> unat w" by (simp add: word_less_nat_alt)
      moreover have "unat w * 1 \<le> unat w * 10 ^ length ?ds" by (intro mult_le_mono2) simp
      ultimately have "\<not> unat w * 10 ^ length ?ds + dval ?ds < 2 ^ 32" by linarith
      then show ?thesis using True T by (simp add: Let_def w_def [symmetric])
    next
      case False
      then have "unat w < 2 ^ 32" by (simp add: word_less_nat_alt)
      then show ?thesis using 2(1) [OF True w_def False] True False by (simp add: Let_def w_def [symmetric])
    qed
    then show ?thesis unfolding Let_def tw n .
  qed (use 2(2) in simp)
qed (simp add: Let_def)

lemma HexToInt_hex_digit: "n < 16 \<Longrightarrow> sqlite3HexToInt (hex_digit n) = n"
  by (drule nibble_cases, elim insertE emptyE; simp add: hex_digit_def sqlite3HexToInt_def)

lemma hex_to_blob_hex_string: "hex_to_blob (hex_string b) = b"
  by (induction b) (simp_all add: hex_string_def hex_pair_def HexToInt_hex_digit)

lemma dec_text_literal: "0 < n \<Longrightarrow> is_sign sg \<Longrightarrow> sqlite3Atoi64 (sg @ dec_text n) SQLITE_UTF8 = atoi_result (sg = [45]) n 0"
  using Atoi64_literal [of "[]" sg "dec_text n" "[]"] dec_text_props [of n] by simp

lemma int_text_read:
  assumes "i64 v"
  shows "sqlite3Atoi64 (int_text v) SQLITE_UTF8 = (0, v)" and "length (int_text v) \<le> 20"
proof -
  have b: "v < 0 \<Longrightarrow> nat (- v) < 10 ^ 19" "v > 0 \<Longrightarrow> nat v < 10 ^ 19" using assms by (auto simp: i64_def LARGEST_INT64_def SMALLEST_INT64_def)
  consider "v = 0" | "v < 0" | "v > 0" by linarith
  note C = this
  from C show "sqlite3Atoi64 (int_text v) SQLITE_UTF8 = (0, v)"
  proof cases
    case 1
    then show ?thesis using Atoi64_literal [of "[]" "[]" "[48]" "[]"] assms by (simp add: int_text_def is_sign_def digit_range atoi_result_def)
  next
    case 2
    then show ?thesis using dec_text_literal [of "nat (- v)" "[45]"] assms by (simp add: int_text_def is_sign_def atoi_result_def)
  next
    case 3
    then show ?thesis using dec_text_literal [of "nat v" "[]"] assms by (simp add: int_text_def is_sign_def atoi_result_def)
  qed
  from C show "length (int_text v) \<le> 20"
    using dec_text_length [of "nat (- v)" 19] dec_text_length [of "nat v" 19] b by cases (auto simp: int_text_def)
qed


section \<open>Properties\<close>

text \<open>
  C29: Printing a 64-bit integer and reading the text back gives the integer, with the return
  code for a clean conversion; the text has at most 20 characters, both builds of the printer
  (with and without 64-bit division) write the same text, and the text is also read from its
  UTF-16 form in either byte order.
\<close>

theorem int64_text_roundtrip:
  assumes "i64 v"
  shows "sqlite3Atoi64 (sqlite3Int64ToText avoid_divide v) SQLITE_UTF8 = (0, v)
    \<and> length (sqlite3Int64ToText avoid_divide v) \<le> 20
    \<and> sqlite3Int64ToText avoid_divide v = sqlite3Int64ToText (\<not> avoid_divide) v
    \<and> sqlite3Atoi64 (concat (map (\<lambda>c. [c, 0]) (sqlite3Int64ToText avoid_divide v))) SQLITE_UTF16LE = (0, v)
    \<and> sqlite3Atoi64 (concat (map (\<lambda>c. [0, c]) (sqlite3Int64ToText avoid_divide v))) SQLITE_UTF16BE = (0, v)"
proof -
  have "sqlite3Atoi64 (concat (map (\<lambda>c. [c, 0]) z)) SQLITE_UTF16LE = sqlite3Atoi64 z SQLITE_UTF8"
    "sqlite3Atoi64 (concat (map (\<lambda>c. [0, c]) z)) SQLITE_UTF16BE = sqlite3Atoi64 z SQLITE_UTF8" for z
    by (simp_all add: sqlite3Atoi64_def atoi_text_def utf16_widen SQLITE_UTF8_def SQLITE_UTF16LE_def SQLITE_UTF16BE_def)
  then show ?thesis using int_text_read [OF assms] by (simp add: Int64ToText_eq [OF assms])
qed

theorem int64_text_roundtrip_witness:
  "i64 SMALLEST_INT64 \<and> sqlite3Atoi64 (sqlite3Int64ToText True SMALLEST_INT64) SQLITE_UTF8 = (0, - 9223372036854775808)"
proof -
  have s: "i64 SMALLEST_INT64" by (simp add: i64_def SMALLEST_INT64_def LARGEST_INT64_def)
  show ?thesis using s int64_text_roundtrip [OF s, of True, THEN conjunct1] by (simp add: SMALLEST_INT64_def LARGEST_INT64_def)
qed

text \<open>
  C30: Reading a decimal literal (spaces, an optional sign, digits, then anything that is not a
  digit) gives its exact value whenever that fits in 64 bits, with code 0, or 1 if something
  other than spaces follows; 9223372036854775808 without a minus sign gives code 3 and any
  other literal out of range code 2, both with the nearest 64-bit integer. Leading zeros and
  literals of any length are covered.
\<close>

theorem Atoi64_exact_or_clamped:
  assumes "list_all sqlite3Isspace sp" and "sg \<in> {[], [43], [45]}" and "list_all sqlite3Isdigit ds" and "ds \<noteq> []"
    and "rest = [] \<or> \<not> sqlite3Isdigit (hd rest)"
    and "v = (if sg = [45] then - int (dval ds) else int (dval ds))"
  shows "sqlite3Atoi64 (sp @ sg @ ds @ rest) SQLITE_UTF8 =
    (if SMALLEST_INT64 \<le> v \<and> v \<le> LARGEST_INT64 then (if list_all sqlite3Isspace rest then 0 else 1, v)
     else (if v = 9223372036854775808 then 3 else 2, max SMALLEST_INT64 (min LARGEST_INT64 v)))"
proof -
  have "is_sign sg" using assms(2) by (auto simp: is_sign_def)
  then show ?thesis unfolding Atoi64_literal [OF assms(1) \<open>is_sign sg\<close> assms(3,4,5)] assms(6)
    by (auto simp: atoi_result_def Let_def i64_def SMALLEST_INT64_def LARGEST_INT64_def)
qed

theorem Atoi64_exact_or_clamped_witness:
  "sqlite3Atoi64 ([32] @ [45] @ [48, 57, 57, 57, 57, 57, 57, 57, 57, 57, 57, 57, 57, 57, 57, 57, 57, 57, 57, 57] @ [120]) SQLITE_UTF8 = (2, SMALLEST_INT64)"
  using Atoi64_exact_or_clamped [of "[32]" "[45]" "[48, 57, 57, 57, 57, 57, 57, 57, 57, 57, 57, 57, 57, 57, 57, 57, 57, 57, 57, 57]" "[120]"]
  by (simp add: sqlite3Isspace_def sqlite3Isdigit_def SMALLEST_INT64_def LARGEST_INT64_def del: append.append_Cons append.append_Nil)

text \<open>
  C31: An unsigned 32-bit literal is accepted exactly when it is a non-empty string of digits
  whose value is below 2^32, and then yields that value; and decoding the hexadecimal text of a
  blob literal gives the bytes back.
\<close>

theorem UInt32_and_blob_literals:
  "sqlite3GetUInt32 z = (if z \<noteq> [] \<and> list_all sqlite3Isdigit z \<and> dval z < 2 ^ 32 then (1, of_nat (dval z)) else (0, 0))
   \<and> sqlite3HexToBlob True (hex_string b @ [39]) (2 * length b) = Some b"
proof
  let ?ds = "takeWhile sqlite3Isdigit z"
  have l: "uint32_loop 0 z = (if dval ?ds < 2 ^ 32 then Some (of_nat (dval ?ds), drop (length ?ds) z) else None)"
    using uint32_loop_spec [of 0 z] by (simp add: Let_def)
  show "sqlite3GetUInt32 z = (if z \<noteq> [] \<and> list_all sqlite3Isdigit z \<and> dval z < 2 ^ 32 then (1, of_nat (dval z)) else (0, 0))"
  proof (cases "list_all sqlite3Isdigit z")
    case True
    then have "?ds = z" by (simp add: list_all_iff)
    then have "uint32_loop 0 z = (if dval z < 2 ^ 32 then Some (of_nat (dval z), []) else None)" using l by (simp only: drop_all order_refl)
    moreover have "(ucast (of_nat n :: u64) :: u32) = of_nat n" for n
      by (rule word_unat_eq_iff [THEN iffD2]) (simp add: unsigned_ucast_eq take_bit_eq_mod unat_of_nat mod_mod_cancel)
    ultimately show ?thesis using True by (auto simp: sqlite3GetUInt32_def)
  next
    case False
    then have "length ?ds < length z" using takeWhile_eq_all_conv [of sqlite3Isdigit z] length_takeWhile_le [of sqlite3Isdigit z]
      by (metis list_all_iff le_neq_implies_less takeWhile_eq_take take_all_iff order_refl)
    then show ?thesis using l False by (auto simp: sqlite3GetUInt32_def)
  qed
qed (simp add: sqlite3HexToBlob_def hex_to_blob_hex_string)

end
