(* ===== verification/SC_Bitvec.thy ===== *)
theory SC_Bitvec
  imports SC_Prelude "HOL-Library.Monad_Syntax"
begin

unbundle bit_operations_syntax

text \<open>
  The sparse bitmap of src/src/bitvec.c: a straight bitmap for small sizes, a hash table with
  linear probing while few bits are set, and an array of smaller bitmaps otherwise.

  Sizes and indices are natural numbers below 2^32, with the wrap-around of \<open>i--\<close> at zero written
  out. The union is a value of the view that was written last; reading it through another view, or
  an array out of range, is \<open>None\<close>, and so is a probe loop that never ends. The constants are those
  of a platform with pointers of eight bytes.
\<close>

section \<open>Definitions\<close>

definition BITVEC_SZ :: nat where "BITVEC_SZ = 512"
definition BITVEC_USIZE :: nat where "BITVEC_USIZE = (BITVEC_SZ - 3 * 4) div 8 * 8"
definition BITVEC_SZELEM :: nat where "BITVEC_SZELEM = 8"
definition BITVEC_NELEM :: nat where "BITVEC_NELEM = BITVEC_USIZE div 1"
definition BITVEC_NBIT :: nat where "BITVEC_NBIT = BITVEC_NELEM * BITVEC_SZELEM"
definition BITVEC_NINT :: nat where "BITVEC_NINT = BITVEC_USIZE div 4"
definition BITVEC_MXHASH :: nat where "BITVEC_MXHASH = BITVEC_NINT div 2"
definition BITVEC_HASH :: "nat \<Rightarrow> nat" where "BITVEC_HASH x = x * 1 mod BITVEC_NINT"
definition BITVEC_NPTR :: nat where "BITVEC_NPTR = BITVEC_USIZE div 8"

datatype 'p bitvec_u = aBitmap "byte list" | aHash "nat list" | apSub "'p option list"

datatype Bitvec = Bitvec (iSize: nat) (nSet: nat) (iDivisor: nat) (p_u: "Bitvec bitvec_u")

text \<open>
  Memory: the outcomes of the allocations to come, all of them successful once the list is used up.
\<close>

type_synonym mallocs = "bool list"

definition next_malloc :: "mallocs \<Rightarrow> bool \<times> mallocs" where
  "next_malloc ms = (case ms of [] \<Rightarrow> (True, []) | b # ms \<Rightarrow> (b, ms))"

text \<open>The zeroed union of a new object is read as a bitmap or as a hash table, depending on the size.\<close>

definition sqlite3BitvecCreate :: "nat \<Rightarrow> mallocs \<Rightarrow> Bitvec option \<times> mallocs" where
  "sqlite3BitvecCreate sz ms =
     (let (ok, ms) = next_malloc ms
      in (if ok then Some (Bitvec sz 0 0 (if sz \<le> BITVEC_NBIT then aBitmap (replicate BITVEC_NELEM 0) else aHash (replicate BITVEC_NINT 0)))
          else None, ms))"

definition dec32 :: "nat \<Rightarrow> nat" where
  "dec32 i = (i + 4294967295) mod 4294967296"

partial_function (option) test_probe :: "nat list \<Rightarrow> nat \<Rightarrow> nat \<Rightarrow> bool option" where
  "test_probe a i h =
     (if h < length a then
        if a ! h = 0 then Some False
        else if a ! h = i then Some True
        else test_probe a i ((h + 1) mod BITVEC_NINT)
      else None)"

declare test_probe.simps [code]

definition bitmap_test :: "byte list \<Rightarrow> nat \<Rightarrow> bool option" where
  "bitmap_test b i =
     (if i div BITVEC_SZELEM < length b
      then Some (b ! (i div BITVEC_SZELEM) AND push_bit (i mod BITVEC_SZELEM) 1 \<noteq> 0) else None)"

text \<open>A sub-bitmap is smaller than the bitmap that holds it, so the walks end.\<close>

lemma size_sub:
  assumes "k < length l" "l ! k = Some c"
  shows "size c < size (Bitvec s n d (apSub l))"
proof -
  have "Some c \<in> set l" using assms nth_mem by metis
  then have "size_option size (Some c) \<le> size_list (size_option size) l" by (rule size_list_estimation') simp
  then show ?thesis by simp
qed

function test_walk :: "Bitvec \<Rightarrow> nat \<Rightarrow> bool option" where
  "test_walk (Bitvec s n d u) i =
     (if d \<noteq> 0 then
        case u of
          apSub l \<Rightarrow>
            (if i div d < length l then case l ! (i div d) of None \<Rightarrow> Some False | Some c \<Rightarrow> test_walk c (i mod d)
             else None)
        | _ \<Rightarrow> None
      else if s \<le> BITVEC_NBIT then case u of aBitmap b \<Rightarrow> bitmap_test b i | _ \<Rightarrow> None
      else case u of aHash a \<Rightarrow> test_probe a (i + 1) (BITVEC_HASH i) | _ \<Rightarrow> None)"
  by pat_completeness auto
termination
  by (relation "measure (\<lambda>(p, i). size p)") (auto dest: size_sub)

declare test_walk.simps [simp del]

definition sqlite3BitvecTestNotNull :: "Bitvec \<Rightarrow> nat \<Rightarrow> bool option" where
  "sqlite3BitvecTestNotNull p i = (let i = dec32 i in if i \<ge> iSize p then Some False else test_walk p i)"

definition sqlite3BitvecTest :: "Bitvec option \<Rightarrow> nat \<Rightarrow> bool option" where
  "sqlite3BitvecTest p i = (case p of None \<Rightarrow> Some False | Some p \<Rightarrow> sqlite3BitvecTestNotNull p i)"

definition next_slot :: "nat \<Rightarrow> nat" where
  "next_slot h = (let h = h + 1 in if h \<ge> BITVEC_NINT then 0 else h)"

text \<open>The search of \<open>sqlite3BitvecSet\<close>: whether \<open>i\<close> is there, and otherwise the first free slot.\<close>

partial_function (option) set_probe :: "nat list \<Rightarrow> nat \<Rightarrow> nat \<Rightarrow> (bool \<times> nat) option" where
  "set_probe a i h =
     (if a ! h = i then Some (True, h)
      else let h = next_slot h
           in if h < length a then if a ! h \<noteq> 0 then set_probe a i h else Some (False, h) else None)"

declare set_probe.simps [code]

definition sub_divisor :: "nat \<Rightarrow> nat" where
  "sub_divisor sz =
     (let d = sz div BITVEC_NPTR; d = (if sz mod BITVEC_NPTR \<noteq> 0 then d + 1 else d)
      in if d < BITVEC_NBIT then BITVEC_NBIT else d)"

type_synonym set_fun = "Bitvec \<Rightarrow> nat \<Rightarrow> mallocs \<Rightarrow> (int \<times> Bitvec \<times> mallocs) option"

fun set_values :: "set_fun \<Rightarrow> int \<Rightarrow> Bitvec \<Rightarrow> nat list \<Rightarrow> mallocs \<Rightarrow> (int \<times> Bitvec \<times> mallocs) option" where
  "set_values rec rc p [] ms = Some (rc, p, ms)"
| "set_values rec rc p (v # vs) ms =
     (if v \<noteq> 0 then do { (rc', p, ms) \<leftarrow> rec p (dec32 v) ms; set_values rec (rc OR rc') p vs ms }
      else set_values rec rc p vs ms)"

text \<open>
  From label \<open>bitvec_set_rehash\<close> on: either the value goes to slot \<open>h\<close>, or all values move to
  sub-bitmaps.
\<close>

definition set_rehash :: "set_fun \<Rightarrow> Bitvec \<Rightarrow> nat list \<Rightarrow> nat \<Rightarrow> nat \<Rightarrow> mallocs \<Rightarrow> (int \<times> Bitvec \<times> mallocs) option" where
  "set_rehash rec p a i h ms =
     (if nSet p \<ge> BITVEC_MXHASH then
        let (ok, ms) = next_malloc ms
        in if \<not> ok then Some (SQLITE_NOMEM, p, ms)
           else do {
             let p = Bitvec (iSize p) (nSet p) (sub_divisor (iSize p)) (apSub (replicate BITVEC_NPTR None));
             (rc, p, ms) \<leftarrow> rec p (dec32 i) ms;
             set_values rec rc p a ms
           }
      else Some (SQLITE_OK, Bitvec (iSize p) (nSet p + 1) (iDivisor p) (aHash (a[h := i])), ms))"

definition hash_set :: "set_fun \<Rightarrow> Bitvec \<Rightarrow> nat list \<Rightarrow> nat \<Rightarrow> mallocs \<Rightarrow> (int \<times> Bitvec \<times> mallocs) option" where
  "hash_set rec p a i ms =
     (let h = BITVEC_HASH i; i = i + 1
      in if h < length a then
           if a ! h = 0 then
             if nSet p < BITVEC_NINT - 1
             then Some (SQLITE_OK, Bitvec (iSize p) (nSet p + 1) (iDivisor p) (aHash (a[h := i])), ms)
             else set_rehash rec p a i h ms
           else do {
             (found, h) \<leftarrow> set_probe a i h;
             if found then Some (SQLITE_OK, p, ms) else set_rehash rec p a i h ms
           }
         else None)"

definition bitmap_set :: "byte list \<Rightarrow> nat \<Rightarrow> byte list option" where
  "bitmap_set b i =
     (let k = i div BITVEC_SZELEM
      in if k < length b then Some (b[k := b ! k OR push_bit (i mod BITVEC_SZELEM) 1]) else None)"

text \<open>
  One step of the descent, with the rest of the descent and the recursive calls of the rehash
  going through \<open>rec\<close>; the index counts from zero.
\<close>

definition set_step :: "set_fun \<Rightarrow> Bitvec \<Rightarrow> nat \<Rightarrow> mallocs \<Rightarrow> (int \<times> Bitvec \<times> mallocs) option" where
  "set_step rec p i ms =
     (if iSize p > BITVEC_NBIT \<and> iDivisor p \<noteq> 0 then
        case p_u p of
          apSub l \<Rightarrow>
            let bin = i div iDivisor p; i = i mod iDivisor p
            in if bin < length l then
                 let (sub, ms) = (case l ! bin of None \<Rightarrow> sqlite3BitvecCreate (iDivisor p) ms | Some c \<Rightarrow> (Some c, ms))
                 in case sub of
                      None \<Rightarrow> Some (SQLITE_NOMEM, p, ms)
                    | Some c \<Rightarrow> do {
                        (rc, c, ms) \<leftarrow> rec c i ms;
                        Some (rc, Bitvec (iSize p) (nSet p) (iDivisor p) (apSub (l[bin := Some c])), ms)
                      }
               else None
        | _ \<Rightarrow> None
      else if iSize p \<le> BITVEC_NBIT then
        case p_u p of
          aBitmap b \<Rightarrow> do {
            b \<leftarrow> bitmap_set b i;
            Some (SQLITE_OK, Bitvec (iSize p) (nSet p) (iDivisor p) (aBitmap b), ms)
          }
        | _ \<Rightarrow> None
      else case p_u p of aHash a \<Rightarrow> hash_set rec p a i ms | _ \<Rightarrow> None)"

primrec set_walk :: "nat \<Rightarrow> set_fun" where
  "set_walk 0 = (\<lambda>p i ms. None)"
| "set_walk (Suc k) = set_step (set_walk k)"

text \<open>Sizes shrink by \<open>BITVEC_NPTR\<close> from level to level, so nine steps reach the bottom from any 32-bit size.\<close>

definition BITVEC_DEPTH :: nat where "BITVEC_DEPTH = 9"

definition sqlite3BitvecSet :: "Bitvec option \<Rightarrow> nat \<Rightarrow> mallocs \<Rightarrow> (int \<times> Bitvec option \<times> mallocs) option" where
  "sqlite3BitvecSet p i ms =
     (case p of
        None \<Rightarrow> Some (SQLITE_OK, None, ms)
      | Some p \<Rightarrow> do { (rc, p, ms) \<leftarrow> set_walk BITVEC_DEPTH p (dec32 i) ms; Some (rc, Some p, ms) })"

partial_function (option) free_probe :: "nat list \<Rightarrow> nat \<Rightarrow> nat option" where
  "free_probe a h = (if h < length a then if a ! h \<noteq> 0 then free_probe a (next_slot h) else Some h else None)"

declare free_probe.simps [code]

text \<open>Rebuilding the table without the value \<open>i\<close>.\<close>

fun clear_values :: "nat \<Rightarrow> nat \<times> nat list \<Rightarrow> nat list \<Rightarrow> (nat \<times> nat list) option" where
  "clear_values i (n, a) [] = Some (n, a)"
| "clear_values i (n, a) (v # vs) =
     (if v \<noteq> 0 \<and> v \<noteq> i then do { h \<leftarrow> free_probe a (BITVEC_HASH (v - 1)); clear_values i (n + 1, a[h := v]) vs }
      else clear_values i (n, a) vs)"

definition bitmap_clear :: "byte list \<Rightarrow> nat \<Rightarrow> byte list option" where
  "bitmap_clear b i =
     (let k = i div BITVEC_SZELEM
      in if k < length b then Some (b[k := b ! k AND NOT (push_bit (i mod BITVEC_SZELEM) 1)]) else None)"

function clear_walk :: "Bitvec \<Rightarrow> nat \<Rightarrow> Bitvec option" where
  "clear_walk (Bitvec s n d u) i =
     (if d \<noteq> 0 then
        case u of
          apSub l \<Rightarrow>
            (if i div d < length l then
               case l ! (i div d) of
                 None \<Rightarrow> Some (Bitvec s n d u)
               | Some c \<Rightarrow> do { c \<leftarrow> clear_walk c (i mod d); Some (Bitvec s n d (apSub (l[i div d := Some c]))) }
             else None)
        | _ \<Rightarrow> None
      else if s \<le> BITVEC_NBIT then
        case u of aBitmap b \<Rightarrow> do { b \<leftarrow> bitmap_clear b i; Some (Bitvec s n d (aBitmap b)) } | _ \<Rightarrow> None
      else
        case u of
          aHash a \<Rightarrow> do { (n, a) \<leftarrow> clear_values (i + 1) (0, replicate BITVEC_NINT 0) a; Some (Bitvec s n d (aHash a)) }
        | _ \<Rightarrow> None)"
  by pat_completeness auto
termination
  by (relation "measure (\<lambda>(p, i). size p)") (auto dest: size_sub)

declare clear_walk.simps [simp del]

definition sqlite3BitvecClear :: "Bitvec option \<Rightarrow> nat \<Rightarrow> Bitvec option option" where
  "sqlite3BitvecClear p i =
     (case p of None \<Rightarrow> Some None | Some p \<Rightarrow> do { p \<leftarrow> clear_walk p (dec32 i); Some (Some p) })"

text \<open>The number of objects given back to the allocator.\<close>

function destroy_walk :: "Bitvec \<Rightarrow> nat" where
  "destroy_walk (Bitvec s n d u) =
     (if d \<noteq> 0 then
        case u of apSub l \<Rightarrow> sum_list (map (\<lambda>k. case l ! k of None \<Rightarrow> 0 | Some c \<Rightarrow> destroy_walk c) [0..<length l]) | _ \<Rightarrow> 0
      else 0) + 1"
  by pat_completeness auto
termination
  by (relation "measure size") (auto dest: size_sub)

declare destroy_walk.simps [simp del]

definition sqlite3BitvecDestroy :: "Bitvec option \<Rightarrow> nat" where
  "sqlite3BitvecDestroy p = (case p of None \<Rightarrow> 0 | Some p \<Rightarrow> destroy_walk p)"

definition sqlite3BitvecSize :: "Bitvec \<Rightarrow> nat" where
  "sqlite3BitvecSize p = iSize p"


section \<open>Linear probing\<close>

lemma bitvec_consts [simp]:
  "BITVEC_SZELEM = 8" "BITVEC_NELEM = 496" "BITVEC_NBIT = 3968" "BITVEC_NINT = 124" "BITVEC_MXHASH = 62" "BITVEC_NPTR = 62"
  by (simp_all add: BITVEC_SZELEM_def BITVEC_NELEM_def BITVEC_NBIT_def BITVEC_NINT_def BITVEC_MXHASH_def BITVEC_NPTR_def
      BITVEC_USIZE_def BITVEC_SZ_def)

lemma BITVEC_HASH_less [simp]: "BITVEC_HASH i < 124"
  by (simp add: BITVEC_HASH_def)

lemma next_slot: "h < 124 \<Longrightarrow> next_slot h = (h + 1) mod 124"
  by (auto simp: next_slot_def Let_def mod_Suc)

text \<open>The slots visited from \<open>h\<close>, and the number of steps to the first free one.\<close>

abbreviation slot :: "nat \<Rightarrow> nat \<Rightarrow> nat" where
  "slot h t \<equiv> (h + t) mod 124"

definition has_hole :: "nat list \<Rightarrow> bool" where
  "has_hole a \<longleftrightarrow> length a = 124 \<and> 0 \<in> set a"

definition run :: "nat list \<Rightarrow> nat \<Rightarrow> nat" where
  "run a h = (LEAST t. a ! slot h t = 0)"

lemma run:
  assumes "has_hole a"
  shows "a ! slot h (run a h) = 0" and "t < run a h \<Longrightarrow> a ! slot h t \<noteq> 0"
proof -
  obtain j where j: "j < 124" "a ! j = 0" using assms by (auto simp: has_hole_def in_set_conv_nth)
  have "124 * q + r = h \<Longrightarrow> r < 124 \<Longrightarrow> h + (j + (124 - r)) = j + 124 * (q + 1)" for q r by simp
  then have "h + (j + (124 - h mod 124)) = j + 124 * (h div 124 + 1)" by simp
  then have "slot h (j + (124 - h mod 124)) = j" using j(1) by (metis mod_less mod_mult_self2)
  then have "a ! slot h (j + (124 - h mod 124)) = 0" using j by simp
  then show "a ! slot h (run a h) = 0" unfolding run_def by (rule LeastI)
  show "t < run a h \<Longrightarrow> a ! slot h t \<noteq> 0" unfolding run_def by (rule not_less_Least)
qed

lemma ex_from: "(\<exists>t'. t \<le> t' \<and> Q t') \<longleftrightarrow> Q t \<or> (\<exists>t'. Suc t \<le> t' \<and> Q t')"
  by (metis Suc_le_eq le_eq_less_or_eq)

lemma slot_Suc: "(slot h t + 1) mod 124 = slot h (Suc t)"
  by (simp add: mod_simps)

lemma test_probe_run:
  assumes "has_hole a" "t \<le> run a h"
  shows "test_probe a i (slot h t) = Some (\<exists>t'. t \<le> t' \<and> t' < run a h \<and> a ! slot h t' = i)"
  using assms(2)
proof (induction "run a h - t" arbitrary: t)
  case 0
  then have "t = run a h" by simp
  then show ?case using assms(1) run(1) [OF assms(1), of h] by (subst test_probe.simps) (simp add: has_hole_def)
next
  case (Suc n)
  then have lt: "t < run a h" "Suc t \<le> run a h" "n = run a h - Suc t" by simp_all
  have "test_probe a i (slot h t) = (if a ! slot h t = i then Some True else test_probe a i (slot h (Suc t)))"
    using assms(1) run(2) [OF assms(1) lt(1)] slot_Suc [of h t] by (subst test_probe.simps) (simp add: has_hole_def)
  also have "test_probe a i (slot h (Suc t)) = Some (\<exists>t'. Suc t \<le> t' \<and> t' < run a h \<and> a ! slot h t' = i)"
    using Suc(1) [OF lt(3,2)] .
  finally show ?case using lt(1) by (simp add: ex_from [of t])
qed

lemma set_probe_run:
  assumes "has_hole a" "t < run a h"
  shows "\<exists>h'. set_probe a i (slot h t) = Some (\<exists>t'. t \<le> t' \<and> t' < run a h \<and> a ! slot h t' = i, h') \<and>
    ((\<exists>t'. t \<le> t' \<and> t' < run a h \<and> a ! slot h t' = i) \<or> h' = slot h (run a h))"
  using assms(2)
proof (induction "run a h - t" arbitrary: t)
  case (Suc n)
  have n: "next_slot (slot h t) = slot h (Suc t)" by (simp only: next_slot mod_less_divisor zero_less_numeral slot_Suc)
  note from_t = ex_from [of t "\<lambda>t'. t' < run a h \<and> a ! slot h t' = i"]
  have len: "slot h x < length a" for x using assms(1) by (simp add: has_hole_def)
  consider "a ! slot h t = i" | "a ! slot h t \<noteq> i" "Suc t = run a h" | "a ! slot h t \<noteq> i" "Suc t < run a h" using Suc(3) by linarith
  then show ?case
  proof cases
    case 1
    then have "set_probe a i (slot h t) = Some (True, slot h t)" by (subst set_probe.simps) simp
    then show ?thesis unfolding from_t using 1 Suc(3) by simp
  next
    case 2
    then have "a ! slot h (Suc t) = 0" using run(1) [OF assms(1), of h] by simp
    then have "set_probe a i (slot h t) = Some (False, slot h (Suc t))"
      by (subst set_probe.simps) (simp only: n Let_def len 2 if_True if_False simp_thms)
    moreover have "\<not> (\<exists>t' \<ge> Suc t. t' < run a h \<and> a ! slot h t' = i)" using 2 by auto
    ultimately show ?thesis unfolding from_t using 2 by (auto simp del: mod_Suc_eq)
  next
    case 3
    have "set_probe a i (slot h t) = set_probe a i (slot h (Suc t))"
      using run(2) [OF assms(1) 3(2)] by (subst set_probe.simps) (simp only: n Let_def len 3 if_True if_False simp_thms)
    moreover have "n = run a h - Suc t" using Suc(2) by simp
    ultimately show ?thesis unfolding from_t using Suc(1) [OF _ 3(2)] 3(1) by (simp only: simp_thms)
  qed
qed simp

lemma free_probe_run:
  assumes "has_hole a" "t \<le> run a h"
  shows "free_probe a (slot h t) = Some (slot h (run a h))"
  using assms(2)
proof (induction "run a h - t" arbitrary: t)
  case 0
  then have "t = run a h" by simp
  then show ?case using assms(1) run(1) [OF assms(1), of h] by (subst free_probe.simps) (simp add: has_hole_def)
next
  case (Suc n)
  then have lt: "t < run a h" "Suc t \<le> run a h" "n = run a h - Suc t" by simp_all
  have n: "next_slot (slot h t) = slot h (Suc t)" by (simp only: next_slot mod_less_divisor zero_less_numeral slot_Suc)
  then show ?case using Suc(1) [OF lt(3,2)] assms(1) run(2) [OF assms(1) lt(1)] by (subst free_probe.simps) (simp add: has_hole_def)
qed

text \<open>Every value can be reached from its home slot without crossing a free slot.\<close>

definition reachable :: "nat list \<Rightarrow> bool" where
  "reachable a \<longleftrightarrow> (\<forall>j < 124. a ! j \<noteq> 0 \<longrightarrow>
     (\<exists>t. j = slot (BITVEC_HASH (a ! j - 1)) t \<and> (\<forall>t' < t. a ! slot (BITVEC_HASH (a ! j - 1)) t' \<noteq> 0)))"

lemma reachable_mem:
  assumes "has_hole a" "reachable a"
  shows "(\<exists>t < run a (BITVEC_HASH i). a ! slot (BITVEC_HASH i) t = i + 1) \<longleftrightarrow> i + 1 \<in> set a"
proof
  assume "i + 1 \<in> set a"
  then obtain j where j: "j < 124" "a ! j = i + 1" using assms(1) by (auto simp: has_hole_def in_set_conv_nth)
  then obtain t where t: "j = slot (BITVEC_HASH i) t" "\<forall>t' < t. a ! slot (BITVEC_HASH i) t' \<noteq> 0"
    using assms(2) unfolding reachable_def by force
  have "t < run a (BITVEC_HASH i)"
  proof (rule ccontr)
    assume "\<not> t < run a (BITVEC_HASH i)"
    then have "run a (BITVEC_HASH i) < t \<or> run a (BITVEC_HASH i) = t" by auto
    then show False using t j run(1) [OF assms(1), of "BITVEC_HASH i"] by auto
  qed
  then show "\<exists>t < run a (BITVEC_HASH i). a ! slot (BITVEC_HASH i) t = i + 1" using t j by auto
next
  assume "\<exists>t < run a (BITVEC_HASH i). a ! slot (BITVEC_HASH i) t = i + 1"
  then show "i + 1 \<in> set a" using assms(1) by (metis has_hole_def mod_less_divisor nth_mem zero_less_numeral)
qed

lemma reachable_insert:
  assumes "has_hole a" "reachable a" "h = BITVEC_HASH (v - 1)" "v \<noteq> 0"
  shows "reachable (a[slot h (run a h) := v])"
  unfolding reachable_def
proof (intro allI impI)
  let ?k = "slot h (run a h)" and ?b = "a[slot h (run a h) := v]"
  have len: "length a = 124" using assms(1) by (simp add: has_hole_def)
  have mono: "a ! j \<noteq> 0 \<Longrightarrow> ?b ! j \<noteq> 0" if "j < 124" for j using that assms(4) len by (auto simp: nth_list_update)
  fix j assume j: "j < 124" "?b ! j \<noteq> 0"
  show "\<exists>t. j = slot (BITVEC_HASH (?b ! j - 1)) t \<and> (\<forall>t' < t. ?b ! slot (BITVEC_HASH (?b ! j - 1)) t' \<noteq> 0)"
  proof (cases "j = ?k")
    case True
    then have "?b ! j = v" using len j(1) by simp
    then show ?thesis using True run(2) [OF assms(1), of _ h] mono assms(3) by (intro exI [of _ "run a h"]) auto
  next
    case False
    then have b: "?b ! j = a ! j" by simp
    then obtain t where "j = slot (BITVEC_HASH (a ! j - 1)) t" "\<forall>t' < t. a ! slot (BITVEC_HASH (a ! j - 1)) t' \<noteq> 0"
      using assms(2) j unfolding reachable_def by auto
    then show ?thesis unfolding b using mono by (intro exI [of _ t]) auto
  qed
qed

text \<open>A well-formed table: \<open>n\<close> values, at least one free slot, values within the size, all reachable.\<close>

definition hash_wf :: "nat \<Rightarrow> nat \<Rightarrow> nat list \<Rightarrow> bool" where
  "hash_wf s n a \<longleftrightarrow> length a = 124 \<and> n = length (filter (\<lambda>x. x \<noteq> 0) a) \<and> n < 124 \<and> (\<forall>x \<in> set a. x \<le> s) \<and> reachable a"

lemma hash_wf_hole: "hash_wf s n a \<Longrightarrow> has_hole a"
  unfolding hash_wf_def has_hole_def by (metis (mono_tags, lifting) filter_True less_irrefl)

lemma hash_wf_empty: "hash_wf s 0 (replicate 124 0)"
  by (simp add: hash_wf_def reachable_def)

lemma test_probe_mem:
  assumes "hash_wf s n a"
  shows "test_probe a (i + 1) (BITVEC_HASH i) = Some (i + 1 \<in> set a)"
proof -
  have h: "has_hole a" "reachable a" using assms hash_wf_hole by (auto simp: hash_wf_def)
  show ?thesis using test_probe_run [OF h(1), of 0 "BITVEC_HASH i" "i + 1"] reachable_mem [OF h, of i] by simp
qed

lemma set_update_free:
  fixes x :: nat
  assumes "k < length a" "a ! k = 0" "x \<noteq> 0"
  shows "x \<in> set (a[k := v]) \<longleftrightarrow> x = v \<or> x \<in> set a"
proof
  show "x \<in> set (a[k := v]) \<Longrightarrow> x = v \<or> x \<in> set a" using set_update_subset_insert [of a k v] by auto
  assume "x = v \<or> x \<in> set a"
  then show "x \<in> set (a[k := v])"
  proof
    assume "x \<in> set a"
    then obtain i where "i < length a" "a ! i = x" by (auto simp: in_set_conv_nth)
    then show ?thesis using assms by (metis length_list_update nth_list_update_neq nth_mem)
  qed (simp add: assms(1) set_update_memI)
qed

lemma count_update_free:
  assumes "k < length a" "a ! k = 0" "v \<noteq> 0"
  shows "length (filter (\<lambda>x. x \<noteq> 0) (a[k := v])) = length (filter (\<lambda>x. x \<noteq> (0 :: nat)) a) + 1"
proof -
  have "a = take k a @ 0 # drop (Suc k) a" using assms id_take_nth_drop by metis
  then have "length (filter (\<lambda>x. x \<noteq> 0) a) = length (filter (\<lambda>x. x \<noteq> 0) (take k a)) + length (filter (\<lambda>x. x \<noteq> 0) (drop (Suc k) a))"
    by (metis (mono_tags, lifting) filter.simps(2) filter_append length_append)
  then show ?thesis using assms by (simp add: upd_conv_take_nth_drop)
qed

lemma hash_insert:
  assumes "hash_wf s n a" "n < 123" "v \<noteq> 0" "v \<le> s"
  defines "a' \<equiv> a[slot (BITVEC_HASH (v - 1)) (run a (BITVEC_HASH (v - 1))) := v]"
  shows "hash_wf s (n + 1) a'" and "x \<noteq> 0 \<Longrightarrow> x \<in> set a' \<longleftrightarrow> x = v \<or> x \<in> set a"
proof -
  let ?k = "slot (BITVEC_HASH (v - 1)) (run a (BITVEC_HASH (v - 1)))"
  have h: "has_hole a" "reachable a" "length a = 124" using assms(1) hash_wf_hole by (auto simp: hash_wf_def)
  have k: "?k < length a" "a ! ?k = 0" using run(1) [OF h(1)] h(3) by auto
  have "set a' \<subseteq> insert v (set a)" unfolding a'_def by (rule set_update_subset_insert)
  then have "\<forall>x \<in> set a'. x \<le> s" using assms(1,4) by (auto simp: hash_wf_def)
  then show "hash_wf s (n + 1) a'"
    using assms(1,2) reachable_insert [OF h(1,2) refl assms(3)] count_update_free [OF k assms(3)] by (simp add: hash_wf_def a'_def)
  show "x \<noteq> 0 \<Longrightarrow> x \<in> set a' \<longleftrightarrow> x = v \<or> x \<in> set a" unfolding a'_def by (rule set_update_free [OF k])
qed

lemma clear_values_ok:
  assumes "hash_wf s n a" "n + length (filter (\<lambda>x. x \<noteq> 0) vs) < 124" "\<forall>x \<in> set vs. x \<le> s"
  shows "\<exists>n' a'. clear_values i (n, a) vs = Some (n', a') \<and> hash_wf s n' a' \<and>
    (\<forall>x. x \<noteq> 0 \<longrightarrow> (x \<in> set a' \<longleftrightarrow> x \<in> set a \<or> x \<in> set vs \<and> x \<noteq> i))"
  using assms
proof (induction vs arbitrary: n a)
  case (Cons v vs)
  show ?case
  proof (cases "v \<noteq> 0 \<and> v \<noteq> i")
    case True
    let ?a = "a[slot (BITVEC_HASH (v - 1)) (run a (BITVEC_HASH (v - 1))) := v]"
    have "free_probe a (BITVEC_HASH (v - 1)) = Some (slot (BITVEC_HASH (v - 1)) (run a (BITVEC_HASH (v - 1))))"
      using free_probe_run [OF hash_wf_hole [OF Cons(2)], of 0 "BITVEC_HASH (v - 1)"] by simp
    moreover have "hash_wf s (n + 1) ?a" "x \<noteq> 0 \<Longrightarrow> x \<in> set ?a \<longleftrightarrow> x = v \<or> x \<in> set a" for x
      using hash_insert [OF Cons(2), of v] True Cons(3,4) by auto
    ultimately show ?thesis using Cons(1) [of "n + 1" ?a] Cons(3,4) True by force
  next
    case False
    then show ?thesis using Cons(1) [of n a] Cons(2-4) by (auto split: if_splits)
  qed
qed simp

section \<open>The invariant\<close>

inductive bitvec_wf :: "Bitvec \<Rightarrow> bool" where
  wf_bitmap: "s \<le> 3968 \<Longrightarrow> length b = 496 \<Longrightarrow> bitvec_wf (Bitvec s n 0 (aBitmap b))"
| wf_hash: "3968 < s \<Longrightarrow> s < 2 ^ 32 \<Longrightarrow> hash_wf s n a \<Longrightarrow> bitvec_wf (Bitvec s n 0 (aHash a))"
| wf_sub: "3968 < s \<Longrightarrow> s < 2 ^ 32 \<Longrightarrow> d = sub_divisor s \<Longrightarrow> length l = 62
    \<Longrightarrow> \<forall>c. Some c \<in> set l \<longrightarrow> bitvec_wf c \<and> iSize c = d \<Longrightarrow> bitvec_wf (Bitvec s n d (apSub l))"

inductive_cases bitvec_wfE: "bitvec_wf p"

lemma sub_divisor:
  assumes "3968 < s"
  shows "3968 \<le> sub_divisor s" "sub_divisor s < s" "s \<le> 62 * sub_divisor s" "s \<le> 62 * m \<Longrightarrow> 3968 \<le> m \<Longrightarrow> sub_divisor s \<le> m"
proof -
  define q r where "q = s div 62" and "r = s mod 62"
  have s: "s = 62 * q + r" "r < 62" by (simp_all add: q_def r_def)
  have d: "sub_divisor s = max 3968 (if r \<noteq> 0 then q + 1 else q)"
    by (simp add: sub_divisor_def Let_def q_def [symmetric] r_def [symmetric])
  show "3968 \<le> sub_divisor s" by (simp add: d)
  show "sub_divisor s < s" "s \<le> 62 * sub_divisor s" unfolding d using assms s by (auto simp: max_def)
  show "s \<le> 62 * m \<Longrightarrow> 3968 \<le> m \<Longrightarrow> sub_divisor s \<le> m" unfolding d using s by auto
qed

text \<open>Bit \<open>i\<close>, counted from zero, is set.\<close>

definition has :: "Bitvec \<Rightarrow> nat \<Rightarrow> bool" where
  "has p i \<longleftrightarrow> test_walk p i = Some True"

lemma test_bitmap: "s \<le> 3968 \<Longrightarrow> length b = 496 \<Longrightarrow> i < s \<Longrightarrow> test_walk (Bitvec s n 0 (aBitmap b)) i = Some (bit (b ! (i div 8)) (i mod 8))"
proof -
  assume a: "s \<le> 3968" "length b = 496" "i < s"
  have "x AND push_bit k 1 \<noteq> 0 \<longleftrightarrow> bit x k" for x :: byte and k
    by (simp add: bit_iff_and_push_bit_not_eq_0)
  then show ?thesis using a by (simp add: test_walk.simps bitmap_test_def less_mult_imp_div_less)
qed

lemma test_hash: "3968 < s \<Longrightarrow> hash_wf s n a \<Longrightarrow> test_walk (Bitvec s n 0 (aHash a)) i = Some (i + 1 \<in> set a)"
  using test_probe_mem [of s n a i] by (simp add: test_walk.simps)

lemma test_sub:
  assumes "3968 < s" "length l = 62" "i < s"
  shows "test_walk (Bitvec s n (sub_divisor s) (apSub l)) i =
    (case l ! (i div sub_divisor s) of None \<Rightarrow> Some False | Some c \<Rightarrow> test_walk c (i mod sub_divisor s))"
    and "i div sub_divisor s < 62" and "i mod sub_divisor s < sub_divisor s"
proof -
  note d = sub_divisor [OF assms(1)]
  show "i div sub_divisor s < 62" using d(3) assms(3) by (simp add: less_mult_imp_div_less mult.commute)
  then show "test_walk (Bitvec s n (sub_divisor s) (apSub l)) i =
    (case l ! (i div sub_divisor s) of None \<Rightarrow> Some False | Some c \<Rightarrow> test_walk c (i mod sub_divisor s))"
    using d(1) assms(2) by (simp add: test_walk.simps)
  show "i mod sub_divisor s < sub_divisor s" using d(1) by (intro mod_less_divisor) linarith
qed

lemma has_bitmap: "s \<le> 3968 \<Longrightarrow> length b = 496 \<Longrightarrow> i < s \<Longrightarrow> has (Bitvec s n 0 (aBitmap b)) i \<longleftrightarrow> bit (b ! (i div 8)) (i mod 8)"
  by (simp add: has_def test_bitmap)

lemma has_hash: "3968 < s \<Longrightarrow> hash_wf s n a \<Longrightarrow> has (Bitvec s n 0 (aHash a)) i \<longleftrightarrow> i + 1 \<in> set a"
  by (simp add: has_def test_hash)

lemma has_sub: "3968 < s \<Longrightarrow> length l = 62 \<Longrightarrow> i < s \<Longrightarrow> has (Bitvec s n (sub_divisor s) (apSub l)) i \<longleftrightarrow>
    (case l ! (i div sub_divisor s) of None \<Rightarrow> False | Some c \<Rightarrow> has c (i mod sub_divisor s))"
  by (simp add: has_def test_sub(1) split: option.splits)

lemma test_total: "bitvec_wf p \<Longrightarrow> i < iSize p \<Longrightarrow> test_walk p i = Some (has p i)"
proof (induction p arbitrary: i rule: bitvec_wf.induct)
  case (wf_sub s d l n)
  have i: "i < s" using wf_sub by simp
  note t = test_sub [OF wf_sub(1,4) i]
  show ?case
  proof (cases "l ! (i div d)")
    case None
    then show ?thesis using t wf_sub(3) by (simp add: has_def)
  next
    case (Some c)
    then have "Some c \<in> set l" using t(2) wf_sub(3,4) by (metis nth_mem)
    then show ?thesis using t wf_sub(3,5) Some by (simp add: has_def)
  qed
qed (auto simp: has_def test_bitmap test_hash)

text \<open>No allocation fails.\<close>

definition all_ok :: "mallocs \<Rightarrow> bool" where
  "all_ok ms \<longleftrightarrow> (\<forall>b \<in> set ms. b)"

text \<open>What setting bit \<open>i\<close> must do, for every outcome of the allocations.\<close>

definition set_post :: "Bitvec \<Rightarrow> nat \<Rightarrow> int \<Rightarrow> Bitvec \<Rightarrow> bool" where
  "set_post p i rc p' \<longleftrightarrow> bitvec_wf p' \<and> iSize p' = iSize p \<and> rc \<in> {0, 7} \<and> (iDivisor p \<noteq> 0 \<longrightarrow> iDivisor p' = iDivisor p)
     \<and> (\<forall>j < iSize p. has p' j \<longrightarrow> has p j \<or> j = i) \<and> (rc = 0 \<longrightarrow> (\<forall>j < iSize p. has p j \<or> j = i \<longrightarrow> has p' j))"

definition set_ok :: "set_fun \<Rightarrow> Bitvec \<Rightarrow> bool" where
  "set_ok rec p \<longleftrightarrow> (\<forall>i < iSize p. \<forall>ms. \<exists>rc p' ms'. rec p i ms = Some (rc, p', ms') \<and> set_post p i rc p'
     \<and> (all_ok ms \<longrightarrow> rc = 0 \<and> all_ok ms'))"

lemma set_okE:
  assumes "set_ok rec p" "i < iSize p"
  obtains rc p' ms' where "rec p i ms = Some (rc, p', ms')" "set_post p i rc p'" "all_ok ms \<Longrightarrow> rc = 0 \<and> all_ok ms'"
  using assms unfolding set_ok_def by meson

lemma next_malloc_ok: "next_malloc ms = (ok, ms') \<Longrightarrow> all_ok ms \<Longrightarrow> ok \<and> all_ok ms'"
  by (auto simp: next_malloc_def all_ok_def split: list.splits)

lemma dec32: "0 < v \<Longrightarrow> v < 2 ^ 32 \<Longrightarrow> dec32 v = v - 1"
  by (cases v) (simp_all add: dec32_def)

definition values_post :: "nat \<Rightarrow> int \<Rightarrow> Bitvec \<Rightarrow> nat list \<Rightarrow> mallocs \<Rightarrow> int \<Rightarrow> Bitvec \<Rightarrow> mallocs \<Rightarrow> bool" where
  "values_post s rc q vs ms rc' q' ms' \<longleftrightarrow> bitvec_wf q' \<and> iSize q' = s \<and> rc' \<in> {0, 7}
    \<and> (\<forall>j < s. has q' j \<longrightarrow> has q j \<or> j + 1 \<in> set vs) \<and> (rc' = 0 \<longrightarrow> rc = 0 \<and> (\<forall>j < s. has q j \<or> j + 1 \<in> set vs \<longrightarrow> has q' j))
    \<and> (all_ok ms \<and> rc = 0 \<longrightarrow> rc' = 0 \<and> all_ok ms')"

lemma set_values_ok:
  assumes rec: "\<And>q. bitvec_wf q \<Longrightarrow> iSize q = s \<Longrightarrow> iDivisor q = d \<Longrightarrow> set_ok rec q" and d: "d \<noteq> 0" "s < 2 ^ 32"
    and q: "bitvec_wf q" "iSize q = s" "iDivisor q = d" and vs: "\<forall>v \<in> set vs. v \<le> s" and rc: "rc \<in> {0, 7}"
  shows "\<exists>rc' q' ms'. set_values rec rc q vs ms = Some (rc', q', ms') \<and> values_post s rc q vs ms rc' q' ms'"
  using q vs rc
proof (induction vs arbitrary: rc q ms)
  case (Cons v vs)
  show ?case
  proof (cases "v = 0")
    case True
    then show ?thesis using Cons(1) [OF Cons(2-4) _ Cons(6), of ms] Cons(5) by (auto simp: values_post_def)
  next
    case False
    then have v: "dec32 v < iSize q" "dec32 v + 1 = v" using Cons d by (auto simp: dec32)
    obtain rc1 q1 ms1 where 1: "rec q (dec32 v) ms = Some (rc1, q1, ms1)" "set_post q (dec32 v) rc1 q1"
        "all_ok ms \<Longrightarrow> rc1 = 0 \<and> all_ok ms1"
      using set_okE [OF rec [OF Cons(2-4)] v(1)] by metis
    note post = 1(2) [unfolded set_post_def Cons(3,4)]
    have r: "rc OR rc1 \<in> {0, 7}" "rc OR rc1 = 0 \<longleftrightarrow> rc = 0 \<and> rc1 = 0" using post Cons(6) by auto
    have q1: "bitvec_wf q1" "iSize q1 = s" "iDivisor q1 = d" using post d(1) by simp_all
    obtain rc' q' ms' where 2: "set_values rec (rc OR rc1) q1 vs ms1 = Some (rc', q', ms')" "values_post s (rc OR rc1) q1 vs ms1 rc' q' ms'"
      using Cons(1) [OF q1 _ r(1), of ms1] Cons(5) by auto
    note post' = 2(2) [unfolded values_post_def]
    have j: "j = dec32 v \<longleftrightarrow> j + 1 = v" for j using v(2) by auto
    have "\<forall>j < s. has q' j \<longrightarrow> has q j \<or> j + 1 \<in> set (v # vs)" using post' post j by auto
    moreover have "rc' = 0 \<longrightarrow> rc = 0 \<and> (\<forall>j < s. has q j \<or> j + 1 \<in> set (v # vs) \<longrightarrow> has q' j)"
    proof
      assume "rc' = 0"
      then have z: "rc = 0" "rc1 = 0" and up: "\<And>j. j < s \<Longrightarrow> has q1 j \<or> j + 1 \<in> set vs \<Longrightarrow> has q' j" using post' r(2) by blast+
      have "\<And>j. j < s \<Longrightarrow> has q j \<or> j + 1 = v \<Longrightarrow> has q1 j" using post z(2) j by blast
      then show "rc = 0 \<and> (\<forall>j < s. has q j \<or> j + 1 \<in> set (v # vs) \<longrightarrow> has q' j)" using z(1) up by auto
    qed
    moreover have "all_ok ms \<and> rc = 0 \<longrightarrow> rc' = 0 \<and> all_ok ms'" using post' 1(3) r(2) by blast
    moreover have "set_values rec rc q (v # vs) ms = Some (rc', q', ms')" using 2(1) 1(1) False by simp
    moreover have "bitvec_wf q'" "iSize q' = s" "rc' \<in> {0, 7}" using post' by blast+
    ultimately show ?thesis unfolding values_post_def by blast
  qed
qed (simp add: values_post_def)

lemma empty_sub:
  assumes "3968 < s" "s < 2 ^ 32"
  shows "bitvec_wf (Bitvec s n (sub_divisor s) (apSub (replicate 62 None)))"
    and "j < s \<Longrightarrow> \<not> has (Bitvec s n (sub_divisor s) (apSub (replicate 62 None))) j"
  using assms test_sub(2) [OF assms(1), of "replicate 62 None" j] by (auto intro: wf_sub simp: has_sub)

text \<open>The three ways the hash table takes a new value: in a free slot, or by moving everything down.\<close>

lemma hash_insert_post:
  assumes "3968 < s" "s < 2 ^ 32" "hash_wf s n a" "i < s" "n < 123" "h = slot (BITVEC_HASH i) (run a (BITVEC_HASH i))"
  shows "set_post (Bitvec s n 0 (aHash a)) i 0 (Bitvec s (n + 1) 0 (aHash (a[h := i + 1])))"
proof -
  have w: "hash_wf s (n + 1) (a[h := i + 1])" "\<And>j. j + 1 \<in> set (a[h := i + 1]) \<longleftrightarrow> j = i \<or> j + 1 \<in> set a"
    using hash_insert [OF assms(3,5), of "i + 1"] assms(4,6) by auto
  show ?thesis unfolding set_post_def Bitvec.sel has_hash [OF assms(1) assms(3)] has_hash [OF assms(1) w(1)]
    using w(2) wf_hash [OF assms(1,2) w(1)] by blast
qed

lemma set_rehash_ok:
  assumes rec: "\<And>q. bitvec_wf q \<Longrightarrow> iSize q = s \<Longrightarrow> iDivisor q = sub_divisor s \<Longrightarrow> set_ok rec q"
    and p: "3968 < s" "s < 2 ^ 32" "hash_wf s n a" "i < s" and h: "h = slot (BITVEC_HASH i) (run a (BITVEC_HASH i))"
  shows "\<exists>rc p' ms'. set_rehash rec (Bitvec s n 0 (aHash a)) a (i + 1) h ms = Some (rc, p', ms')
    \<and> set_post (Bitvec s n 0 (aHash a)) i rc p' \<and> (all_ok ms \<longrightarrow> rc = 0 \<and> all_ok ms')"
proof (cases "62 \<le> n")
  case True
  let ?p = "Bitvec s n 0 (aHash a)" and ?q = "Bitvec s n (sub_divisor s) (apSub (replicate 62 None))"
  obtain ok ms1 where m: "next_malloc ms = (ok, ms1)" by fastforce
  show ?thesis
  proof (cases ok)
    case False
    then have "set_post ?p i 7 ?p" using wf_hash [OF p(1-3)] by (simp add: set_post_def)
    then show ?thesis using m False True next_malloc_ok [OF m] by (auto simp: set_rehash_def)
  next
    case ok: True
    have d: "sub_divisor s \<noteq> 0" using sub_divisor(1) [OF p(1)] by simp
    note q = empty_sub(1) [OF p(1,2), of n] empty_sub(2) [OF p(1,2)]
    obtain rc1 q1 ms2 where 1: "rec ?q i ms1 = Some (rc1, q1, ms2)" "set_post ?q i rc1 q1" "all_ok ms1 \<Longrightarrow> rc1 = 0 \<and> all_ok ms2"
      using set_okE [OF rec [OF q(1)], of i ms1] p(4) by (metis Bitvec.sel(1,3))
    note post = 1(2) [unfolded set_post_def Bitvec.sel]
    have q1: "bitvec_wf q1" "iSize q1 = s" "iDivisor q1 = sub_divisor s" "rc1 \<in> {0, 7}" using post d by blast+
    have "\<forall>v \<in> set a. v \<le> s" using p(3) by (simp add: hash_wf_def)
    from set_values_ok [OF rec d p(2) q1(1-3) this q1(4), of ms2] obtain rc' q' ms' where
      2: "set_values rec rc1 q1 a ms2 = Some (rc', q', ms')" "values_post s rc1 q1 a ms2 rc' q' ms'" by blast
    note post' = 2(2) [unfolded values_post_def]
    have "dec32 (i + 1) = i" using p by (simp add: dec32)
    then have go: "set_rehash rec ?p a (i + 1) h ms = Some (rc', q', ms')" using m ok True 1(1) 2(1) by (simp add: set_rehash_def Let_def)
    have h: "has ?p j \<longleftrightarrow> j + 1 \<in> set a" for j by (rule has_hash [OF p(1,3)])
    have d1: "\<And>j. j < s \<Longrightarrow> has q1 j \<Longrightarrow> j = i" and u1: "rc1 = 0 \<Longrightarrow> has q1 i" using post q(2) p(4) by blast+
    have d2: "\<And>j. j < s \<Longrightarrow> has q' j \<Longrightarrow> has q1 j \<or> j + 1 \<in> set a"
      and u2: "rc' = 0 \<Longrightarrow> rc1 = 0" "\<And>j. rc' = 0 \<Longrightarrow> j < s \<Longrightarrow> has q1 j \<or> j + 1 \<in> set a \<Longrightarrow> has q' j"
      and w: "bitvec_wf q'" "iSize q' = s" "rc' \<in> {0, 7}" using post' by blast+
    have "\<And>j. j < s \<Longrightarrow> has q' j \<Longrightarrow> has ?p j \<or> j = i" unfolding h using d1 d2 by blast
    moreover have "\<And>j. rc' = 0 \<Longrightarrow> j < s \<Longrightarrow> has ?p j \<or> j = i \<Longrightarrow> has q' j" unfolding h using u1 u2 by blast
    ultimately have "set_post ?p i rc' q'" unfolding set_post_def Bitvec.sel using w by blast
    moreover have "all_ok ms \<longrightarrow> rc' = 0 \<and> all_ok ms'" using next_malloc_ok [OF m] 1(3) post' by blast
    ultimately show ?thesis using go by blast
  qed
next
  case False
  then show ?thesis using hash_insert_post [OF p _ h] by (simp add: set_rehash_def)
qed

lemma hash_set_ok:
  assumes rec: "\<And>q. bitvec_wf q \<Longrightarrow> iSize q = s \<Longrightarrow> iDivisor q = sub_divisor s \<Longrightarrow> set_ok rec q"
    and p: "3968 < s" "s < 2 ^ 32" "hash_wf s n a" "i < s"
  shows "\<exists>rc p' ms'. hash_set rec (Bitvec s n 0 (aHash a)) a i ms = Some (rc, p', ms')
    \<and> set_post (Bitvec s n 0 (aHash a)) i rc p' \<and> (all_ok ms \<longrightarrow> rc = 0 \<and> all_ok ms')"
proof -
  let ?p = "Bitvec s n 0 (aHash a)" and ?h = "BITVEC_HASH i"
  have h: "has_hole a" "reachable a" "length a = 124" using p(3) hash_wf_hole by (auto simp: hash_wf_def)
  have rehash: "\<And>k. k = slot ?h (run a ?h) \<Longrightarrow> \<exists>rc p' ms'. set_rehash rec ?p a (i + 1) k ms = Some (rc, p', ms')
      \<and> set_post ?p i rc p' \<and> (all_ok ms \<longrightarrow> rc = 0 \<and> all_ok ms')"
    by (rule set_rehash_ok [OF rec p])
  show ?thesis
  proof (cases "a ! ?h = 0")
    case True
    have "run a ?h = 0" using True unfolding run_def by (intro Least_equality) simp_all
    then have k: "?h = slot ?h (run a ?h)" by simp
    show ?thesis
    proof (cases "n < 123")
      case n: True
      show ?thesis using hash_insert_post [OF p n k] True n h(3) by (simp add: hash_set_def Let_def)
    next
      case False
      then have "hash_set rec ?p a i ms = set_rehash rec ?p a (i + 1) ?h ms" using True h(3) by (simp add: hash_set_def Let_def)
      then show ?thesis using rehash [OF k] by (simp only:)
    qed
  next
    case False
    then have "0 < run a ?h" using run(1) [OF h(1), of ?h] by (cases "run a ?h") auto
    from set_probe_run [OF h(1) this, of "i + 1"] obtain h' where
      s: "set_probe a (i + 1) ?h = Some (i + 1 \<in> set a, h')" "i + 1 \<in> set a \<or> h' = slot ?h (run a ?h)"
      using reachable_mem [OF h(1,2), of i] by auto
    have "i + 1 \<in> set a \<Longrightarrow> set_post ?p i 0 ?p" using wf_hash [OF p(1-3)] by (simp add: set_post_def has_hash [OF p(1,3)])
    moreover have "hash_set rec ?p a i ms = (if i + 1 \<in> set a then Some (0, ?p, ms) else set_rehash rec ?p a (i + 1) h' ms)"
      using s False h(3) by (simp add: hash_set_def Let_def)
    ultimately show ?thesis using s(2) rehash [of h'] by (cases "i + 1 \<in> set a") (simp_all only: simp_thms if_True if_False, blast)
  qed
qed

lemma Create_ok:
  assumes "sqlite3BitvecCreate sz ms = (Some c, ms')" "sz < 2 ^ 32"
  shows "bitvec_wf c" "iSize c = sz" "iDivisor c = 0" "j < sz \<Longrightarrow> \<not> has c j"
proof -
  have c: "c = Bitvec sz 0 0 (if sz \<le> 3968 then aBitmap (replicate 496 0) else aHash (replicate 124 0))"
    using assms(1) by (auto simp: sqlite3BitvecCreate_def split: prod.splits if_splits)
  show "iSize c = sz" "iDivisor c = 0" by (simp_all add: c)
  show "bitvec_wf c" using assms(2) by (auto simp: c intro: wf_bitmap wf_hash hash_wf_empty)
  show "j < sz \<Longrightarrow> \<not> has c j" by (auto simp: c has_bitmap has_hash hash_wf_empty less_mult_imp_div_less)
qed

lemma bit_of_index: "bit (x OR 2 ^ (i mod 8)) (j mod 8) \<longleftrightarrow> bit x (j mod 8) \<or> j mod 8 = i mod 8"
  "bit (x AND NOT (2 ^ (i mod 8))) (j mod 8) \<longleftrightarrow> bit x (j mod 8) \<and> j mod 8 \<noteq> i mod 8" for x :: byte and i j :: nat
  by (auto simp: bit_simps)

lemma index_eq: "j = i \<longleftrightarrow> j div d = i div d \<and> j mod d = i mod d" for i j d :: nat
  by (metis div_mult_mod_eq)

lemma bitmap_set_post:
  assumes "s \<le> 3968" "length b = 496" "i < s"
  shows "\<exists>b'. bitmap_set b i = Some b' \<and> set_post (Bitvec s n 0 (aBitmap b)) i 0 (Bitvec s n 0 (aBitmap b'))"
proof -
  let ?b = "b[i div 8 := b ! (i div 8) OR push_bit (i mod 8) 1]"
  have k: "i div 8 < length b" using assms by (simp add: less_mult_imp_div_less)
  have "bit (?b ! (j div 8)) (j mod 8) \<longleftrightarrow> bit (b ! (j div 8)) (j mod 8) \<or> j = i" for j
  proof (cases "j div 8 = i div 8")
    case True
    then show ?thesis using k by (simp add: bit_of_index index_eq [of j i 8])
  qed auto
  then have "set_post (Bitvec s n 0 (aBitmap b)) i 0 (Bitvec s n 0 (aBitmap ?b))"
    using assms by (simp add: set_post_def has_bitmap wf_bitmap)
  moreover have "bitmap_set b i = Some ?b" using k by (simp add: bitmap_set_def Let_def)
  ultimately show ?thesis by blast
qed

lemma nth_update_child:
  assumes "3968 < s" "length l = 62" "j < s" "k < 62"
  shows "has (Bitvec s n (sub_divisor s) (apSub (l[k := Some c']))) j \<longleftrightarrow>
    (if j div sub_divisor s = k then has c' (j mod sub_divisor s) else has (Bitvec s n (sub_divisor s) (apSub l)) j)"
  using assms by (simp add: has_sub)

lemma wf_update_child:
  assumes "bitvec_wf (Bitvec s n (sub_divisor s) (apSub l))" "bitvec_wf c'" "iSize c' = sub_divisor s"
  shows "bitvec_wf (Bitvec s n (sub_divisor s) (apSub (l[k := Some c'])))"
proof -
  have l: "3968 < s" "s < 2 ^ 32" "length l = 62" "\<forall>c. Some c \<in> set l \<longrightarrow> bitvec_wf c \<and> iSize c = sub_divisor s"
    using assms(1) by (auto elim: bitvec_wfE)
  have "\<forall>c. Some c \<in> set (l[k := Some c']) \<longrightarrow> bitvec_wf c \<and> iSize c = sub_divisor s"
    using l(4) assms(2,3) set_update_subset_insert [of l k "Some c'"] by auto
  then show ?thesis using l by (intro wf_sub) auto
qed

lemma child_post:
  assumes wf: "bitvec_wf (Bitvec s n (sub_divisor s) (apSub l))" and i: "i < s"
    and c: "iSize c = sub_divisor s" "\<And>j. j < s \<Longrightarrow> j div sub_divisor s = i div sub_divisor s \<Longrightarrow>
      has c (j mod sub_divisor s) \<longleftrightarrow> has (Bitvec s n (sub_divisor s) (apSub l)) j"
    and post: "set_post c (i mod sub_divisor s) rc c'"
  shows "set_post (Bitvec s n (sub_divisor s) (apSub l)) i rc (Bitvec s n (sub_divisor s) (apSub (l[i div sub_divisor s := Some c'])))"
proof -
  let ?d = "sub_divisor s" and ?p = "Bitvec s n (sub_divisor s) (apSub l)"
  let ?p' = "Bitvec s n ?d (apSub (l[i div ?d := Some c']))"
  have l: "3968 < s" "length l = 62" using wf by (auto elim: bitvec_wfE)
  have k: "i div ?d < 62" and m: "\<And>j. j mod ?d < ?d" using test_sub(2) [OF l i] sub_divisor(1) [OF l(1)] by auto
  note p = post [unfolded set_post_def c(1)]
  have c': "bitvec_wf c'" "iSize c' = ?d" "rc \<in> {0, 7}" using p by blast+
  have h: "j < s \<Longrightarrow> has ?p' j \<longleftrightarrow> (if j div ?d = i div ?d then has c' (j mod ?d) else has ?p j)" for j
    using nth_update_child [OF l] k by simp
  have down: "has ?p j \<or> j = i" if "j < s" "has ?p' j" for j
  proof (cases "j div ?d = i div ?d")
    case True
    then have "has c' (j mod ?d)" using h that by simp
    then have "has c (j mod ?d) \<or> j mod ?d = i mod ?d" using p m by blast
    then show ?thesis using c(2) [OF that(1) True] True index_eq [of j i ?d] by blast
  qed (use h that in simp)
  have up: "has ?p' j" if "j < s" "has ?p j \<or> j = i" "rc = 0" for j
  proof (cases "j div ?d = i div ?d")
    case True
    then have "has c (j mod ?d) \<or> j mod ?d = i mod ?d" using c(2) [OF that(1) True] that(2) by blast
    then have "has c' (j mod ?d)" using p m that(3) by blast
    then show ?thesis using h that True by simp
  qed (use h that in auto)
  show ?thesis unfolding set_post_def Bitvec.sel using wf_update_child [OF wf c'(1,2)] c'(3) down up by blast
qed

lemma sub_step_ok:
  assumes wf: "bitvec_wf (Bitvec s n d (apSub l))" and rec: "\<And>c. bitvec_wf c \<Longrightarrow> iSize c = d \<Longrightarrow> set_ok rec c"
  shows "set_ok (set_step rec) (Bitvec s n d (apSub l))"
  unfolding set_ok_def Bitvec.sel
proof (intro allI impI)
  fix i ms assume i: "i < s"
  let ?p = "Bitvec s n d (apSub l)"
  have s: "3968 < s" "s < 2 ^ 32" "length l = 62" "d = sub_divisor s" using wf by (auto elim: bitvec_wfE)
  have d: "0 < d" "d < 2 ^ 32" using sub_divisor(1,2) [OF s(1)] s(2,4) by auto
  have k: "i div d < 62" "i mod d < d" using test_sub(2,3) [OF s(1,3) i] s(4) by auto
  have step: "set_step rec ?p i ms = (let (sub, ms) = (case l ! (i div d) of None \<Rightarrow> sqlite3BitvecCreate d ms | Some c \<Rightarrow> (Some c, ms))
      in case sub of None \<Rightarrow> Some (7, ?p, ms)
         | Some c \<Rightarrow> do { (rc, c, ms) \<leftarrow> rec c (i mod d) ms; Some (rc, Bitvec s n d (apSub (l[i div d := Some c])), ms) })"
    unfolding set_step_def Bitvec.sel using s(1,3) d k(1) by (simp add: Let_def)
  have finish: "\<exists>rc p' ms'. do { (rc, c, ms) \<leftarrow> rec c (i mod d) ms0; Some (rc, Bitvec s n d (apSub (l[i div d := Some c])), ms) } = Some (rc, p', ms')
      \<and> set_post ?p i rc p' \<and> (all_ok ms0 \<longrightarrow> rc = 0 \<and> all_ok ms')"
    if c: "bitvec_wf c" "iSize c = d" "\<And>j. j < s \<Longrightarrow> j div d = i div d \<Longrightarrow> has c (j mod d) \<longleftrightarrow> has ?p j" for c ms0
  proof -
    obtain rc c' ms' where r: "rec c (i mod d) ms0 = Some (rc, c', ms')" "set_post c (i mod d) rc c'" "all_ok ms0 \<Longrightarrow> rc = 0 \<and> all_ok ms'"
      using set_okE [OF rec [OF c(1,2)], of "i mod d" ms0] k(2) c(2) by metis
    then show ?thesis using child_post [of s n l i c rc c'] wf i c s(4) by simp
  qed
  show "\<exists>rc p' ms'. set_step rec ?p i ms = Some (rc, p', ms') \<and> set_post ?p i rc p' \<and> (all_ok ms \<longrightarrow> rc = 0 \<and> all_ok ms')"
  proof (cases "l ! (i div d)")
    case (Some c)
    then have "Some c \<in> set l" using k(1) s(3) by (metis nth_mem)
    then have c: "bitvec_wf c" "iSize c = d" using wf by (auto elim: bitvec_wfE)
    have "\<And>j. j < s \<Longrightarrow> j div d = i div d \<Longrightarrow> has c (j mod d) \<longleftrightarrow> has ?p j" using Some s has_sub [OF s(1,3)] by simp
    then show ?thesis using finish [OF c] Some step by simp
  next
    case None
    obtain sub ms0 where cr: "sqlite3BitvecCreate d ms = (sub, ms0)" by fastforce
    have good: "all_ok ms \<Longrightarrow> sub \<noteq> None \<and> all_ok ms0"
      using cr next_malloc_ok [of ms] by (auto simp: sqlite3BitvecCreate_def split: prod.splits if_splits)
    show ?thesis
    proof (cases sub)
      case N: None
      have "set_post ?p i 7 ?p" using wf by (simp add: set_post_def)
      then show ?thesis using N cr step None good by auto
    next
      case (Some c)
      note c = Create_ok [OF cr [unfolded Some] d(2)]
      have "\<And>j. j < s \<Longrightarrow> j div d = i div d \<Longrightarrow> has c (j mod d) \<longleftrightarrow> has ?p j"
        using None s has_sub [OF s(1,3)] c(4) d(1) by simp
      then have "\<exists>rc p' ms'. set_step rec ?p i ms = Some (rc, p', ms') \<and> set_post ?p i rc p' \<and> (all_ok ms0 \<longrightarrow> rc = 0 \<and> all_ok ms')"
        using finish [OF c(1,2), of ms0] Some cr step None by simp
      then show ?thesis using good by blast
    qed
  qed
qed

text \<open>The number of steps down to the bottom.\<close>

function steps_for :: "nat \<Rightarrow> nat" where
  "steps_for s = (if s \<le> 3968 then 1 else 2 + steps_for (sub_divisor s))"
  by pat_completeness auto
termination
  by (relation "measure id") (auto simp: sub_divisor)

declare steps_for.simps [simp del]

definition steps_left :: "Bitvec \<Rightarrow> nat" where
  "steps_left p = (if iDivisor p \<noteq> 0 then 1 + steps_for (iDivisor p) else steps_for (iSize p))"

lemma steps_left_le: "bitvec_wf p \<Longrightarrow> steps_left p \<le> steps_for (iSize p)"
proof (erule bitvec_wf.cases)
  fix s n d l assume "p = Bitvec s n d (apSub l)" "3968 < s" "d = sub_divisor s"
  then show "steps_left p \<le> steps_for (iSize p)" by (simp add: steps_left_def steps_for.simps [of s])
qed (simp_all add: steps_left_def)

lemma steps_for_bound: "s \<le> 3968 * 62 ^ k \<Longrightarrow> steps_for s \<le> 1 + 2 * k"
proof (induction k arbitrary: s)
  case 0
  then show ?case by (simp add: steps_for.simps)
next
  case (Suc k)
  show ?case
  proof (cases "s \<le> 3968")
    case True
    then show ?thesis by (simp add: steps_for.simps)
  next
    case False
    then have "sub_divisor s \<le> 3968 * 62 ^ k" using Suc(2) by (intro sub_divisor(4)) simp_all
    then show ?thesis using Suc(1) False by (simp add: steps_for.simps [of s])
  qed
qed

lemma set_walk_ok: "bitvec_wf p \<Longrightarrow> steps_left p \<le> k \<Longrightarrow> set_ok (set_walk k) p"
proof (induction k arbitrary: p)
  case 0
  then show ?case by (auto simp: steps_left_def steps_for.simps [of "iSize p"] split: if_splits)
next
  case (Suc k)
  from Suc(2) show ?case
  proof (cases rule: bitvec_wf.cases)
    case (wf_bitmap s b n)
    then show ?thesis using bitmap_set_post [of s b _ n] by (force simp: set_ok_def set_step_def)
  next
    case (wf_hash s n a)
    have k: "Suc (steps_for (sub_divisor s)) \<le> k" using Suc(3) wf_hash by (simp add: steps_left_def steps_for.simps [of s])
    have d: "sub_divisor s \<noteq> 0" using sub_divisor(1) [OF wf_hash(2)] by simp
    have "set_ok (set_walk k) q" if "bitvec_wf q" "iSize q = s" "iDivisor q = sub_divisor s" for q
      using Suc(1) [OF that(1)] k that d by (simp add: steps_left_def)
    then show ?thesis using hash_set_ok [of s "set_walk k" n a] wf_hash by (simp add: set_ok_def set_step_def)
  next
    case (wf_sub s d l n)
    have d: "d \<noteq> 0" using sub_divisor(1) [OF wf_sub(2)] wf_sub by simp
    have "set_ok (set_walk k) c" if "bitvec_wf c" "iSize c = d" for c
      using Suc(1) [OF that(1)] steps_left_le [OF that(1)] Suc(3) wf_sub(1) d that by (simp add: steps_left_def)
    then show ?thesis using sub_step_ok [of s n d l] Suc(2) wf_sub(1) by simp
  qed
qed

lemma clear_walk_ok:
  "bitvec_wf p \<Longrightarrow> i < iSize p \<Longrightarrow>
   \<exists>p'. clear_walk p i = Some p' \<and> bitvec_wf p' \<and> iSize p' = iSize p \<and> (\<forall>j < iSize p. has p' j \<longleftrightarrow> has p j \<and> j \<noteq> i)"
proof (induction p arbitrary: i rule: bitvec_wf.induct)
  case (wf_bitmap s b n)
  let ?b = "b[i div 8 := b ! (i div 8) AND NOT (push_bit (i mod 8) 1)]"
  have k: "i div 8 < length b" using wf_bitmap by (simp add: less_mult_imp_div_less)
  have "bit (?b ! (j div 8)) (j mod 8) \<longleftrightarrow> bit (b ! (j div 8)) (j mod 8) \<and> j \<noteq> i" for j
  proof (cases "j div 8 = i div 8")
    case True
    then show ?thesis using k by (simp add: bit_of_index index_eq [of j i 8])
  qed auto
  then have "has (Bitvec s n 0 (aBitmap ?b)) j \<longleftrightarrow> has (Bitvec s n 0 (aBitmap b)) j \<and> j \<noteq> i" if "j < s" for j
    using that wf_bitmap(1,2) by (simp only: has_bitmap length_list_update)
  moreover have "clear_walk (Bitvec s n 0 (aBitmap b)) i = Some (Bitvec s n 0 (aBitmap ?b))"
    using wf_bitmap(1) k by (simp add: clear_walk.simps bitmap_clear_def Let_def)
  ultimately show ?case using wf_bitmap(1,2) by (simp add: bitvec_wf.wf_bitmap)
next
  case (wf_hash s n a)
  have a: "length (filter (\<lambda>x. x \<noteq> 0) a) < 124" "\<forall>x \<in> set a. x \<le> s" using wf_hash(3) by (auto simp: hash_wf_def)
  from clear_values_ok [OF hash_wf_empty [of s], of a "i + 1"] a obtain n' a' where
    c: "clear_values (i + 1) (0, replicate 124 0) a = Some (n', a')" "hash_wf s n' a'"
      "\<And>x. x \<noteq> 0 \<Longrightarrow> x \<in> set a' \<longleftrightarrow> x \<in> set (replicate 124 (0 :: nat)) \<or> x \<in> set a \<and> x \<noteq> i + 1"
    by (metis add_0)
  have "has (Bitvec s n' 0 (aHash a')) j \<longleftrightarrow> has (Bitvec s n 0 (aHash a)) j \<and> j \<noteq> i" for j
    unfolding has_hash [OF wf_hash(1,3)] has_hash [OF wf_hash(1) c(2)] using c(3) [of "j + 1"] by simp
  moreover have "clear_walk (Bitvec s n 0 (aHash a)) i = Some (Bitvec s n' 0 (aHash a'))"
    using wf_hash(1) c(1) by (simp add: clear_walk.simps)
  ultimately show ?case using bitvec_wf.wf_hash [OF wf_hash(1,2) c(2)] by simp
next
  case (wf_sub s d l n)
  let ?p = "Bitvec s n d (apSub l)"
  have i: "i < s" using wf_sub(6) by simp
  note k = test_sub(2,3) [OF wf_sub(1,4) i, folded wf_sub(3)]
  have d: "0 < d" using k(2) by simp
  have wf: "bitvec_wf ?p" using wf_sub(1-5) by (intro bitvec_wf.wf_sub) auto
  show ?case
  proof (cases "l ! (i div d)")
    case None
    then have "\<not> has ?p i" using has_sub [OF wf_sub(1,4) i] wf_sub(3) by simp
    then show ?thesis using None wf k(1) d wf_sub(4) by (auto simp: clear_walk.simps)
  next
    case (Some c)
    then have "Some c \<in> set l" using k(1) wf_sub(4) by (metis nth_mem)
    then obtain c' where c: "iSize c = d" "clear_walk c (i mod d) = Some c'" "bitvec_wf c'" "iSize c' = d"
        "\<And>j. j < d \<Longrightarrow> has c' j \<longleftrightarrow> has c j \<and> j \<noteq> i mod d"
      using wf_sub(5) k(2) by metis
    have "has (Bitvec s n d (apSub (l[i div d := Some c']))) j \<longleftrightarrow> has ?p j \<and> j \<noteq> i" if j: "j < s" for j
      using nth_update_child [OF wf_sub(1,4) j k(1), of n c'] has_sub [OF wf_sub(1,4) j, of n] c(5) [of "j mod d"] d Some wf_sub(3) index_eq [of j i d]
      by auto
    moreover have "clear_walk ?p i = Some (Bitvec s n d (apSub (l[i div d := Some c'])))"
      using Some c(2) k(1) d wf_sub(4) by (simp add: clear_walk.simps)
    ultimately show ?thesis using wf_update_child [OF wf [unfolded wf_sub(3)] c(3)] c(4) wf_sub(3) by simp
  qed
qed


section \<open>The contract of a set object, and its clients\<close>

datatype set_op = Add nat | Remove nat

text \<open>A sequence of operations on the object, collecting the return codes; and on a set of numbers.\<close>

fun run_ops :: "('p \<Rightarrow> nat \<Rightarrow> mallocs \<Rightarrow> (int \<times> 'p \<times> mallocs) option) \<Rightarrow> ('p \<Rightarrow> nat \<Rightarrow> 'p option) \<Rightarrow> 'p \<Rightarrow> set_op list \<Rightarrow> mallocs \<Rightarrow> (int list \<times> 'p) option" where
  "run_ops ins del p [] ms = Some ([], p)"
| "run_ops ins del p (Add i # ops) ms = do { (rc, p, ms) \<leftarrow> ins p i ms; (rcs, p) \<leftarrow> run_ops ins del p ops ms; Some (rc # rcs, p) }"
| "run_ops ins del p (Remove i # ops) ms = do { p \<leftarrow> del p i; run_ops ins del p ops ms }"

fun run_set :: "set_op list \<Rightarrow> nat set \<Rightarrow> nat set" where
  "run_set [] S = S"
| "run_set (Add i # ops) S = run_set ops (insert i S)"
| "run_set (Remove i # ops) S = run_set ops (S - {i})"

fun op_index :: "set_op \<Rightarrow> nat" where
  "op_index (Add i) = i"
| "op_index (Remove i) = i"

lemma run_set_mono: "S \<subseteq> T \<Longrightarrow> run_set ops S \<subseteq> run_set ops T"
proof (induction ops S arbitrary: T rule: run_set.induct)
  case (2 i ops S)
  then show ?case using 2(1) [of "insert i T"] by auto
next
  case (3 i ops S)
  then have "S - {i} \<subseteq> T - {i}" by blast
  then show ?case using 3(1) [of "T - {i}"] by simp
qed simp

locale set_object =
  fixes inv :: "'p \<Rightarrow> bool" and sz :: "'p \<Rightarrow> nat" and elems :: "'p \<Rightarrow> nat set"
    and ins :: "'p \<Rightarrow> nat \<Rightarrow> mallocs \<Rightarrow> (int \<times> 'p \<times> mallocs) option" and del :: "'p \<Rightarrow> nat \<Rightarrow> 'p option"
  assumes ins_law: "inv p \<Longrightarrow> 1 \<le> i \<Longrightarrow> i \<le> sz p \<Longrightarrow> \<exists>rc p' ms'. ins p i ms = Some (rc, p', ms') \<and> inv p' \<and> sz p' = sz p
      \<and> elems p' \<subseteq> insert i (elems p) \<and> (rc = 0 \<longrightarrow> elems p' = insert i (elems p)) \<and> (all_ok ms \<longrightarrow> rc = 0 \<and> all_ok ms')"
    and del_law: "inv p \<Longrightarrow> 1 \<le> i \<Longrightarrow> i \<le> sz p \<Longrightarrow> \<exists>p'. del p i = Some p' \<and> inv p' \<and> sz p' = sz p \<and> elems p' = elems p - {i}"
begin

lemma run_refines:
  assumes "inv p" "\<forall>x \<in> set ops. 1 \<le> op_index x \<and> op_index x \<le> sz p"
  shows "\<exists>rcs p'. run_ops ins del p ops ms = Some (rcs, p') \<and> inv p' \<and> sz p' = sz p \<and> elems p' \<subseteq> run_set ops (elems p)
    \<and> (list_all (\<lambda>rc. rc = 0) rcs \<longrightarrow> elems p' = run_set ops (elems p)) \<and> (all_ok ms \<longrightarrow> list_all (\<lambda>rc. rc = 0) rcs)"
  using assms
proof (induction ops arbitrary: p ms)
  case (Cons x ops)
  show ?case
  proof (cases x)
    case (Add i)
    with Cons(2,3) ins_law [of p i ms] obtain rc p1 ms1 where
      1: "ins p i ms = Some (rc, p1, ms1)" "inv p1" "sz p1 = sz p" "elems p1 \<subseteq> insert i (elems p)"
        "rc = 0 \<Longrightarrow> elems p1 = insert i (elems p)" "all_ok ms \<Longrightarrow> rc = 0 \<and> all_ok ms1" by auto
    with Cons(1) [OF 1(2), of ms1] Cons(3) obtain rcs p' where
      2: "run_ops ins del p1 ops ms1 = Some (rcs, p')" "inv p'" "sz p' = sz p" "elems p' \<subseteq> run_set ops (elems p1)"
        "list_all (\<lambda>rc. rc = 0) rcs \<Longrightarrow> elems p' = run_set ops (elems p1)" "all_ok ms1 \<Longrightarrow> list_all (\<lambda>rc. rc = 0) rcs" by auto
    have "elems p' \<subseteq> run_set ops (insert i (elems p))" using 2(4) run_set_mono [OF 1(4)] by blast
    then show ?thesis using 1 2 Add by auto
  next
    case (Remove i)
    with Cons(2,3) del_law [of p i] obtain p1 where "del p i = Some p1" "inv p1" "sz p1 = sz p" "elems p1 = elems p - {i}" by auto
    then show ?thesis using Cons(1) [of p1 ms] Cons(3) Remove by auto
  qed
qed simp

end

text \<open>The bitmap keeps the contract.\<close>

definition set_notnull :: "Bitvec \<Rightarrow> nat \<Rightarrow> mallocs \<Rightarrow> (int \<times> Bitvec \<times> mallocs) option" where
  "set_notnull p i ms = do { (rc, p, ms) \<leftarrow> sqlite3BitvecSet (Some p) i ms; p \<leftarrow> p; Some (rc, p, ms) }"

definition clear_notnull :: "Bitvec \<Rightarrow> nat \<Rightarrow> Bitvec option" where
  "clear_notnull p i = do { p \<leftarrow> sqlite3BitvecClear (Some p) i; p }"

definition bitvec_inv :: "Bitvec \<Rightarrow> bool" where
  "bitvec_inv p \<longleftrightarrow> bitvec_wf p \<and> iSize p < 2 ^ 32"

definition bitvec_elems :: "Bitvec \<Rightarrow> nat set" where
  "bitvec_elems p = {i. 1 \<le> i \<and> i \<le> iSize p \<and> has p (i - 1)}"

interpretation bitvec: set_object bitvec_inv sqlite3BitvecSize bitvec_elems set_notnull clear_notnull
proof
  fix p i ms assume p: "bitvec_inv p" "1 \<le> i" "i \<le> sqlite3BitvecSize p"
  then have i: "dec32 i = i - 1" "i - 1 < iSize p" "bitvec_wf p" "iSize p < 2 ^ 32" by (auto simp: bitvec_inv_def sqlite3BitvecSize_def dec32)
  have "steps_left p \<le> 9"
    using steps_left_le [OF i(3)] steps_for_bound [of "iSize p" 4] i(4) by simp
  from set_okE [OF set_walk_ok [OF i(3) this] i(2)] obtain rc p' ms' where
    r: "set_walk 9 p (i - 1) ms = Some (rc, p', ms')" "set_post p (i - 1) rc p'" "all_ok ms \<Longrightarrow> rc = 0 \<and> all_ok ms'" by metis
  have ji: "1 \<le> j \<Longrightarrow> j - 1 = i - 1 \<longleftrightarrow> j = i" for j using p(2) by auto
  have lt: "1 \<le> j \<Longrightarrow> j \<le> iSize p \<Longrightarrow> j - 1 < iSize p" for j by simp
  have "bitvec_elems p' \<subseteq> insert i (bitvec_elems p)"
    using r(2) ji lt unfolding set_post_def bitvec_elems_def by (auto simp del: One_nat_def)
  moreover have "rc = 0 \<longrightarrow> bitvec_elems p' = insert i (bitvec_elems p)"
    using r(2) ji lt p(2,3) unfolding set_post_def bitvec_elems_def sqlite3BitvecSize_def by (auto simp del: One_nat_def)
  moreover have "set_notnull p i ms = Some (rc, p', ms')" using r(1) i(1) by (simp add: set_notnull_def sqlite3BitvecSet_def BITVEC_DEPTH_def)
  moreover have "bitvec_inv p'" "iSize p' = iSize p" using r(2) i(4) by (auto simp: set_post_def bitvec_inv_def)
  ultimately show "\<exists>rc p' ms'. set_notnull p i ms = Some (rc, p', ms') \<and> bitvec_inv p' \<and> sqlite3BitvecSize p' = sqlite3BitvecSize p
      \<and> bitvec_elems p' \<subseteq> insert i (bitvec_elems p) \<and> (rc = 0 \<longrightarrow> bitvec_elems p' = insert i (bitvec_elems p)) \<and> (all_ok ms \<longrightarrow> rc = 0 \<and> all_ok ms')"
    using r(3) by (auto simp: sqlite3BitvecSize_def)
next
  fix p i assume p: "bitvec_inv p" "1 \<le> i" "i \<le> sqlite3BitvecSize p"
  then have i: "dec32 i = i - 1" "i - 1 < iSize p" "bitvec_wf p" "iSize p < 2 ^ 32" by (auto simp: bitvec_inv_def sqlite3BitvecSize_def dec32)
  from clear_walk_ok [OF i(3,2)] obtain p' where
    r: "clear_walk p (i - 1) = Some p'" "bitvec_wf p'" "iSize p' = iSize p" "\<forall>j < iSize p. has p' j \<longleftrightarrow> has p j \<and> j \<noteq> i - 1" by blast
  have "bitvec_elems p' = bitvec_elems p - {i}" using r(3,4) p(2) by (auto simp: bitvec_elems_def)
  then show "\<exists>p'. clear_notnull p i = Some p' \<and> bitvec_inv p' \<and> sqlite3BitvecSize p' = sqlite3BitvecSize p \<and> bitvec_elems p' = bitvec_elems p - {i}"
    using r i by (auto simp: clear_notnull_def sqlite3BitvecClear_def bitvec_inv_def sqlite3BitvecSize_def)
qed

lemma Test_elems:
  assumes "bitvec_inv p" "i < 2 ^ 32"
  shows "sqlite3BitvecTest (Some p) i = Some (i \<in> bitvec_elems p)"
proof (cases "1 \<le> i \<and> i \<le> iSize p")
  case True
  then have "i - 1 < iSize p" by linarith
  then show ?thesis using assms True test_total [of p "i - 1"]
    by (simp add: sqlite3BitvecTest_def sqlite3BitvecTestNotNull_def bitvec_inv_def bitvec_elems_def dec32)
next
  case False
  then have "iSize p \<le> dec32 i" using assms by (cases "i = 0") (auto simp: bitvec_inv_def dec32 dec32_def [of 0])
  then show ?thesis using False by (auto simp: sqlite3BitvecTest_def sqlite3BitvecTestNotNull_def bitvec_elems_def)
qed


section \<open>Properties\<close>

text \<open>
  C32: The bitmap refines a set of numbers. After creating it and any sequence of set and clear
  operations on indices within its size, every operation has returned (no probe loop runs forever,
  no union member is read through the wrong view), and every membership test returns: a bit that
  tests true is in the set the operations describe, and when all operations returned SQLITE_OK,
  which they do if no allocation fails, the tests agree with that set exactly, for all indices of
  32 bits, within the size or not.
\<close>

theorem bitvec_refines_set:
  assumes "sz < 2 ^ 32" and "sqlite3BitvecCreate sz ms = (Some p, ms')"
    and "\<forall>x \<in> set ops. 1 \<le> op_index x \<and> op_index x \<le> sz"
  shows "\<exists>rcs p'. run_ops set_notnull clear_notnull p ops ms' = Some (rcs, p')
    \<and> (\<forall>i < 2 ^ 32. \<exists>b. sqlite3BitvecTest (Some p') i = Some b \<and> (b \<longrightarrow> i \<in> run_set ops {})
        \<and> (list_all (\<lambda>rc. rc = SQLITE_OK) rcs \<longrightarrow> b = (i \<in> run_set ops {})))
    \<and> (all_ok ms' \<longrightarrow> list_all (\<lambda>rc. rc = SQLITE_OK) rcs)"
proof -
  note c = Create_ok [OF assms(2,1)]
  have p: "bitvec_inv p" "sqlite3BitvecSize p = sz" "bitvec_elems p = {}"
    using c assms(1) by (auto simp: bitvec_inv_def sqlite3BitvecSize_def bitvec_elems_def)
  obtain rcs p' where r: "run_ops set_notnull clear_notnull p ops ms' = Some (rcs, p')" "bitvec_inv p'" "bitvec_elems p' \<subseteq> run_set ops {}"
      "list_all (\<lambda>rc. rc = 0) rcs \<longrightarrow> bitvec_elems p' = run_set ops {}" "all_ok ms' \<longrightarrow> list_all (\<lambda>rc. rc = 0) rcs"
    using bitvec.run_refines [OF p(1), of ops ms'] assms(3) p by auto
  show ?thesis using r Test_elems [OF r(2)] by auto
qed

theorem bitvec_refines_set_witness:
  "\<exists>p rcs p'. sqlite3BitvecCreate 100000 [] = (Some p, [])
    \<and> run_ops set_notnull clear_notnull p [Add 7, Add 131, Add 99999, Remove 7] [] = Some (rcs, p')
    \<and> sqlite3BitvecTest (Some p') 131 = Some True \<and> sqlite3BitvecTest (Some p') 7 = Some False"
proof -
  let ?ops = "[Add 7, Add 131, Add 99999, Remove 7]"
  obtain p where p: "sqlite3BitvecCreate 100000 [] = (Some p, [])" by (simp add: sqlite3BitvecCreate_def next_malloc_def)
  have "run_set ?ops {} = {131, 99999}" by auto
  then show ?thesis using bitvec_refines_set [of 100000 "[]" p "[]" ?ops] p by (auto simp: all_ok_def)
qed

end
