(* ===== verification/SC_Lifecycle.thy ===== *)
theory SC_Lifecycle
  imports SC_Allocator SC_Provider "HOL-Library.Monad_Syntax"
begin

unbundle bit_operations_syntax

text \<open>
  Start and end of the library, src/src/sqlcipher.c: \<open>sqlcipher_extra_init\<close> sets up the static
  mutexes, the private heap, a provider, the seed of the generator and the mask that hides keys,
  or takes everything down again; \<open>sqlcipher_extra_shutdown\<close> releases it all.

  The file-level variables are the record \<open>library\<close>. Which mutex allocations succeed, what the
  setup routine of the compiled-in provider and the initializer it installs return, and the
  provider itself are arguments, the record \<open>init_env\<close>. Using a provider whose memory is not
  allocated is a memory error, \<open>None\<close>. Log messages have no effect on the state.
\<close>

section \<open>Definitions\<close>

definition SQLCIPHER_MUTEX_COUNT :: nat where "SQLCIPHER_MUTEX_COUNT = 8"
definition SQLCIPHER_LOG_NONE :: u32 where "SQLCIPHER_LOG_NONE = 0"
definition SQLCIPHER_LOG_WARN :: u32 where "SQLCIPHER_LOG_WARN = push_bit 1 1"
definition SQLCIPHER_LOG_LEVEL_DEFAULT :: u32 where "SQLCIPHER_LOG_LEVEL_DEFAULT = SQLCIPHER_LOG_WARN"
definition sqlcipher_shield_mask_sz :: nat where "sqlcipher_shield_mask_sz = 32"

text \<open>Eighteen pointers.\<close>

definition sizeof_sqlcipher_provider :: nat where "sizeof_sqlcipher_provider = 144"

record library =
  lb_heap :: heap
  lb_registry :: registry
  sqlcipher_init :: bool
  sqlcipher_shutdown :: bool
  sqlcipher_cleanup :: bool
  sqlcipher_init_error :: rc
  sqlcipher_static_mutex :: "bool list"
  sqlcipher_shield_mask :: "nat option"
  sqlcipher_log_level :: u32
  sqlcipher_log_device :: bool
  sqlcipher_log_file :: "string option"
  sqlcipher_log_set :: bool
  master_mutex :: nat
  mutex_calls :: nat
  provider_calls :: nat
  atexit_handlers :: nat
  auto_extension :: bool

record init_env =
  ie_mutex_alloc :: "nat \<Rightarrow> bool"
  ie_device_log :: bool
  ie_setup :: rc
  ie_init :: "rc option"
  ie_provider :: provider

text \<open>The address is a block in use, on the private heap or of the system allocator.\<close>

definition in_use :: "nat \<Rightarrow> heap \<Rightarrow> bool" where
  "in_use p h \<longleftrightarrow> list_ex (\<lambda>(b, s, used). used \<and> p = b + sizeof_private_block) (heap_view h)
     \<or> sys_live h p \<noteq> None \<and> private_heap h \<noteq> Some p"

text \<open>The default provider is about to be called.\<close>

definition use_provider :: "library \<Rightarrow> unit option" where
  "use_provider l =
     (case default_provider (lb_registry l) of
        None \<Rightarrow> None | Some p \<Rightarrow> if in_use p (lb_heap l) then Some () else None)"

definition init_logging :: "init_env \<Rightarrow> library \<Rightarrow> library" where
  "init_logging env l =
     (if \<not> sqlcipher_log_set l then
        let l = (if sqlcipher_log_level l = SQLCIPHER_LOG_NONE then l\<lparr>sqlcipher_log_level := SQLCIPHER_LOG_LEVEL_DEFAULT\<rparr> else l);
            l = (if \<not> sqlcipher_log_device l \<and> sqlcipher_log_file l = None then
                   if ie_device_log env then l\<lparr>sqlcipher_log_device := True\<rparr> else l\<lparr>sqlcipher_log_file := Some ''stderr''\<rparr>
                 else l)
        in l\<lparr>sqlcipher_log_set := True\<rparr>
      else l)"

fun init_mutexes :: "init_env \<Rightarrow> nat list \<Rightarrow> library \<Rightarrow> rc \<times> library" where
  "init_mutexes env [] l = (SQLITE_OK, l)"
| "init_mutexes env (i # is) l =
     (if \<not> sqlcipher_static_mutex l ! i then
        let ok = ie_mutex_alloc env (mutex_calls l); l = l\<lparr>mutex_calls := mutex_calls l + 1\<rparr>
        in if ok then init_mutexes env is (l\<lparr>sqlcipher_static_mutex := (sqlcipher_static_mutex l)[i := True]\<rparr>)
           else (SQLITE_NOMEM, l)
      else init_mutexes env is l)"

text \<open>The first block covers the whole heap; \<open>xoshiro_randomness\<close> takes the size as an \<open>int\<close>.\<close>

definition init_head :: "nat \<Rightarrow> heap \<Rightarrow> heap" where
  "init_head a h =
     (let sz = private_heap_sz h; n = trunc32 sz; h = heap_randomness a (if n < 2 ^ 31 then n else 0) h
      in h\<lparr>private_heap := Some a,
           hp_blocks := (hp_blocks h)(a \<mapsto> \<lparr>pb_next = None, pb_size = trunc32 (n + 2 ^ 32 - sizeof_private_block), pb_used = False\<rparr>)\<rparr>)"

lemma internal_malloc_sz: "sqlcipher_internal_malloc sz h = (r, h') \<Longrightarrow> private_heap_sz h' = private_heap_sz h \<and> private_heap h' = private_heap h"
  by (auto simp: sqlcipher_internal_malloc_def sqlite3_malloc64_def split: option.splits)

function init_heap_loop :: "heap \<Rightarrow> heap" where
  "init_heap_loop h =
     (if private_heap_sz h \<ge> SQLCIPHER_PRIVATE_HEAP_SIZE_STEP then
        case sqlcipher_internal_malloc (private_heap_sz h) h of
          (Some a, h') \<Rightarrow> init_head a h'
        | (None, h') \<Rightarrow> init_heap_loop (h'\<lparr>private_heap_sz := private_heap_sz h' - SQLCIPHER_PRIVATE_HEAP_SIZE_STEP\<rparr>)
      else h)"
  by pat_completeness auto
termination
  by (relation "measure private_heap_sz") (auto simp: SQLCIPHER_PRIVATE_HEAP_SIZE_STEP_def dest: internal_malloc_sz [OF sym])

declare init_heap_loop.simps [simp del]

definition init_heap :: "library \<Rightarrow> rc \<times> library" where
  "init_heap l =
     (let l = (if private_heap (lb_heap l) = None then l\<lparr>lb_heap := init_heap_loop (lb_heap l)\<rparr> else l)
      in (if private_heap (lb_heap l) = None then SQLITE_NOMEM else SQLITE_OK, l))"

text \<open>Steps from here on also carry the local variables \<open>provider\<close> and \<open>provider_ctx\<close>.\<close>

type_synonym init_state = "library \<times> nat option \<times> bool"

definition register_default :: "init_env \<Rightarrow> init_state \<Rightarrow> (rc \<times> init_state) option" where
  "register_default env st =
     (let (l, _, ctx) = st
      in if sqlcipher_get_provider (lb_registry l) = None then do {
           (r, h) \<leftarrow> sqlcipher_malloc sizeof_sqlcipher_provider (lb_heap l);
           let l = l\<lparr>lb_heap := h\<rparr>;
           case r of
             None \<Rightarrow> Some (SQLITE_NOMEM, l, None, ctx)
           | Some p \<Rightarrow>
               if ie_setup env \<noteq> SQLITE_OK then Some (ie_setup env, l, Some p, ctx)
               else do {
                 (rc, reg) \<leftarrow> sqlcipher_register_provider (Some p) (ie_init env) (lb_registry l);
                 let l = l\<lparr>lb_registry := reg\<rparr>;
                 Some (rc, l, if rc \<noteq> SQLITE_OK then Some p else None, ctx)
               }
         }
         else Some (SQLITE_OK, st))"

definition u64_of_native :: "bytes \<Rightarrow> u64" where
  "u64_of_native bs = foldr (\<lambda>b v. push_bit 8 v OR ucast b) (take 8 bs) 0"

definition xoshiro_of_bytes :: "bytes \<Rightarrow> xoshiro" where
  "xoshiro_of_bytes bs =
     \<lparr>xs0 = u64_of_native bs, xs1 = u64_of_native (drop 8 bs), xs2 = u64_of_native (drop 16 bs), xs3 = u64_of_native (drop 24 bs)\<rparr>"

definition next_call :: "library \<Rightarrow> library" where
  "next_call l = l\<lparr>provider_calls := provider_calls l + 1\<rparr>"

definition init_seed :: "init_env \<Rightarrow> init_state \<Rightarrow> (rc \<times> init_state) option" where
  "init_seed env st = do {
     let (l, pr, _) = st;
     use_provider l;
     let rc = pv_ctx_init (ie_provider env) (provider_calls l);
     let l = next_call l;
     if rc \<noteq> SQLITE_OK then Some (rc, l, pr, False)
     else do {
       use_provider l;
       let (rc, bs) = pv_random (ie_provider env) (provider_calls l) 32;
       let l = next_call l;
       Some (rc, l\<lparr>lb_heap := (lb_heap l)\<lparr>hp_rng := xoshiro_of_bytes bs\<rparr>\<rparr>, pr, True)
     }
   }"

definition init_mask :: "init_env \<Rightarrow> init_state \<Rightarrow> (rc \<times> init_state) option" where
  "init_mask env st =
     (let (l, pr, ctx) = st
      in if sqlcipher_shield_mask l = None then
           let (r, h) = sqlcipher_internal_malloc sqlcipher_shield_mask_sz (lb_heap l); l = l\<lparr>lb_heap := h\<rparr>
           in case r of
                None \<Rightarrow> Some (SQLITE_NOMEM, l, pr, ctx)
              | Some m \<Rightarrow> do {
                  let l = l\<lparr>sqlcipher_shield_mask := Some m\<rparr>;
                  use_provider l;
                  let (rc, bs) = pv_random (ie_provider env) (provider_calls l) sqlcipher_shield_mask_sz;
                  let l = next_call l;
                  Some (rc, l\<lparr>lb_heap := (lb_heap l)\<lparr>hp_mem := mem_write m bs (hp_mem (lb_heap l))\<rparr>\<rparr>, pr, ctx)
                }
         else Some (SQLITE_OK, st))"

text \<open>Releasing what the error path and the shutdown both release.\<close>

definition free_private_heap :: "library \<Rightarrow> library" where
  "free_private_heap l =
     (case private_heap (lb_heap l) of
        None \<Rightarrow> l
      | Some a \<Rightarrow> l\<lparr>lb_heap := (sqlcipher_internal_free a (private_heap_sz (lb_heap l)) (lb_heap l))\<lparr>private_heap := None\<rparr>\<rparr>)"

definition free_mask :: "library \<Rightarrow> library" where
  "free_mask l =
     (case sqlcipher_shield_mask l of
        None \<Rightarrow> l
      | Some m \<Rightarrow> l\<lparr>lb_heap := sqlcipher_internal_free m sqlcipher_shield_mask_sz (lb_heap l), sqlcipher_shield_mask := None\<rparr>)"

definition free_mutexes :: "library \<Rightarrow> library" where
  "free_mutexes l = l\<lparr>sqlcipher_static_mutex := map (\<lambda>_. False) (sqlcipher_static_mutex l)\<rparr>"

text \<open>
  Label \<open>error\<close>. Releasing a provider context calls the default provider, and sets the context
  of the caller to NULL.
\<close>

definition init_error :: "rc \<Rightarrow> init_state \<Rightarrow> (rc \<times> library) option" where
  "init_error rc st = do {
     let (l, pr, ctx) = st;
     l \<leftarrow> (case pr of
             None \<Rightarrow> Some l
           | Some p \<Rightarrow> do { h \<leftarrow> sqlcipher_free p sizeof_sqlcipher_provider (lb_heap l); Some (l\<lparr>lb_heap := h\<rparr>) });
     let l = free_mutexes (free_mask (free_private_heap l));
     (if ctx then use_provider l else Some ());
     let l = l\<lparr>master_mutex := master_mutex l - 1, sqlcipher_init_error := rc\<rparr>;
     Some (rc, l)
   }"

definition init_done :: "init_state \<Rightarrow> (rc \<times> library) option" where
  "init_done st = do {
     let (l, _, _) = st;
     use_provider l;
     Some (SQLITE_OK, l\<lparr>sqlcipher_init := True, sqlcipher_shutdown := False, master_mutex := master_mutex l - 1, auto_extension := True\<rparr>)
   }"

text \<open>The steps that need the default provider, and the whole sequence.\<close>

definition init_late :: "init_env \<Rightarrow> init_state \<Rightarrow> (rc \<times> library) option" where
  "init_late env st = do {
     (rc, st) \<leftarrow> init_seed env st;
     if rc \<noteq> SQLITE_OK then init_error rc st
     else do {
       (rc, st) \<leftarrow> init_mask env st;
       if rc \<noteq> SQLITE_OK then init_error rc st else init_done st
     }
   }"

definition sqlcipher_extra_init :: "init_env \<Rightarrow> library \<Rightarrow> (rc \<times> library) option" where
  "sqlcipher_extra_init env l = do {
     let l = l\<lparr>master_mutex := master_mutex l + 1\<rparr>;
     if sqlcipher_init l then Some (SQLITE_OK, l\<lparr>master_mutex := master_mutex l - 1\<rparr>)
     else do {
       let l = (if \<not> sqlcipher_cleanup l then l\<lparr>atexit_handlers := atexit_handlers l + 1, sqlcipher_cleanup := True\<rparr> else l);
       let (rc, l) = init_mutexes env [0..<SQLCIPHER_MUTEX_COUNT] (init_logging env l);
       if rc \<noteq> SQLITE_OK then init_error rc (l, None, False)
       else do {
         let (rc, l) = init_heap l;
         if rc \<noteq> SQLITE_OK then init_error rc (l, None, False)
         else do {
           (rc, st) \<leftarrow> register_default env (l, None, False);
           if rc \<noteq> SQLITE_OK then init_error rc st else init_late env st
         }
       }
     }
   }"

text \<open>The provider list, each structure read before it is released; the shutdown functions act outside.\<close>

partial_function (option) free_providers :: "(nat \<Rightarrow> nat option) \<Rightarrow> nat option \<Rightarrow> heap \<Rightarrow> heap option" where
  "free_providers N pr h =
     (case pr of
        None \<Rightarrow> Some h
      | Some p \<Rightarrow>
          if in_use p h then do { h \<leftarrow> sqlcipher_free p sizeof_sqlcipher_provider h; free_providers N (N p) h }
          else None)"

text \<open>With \<open>SQLCIPHER_TEST\<close> defined a heap that is not empty is kept.\<close>

definition heap_unfreed :: "heap \<Rightarrow> nat" where
  "heap_unfreed h = sum_list (map (\<lambda>(b, s, used). if used then s else 0) (heap_view h))"

definition sqlcipher_extra_shutdown :: "bool \<Rightarrow> library \<Rightarrow> library option" where
  "sqlcipher_extra_shutdown sqlcipher_test l = do {
     l \<leftarrow> (if \<not> sqlcipher_init l \<or> sqlcipher_shutdown l then Some l
           else do {
             let l = free_mask l;
             h \<leftarrow> free_providers (reg_next (lb_registry l)) (default_provider (lb_registry l)) (lb_heap l);
             let l = l\<lparr>lb_heap := h, lb_registry := (lb_registry l)\<lparr>default_provider := None\<rparr>\<rparr>;
             let l = (if sqlcipher_test \<and> heap_unfreed (lb_heap l) > 0 then l else free_private_heap l);
             Some (free_mutexes l)
           });
     Some (l\<lparr>sqlcipher_init := False, sqlcipher_init_error := SQLITE_ERROR, sqlcipher_shutdown := True\<rparr>)
   }"

definition sqlcipher_mutex :: "library \<Rightarrow> int \<Rightarrow> nat option" where
  "sqlcipher_mutex l k =
     (if k < 0 \<or> k \<ge> int SQLCIPHER_MUTEX_COUNT then None
      else if sqlcipher_static_mutex l ! nat k then Some (nat k) else None)"

definition sqlcipher_atexit :: "bool \<Rightarrow> library \<Rightarrow> library option" where
  "sqlcipher_atexit sqlcipher_test l = sqlcipher_extra_shutdown sqlcipher_test l"

definition sqlcipher_fini :: "bool \<Rightarrow> library \<Rightarrow> library option" where
  "sqlcipher_fini sqlcipher_test l = sqlcipher_extra_shutdown sqlcipher_test l"


section \<open>The heap through init and shutdown\<close>

lemma in_use_live: "in_use p h \<longleftrightarrow> (\<exists>z. (p, z) \<in> live h)"
  unfolding in_use_def live_def used_blocks_def list_ex_iff sizeof_private_block_def by auto

lemma live_no_heap: "private_heap h = None \<Longrightarrow> heap_inv h \<Longrightarrow> heap_view h = [] \<and> live h = {(p, t). sys_live h p = Some t}"
  by (auto simp: live_def heap_inv_def heap_inv_of_def region_inv_def)

text \<open>A heap with its first block covers the whole region.\<close>

lemma init_head_inv:
  assumes "heap_inv h" "private_heap h = None" "sys_live h a = Some (private_heap_sz h)" "8 dvd a" "8 dvd private_heap_sz h" "16 < private_heap_sz h"
  shows "heap_inv (init_head a h)" "heap_view (init_head a h) = [(a, private_heap_sz h - 16, False)]"
    "private_heap (init_head a h) = Some a" "sys_live (init_head a h) = sys_live h" "private_heap_sz (init_head a h) = private_heap_sz h"
proof -
  have i: "heap_inv_of h []" using assms(1) live_no_heap [OF assms(2,1)] by (simp add: heap_inv_def)
  then have sz: "private_heap_sz h < 2 ^ 32" by (simp add: heap_inv_of_def)
  obtain g x where r: "heap_randomness a (if trunc32 (private_heap_sz h) < 2 ^ 31 then trunc32 (private_heap_sz h) else 0) h = h\<lparr>hp_mem := g, hp_rng := x\<rparr>"
    using heap_randomness_frame by blast
  have "(private_heap_sz h + 2 ^ 32 - 16) mod 2 ^ 32 = (private_heap_sz h - 16 + 2 ^ 32) mod 2 ^ 32" using assms(6) by simp
  also have "\<dots> = private_heap_sz h - 16" using sz by simp
  finally have t: "trunc32 (trunc32 (private_heap_sz h) + 2 ^ 32 - 16) = private_heap_sz h - 16" using sz by (simp add: trunc32_def)
  have h': "init_head a h = h\<lparr>hp_mem := g, hp_rng := x, private_heap := Some a,
      hp_blocks := (hp_blocks h)(a \<mapsto> \<lparr>pb_next = None, pb_size = private_heap_sz h - 16, pb_used = False\<rparr>)\<rparr>"
    using r t by (simp add: init_head_def Let_def sizeof_private_block_def)
  have "heap_inv_of (init_head a h) [(a, private_heap_sz h - 16, False)]"
    using i assms(3-6) unfolding h' by (auto simp: heap_inv_of_def region_inv_def)
  from heap_inv_intro [OF this] show "heap_inv (init_head a h)" "heap_view (init_head a h) = [(a, private_heap_sz h - 16, False)]" by simp_all
  show "private_heap (init_head a h) = Some a" "sys_live (init_head a h) = sys_live h" "private_heap_sz (init_head a h) = private_heap_sz h"
    by (simp_all add: h')
qed

lemma heap_inv_sz: "heap_inv h \<Longrightarrow> private_heap h = None \<Longrightarrow> sz < 2 ^ 32 \<Longrightarrow> heap_inv (h\<lparr>private_heap_sz := sz\<rparr>)"
proof -
  assume a: "heap_inv h" "private_heap h = None" "sz < 2 ^ 32"
  then have "heap_inv_of (h\<lparr>private_heap_sz := sz\<rparr>) []" using live_no_heap [OF a(2,1)] by (simp add: heap_inv_def heap_inv_of_def region_inv_def)
  then show ?thesis using heap_inv_intro by blast
qed

definition heap_down :: "heap \<Rightarrow> bool" where
  "heap_down h \<longleftrightarrow> heap_inv h \<and> private_heap h = None \<and> 8 dvd private_heap_sz h"

text \<open>The new heap is one free block, or there is none; no other block of the system is touched.\<close>

definition heap_started :: "heap \<Rightarrow> heap \<Rightarrow> bool" where
  "heap_started h h' \<longleftrightarrow> (\<exists>a s. heap_inv h' \<and> private_heap h' = Some a \<and> heap_view h' = [(a, s, False)] \<and> 16368 \<le> s
     \<and> 8 dvd private_heap_sz h' \<and> sys_live h a = None \<and> sys_live h' = (sys_live h)(a \<mapsto> private_heap_sz h'))"

lemma init_heap_loop_post:
  "heap_down h \<Longrightarrow> heap_down (init_heap_loop h) \<and> sys_live (init_heap_loop h) = sys_live h \<or> heap_started h (init_heap_loop h)"
proof (induction h rule: init_heap_loop.induct)
  case (1 h)
  have d: "heap_inv h" "private_heap h = None" "8 dvd private_heap_sz h" using 1(2) by (simp_all add: heap_down_def)
  show ?case
  proof (cases "SQLCIPHER_PRIVATE_HEAP_SIZE_STEP \<le> private_heap_sz h")
    case True
    then have big: "16384 \<le> private_heap_sz h" by (simp add: SQLCIPHER_PRIVATE_HEAP_SIZE_STEP_def)
    obtain r h' where m: "sqlcipher_internal_malloc (private_heap_sz h) h = (r, h')" by fastforce
    note sz = internal_malloc_sz [OF m]
    have post: "heap_inv h'" "\<And>p. r = Some p \<Longrightarrow> sys_live h' p = Some (private_heap_sz h)"
      using internal_malloc_inv [OF d(1) _ m] big by auto
    show ?thesis
    proof (cases r)
      case None
      then have s: "sys_live h' = sys_live h" using m by (auto simp: sqlcipher_internal_malloc_def sqlite3_malloc64_def split: option.splits)
      let ?h = "h'\<lparr>private_heap_sz := private_heap_sz h' - SQLCIPHER_PRIVATE_HEAP_SIZE_STEP\<rparr>"
      have "private_heap_sz h < 2 ^ 32" using d(1) by (simp add: heap_inv_def heap_inv_of_def)
      then have "heap_down ?h" using heap_inv_sz [OF post(1)] sz d big by (simp add: heap_down_def SQLCIPHER_PRIVATE_HEAP_SIZE_STEP_def)
      then show ?thesis using 1(1) [OF True m [symmetric] None] True m None s by (simp add: init_heap_loop.simps [of h] heap_started_def)
    next
      case (Some a)
      have al: "8 dvd a" "sys_live h a = None" "sys_live h' = (sys_live h)(a \<mapsto> private_heap_sz h)"
      proof -
        have f: "sys_malloc h (sys_calls h) (sys_live h) (private_heap_sz h) = Some a" "sys_live h' = (sys_live h)(a \<mapsto> private_heap_sz h)"
          using m Some by (auto simp: sqlcipher_internal_malloc_def sqlite3_malloc64_def split: option.splits)
        have o: "sys_malloc_ok (sys_malloc h)" "sys_inv (sys_live h)" using d(1) by (auto simp: heap_inv_def heap_inv_of_def)
        then show "8 dvd a" using f(1) by (auto simp: sys_malloc_ok_def)
        show "sys_live h a = None" using sys_inv_insert [OF o(2), of "private_heap_sz h" a] f(1) o(1) big by (auto simp: sys_malloc_ok_def)
        show "sys_live h' = (sys_live h)(a \<mapsto> private_heap_sz h)" by (rule f(2))
      qed
      have e: "init_heap_loop h = init_head a h'" using True m Some by (simp add: init_heap_loop.simps [of h])
      have "heap_started h (init_head a h')"
        unfolding heap_started_def using init_head_inv [OF post(1), of a] post(2) [OF Some] sz d al big by auto
      then show ?thesis unfolding e by blast
    qed
  next
    case False
    then show ?thesis using 1(2) by (simp add: init_heap_loop.simps [of h])
  qed
qed

lemma heap_started_live:
  assumes "heap_down h" "heap_started h h'"
  shows "live h' = live h"
proof -
  obtain a s where a: "heap_inv h'" "private_heap h' = Some a" "heap_view h' = [(a, s, False)]" "sys_live h a = None"
      "sys_live h' = (sys_live h)(a \<mapsto> private_heap_sz h')"
    using assms(2) unfolding heap_started_def by blast
  have "live h = {(p, t). sys_live h p = Some t}" using assms(1) live_no_heap by (simp add: heap_down_def)
  then show ?thesis using a by (auto simp: live_def split: if_splits)
qed

lemma heap_started_sz: "heap_started h h' \<Longrightarrow> 16384 \<le> private_heap_sz h'"
  unfolding heap_started_def by (auto dest: heap_view_tiles)

text \<open>The provider structure is carved from the front of the new heap.\<close>

lemma malloc_provider:
  assumes "heap_started h h'"
  shows "\<exists>a z h2. sqlcipher_malloc sizeof_sqlcipher_provider h' = Some (Some (a + 16), h2) \<and> heap_inv h2 \<and> private_heap h' = Some a
    \<and> private_heap h2 = Some a \<and> private_heap_sz h2 = private_heap_sz h' \<and> sys_live h2 = sys_live h' \<and> live h2 = insert (a + 16, z) (live h') \<and> 144 \<le> z
    \<and> sys_malloc h2 = sys_malloc h' \<and> used_blocks (heap_view h2) = {(a + 16, 144)}"
proof -
  obtain a s where a: "heap_inv h'" "private_heap h' = Some a" "heap_view h' = [(a, s, False)]" "16368 \<le> s"
    using assms unfolding heap_started_def by blast
  have r: "SQLCIPHER_PRIVATE_HEAP_ROUNDUP 144 = 144" by (simp add: SQLCIPHER_PRIVATE_HEAP_ROUNDUP_def SQLCIPHER_PRIVATE_HEAP_ALIGNMENT_def)
  obtain x h2 where m: "sqlcipher_malloc 144 h' = Some (x, h2)" "heap_inv h2" "case x of None \<Rightarrow> live h2 = live h' | Some p \<Rightarrow> 0 < (144 :: nat) \<and> alloc_post 144 h' p h2"
      "malloc_view 144 h' x h2"
    using sqlcipher_malloc_post [OF a(1), of 144] by blast
  have x: "x = Some (a + 16)" "sys_live h2 = sys_live h'" "used_blocks (heap_view h2) = {(a + 16, 144)}"
    using m(4) a(3,4) by (auto simp: malloc_view_def r SQLITE_MAX_LENGTH_def)
  obtain z where "144 \<le> z" "live h2 = insert (a + 16, z) (live h')" using m(3) x(1) unfolding alloc_post_def by auto
  moreover have "private_heap h2 = Some a \<and> private_heap_sz h2 = private_heap_sz h' \<and> sys_malloc h2 = sys_malloc h'"
    using m(1) a(2) by (auto simp: sqlcipher_malloc_def sqlcipher_internal_malloc_def sqlite3_malloc64_def Let_def split: if_splits option.splits)
  ultimately show ?thesis using m(1,2) x a(2) by (auto simp: sizeof_sqlcipher_provider_def)
qed

definition providers_ok :: "library \<Rightarrow> nat list \<Rightarrow> bool" where
  "providers_ok l ps \<longleftrightarrow> registered (lb_registry l) ps \<and> (\<forall>p \<in> set ps. \<exists>z \<ge> 144. (p, z) \<in> live (lb_heap l))"

text \<open>The library at rest, running, and after a failed start.\<close>

definition lib_down :: "library \<Rightarrow> nat list \<Rightarrow> bool" where
  "lib_down l ps \<longleftrightarrow> heap_down (lb_heap l) \<and> sqlcipher_shield_mask l = None \<and> \<not> sqlcipher_init l
     \<and> length (sqlcipher_static_mutex l) = 8 \<and> master_mutex l = 0 \<and> providers_ok l ps"

definition lib_up :: "library \<Rightarrow> nat list \<Rightarrow> nat \<Rightarrow> bool" where
  "lib_up l ps m \<longleftrightarrow> heap_inv (lb_heap l) \<and> private_heap (lb_heap l) \<noteq> None \<and> 8 dvd private_heap_sz (lb_heap l)
     \<and> sqlcipher_shield_mask l = Some m \<and> sys_live (lb_heap l) m = Some 32 \<and> private_heap (lb_heap l) \<noteq> Some m
     \<and> sqlcipher_init l \<and> \<not> sqlcipher_shutdown l \<and> sqlcipher_static_mutex l = replicate 8 True \<and> master_mutex l = 0
     \<and> providers_ok l ps \<and> ps \<noteq> [] \<and> m \<notin> set ps"

definition torn_down :: "heap \<Rightarrow> rc \<Rightarrow> library \<Rightarrow> bool" where
  "torn_down h rc l' \<longleftrightarrow> \<not> sqlcipher_init l' \<and> sqlcipher_init_error l' = rc \<and> private_heap (lb_heap l') = None \<and> sqlcipher_shield_mask l' = None
     \<and> sqlcipher_static_mutex l' = replicate 8 False \<and> master_mutex l' = 0 \<and> sys_live (lb_heap l') = sys_live h"

lemma init_mutexes_post:
  "init_mutexes env is l = (rc, l') \<Longrightarrow> \<exists>M k. l' = l\<lparr>sqlcipher_static_mutex := M, mutex_calls := k\<rparr> \<and> length M = length (sqlcipher_static_mutex l)
     \<and> (\<forall>j. sqlcipher_static_mutex l ! j \<longrightarrow> j < length M \<longrightarrow> M ! j) \<and> (rc = 0 \<longrightarrow> (\<forall>i \<in> set is. i < length M \<longrightarrow> M ! i))
     \<and> ((\<forall>n. ie_mutex_alloc env n) \<longrightarrow> rc = 0)"
proof (induction "is" arbitrary: l)
  case Nil
  then show ?case by (intro exI [of _ "sqlcipher_static_mutex l"] exI [of _ "mutex_calls l"]) auto
next
  case (Cons i "is")
  let ?l = "l\<lparr>mutex_calls := mutex_calls l + 1\<rparr>"
  consider "sqlcipher_static_mutex l ! i" | "\<not> sqlcipher_static_mutex l ! i" "ie_mutex_alloc env (mutex_calls l)"
    | "\<not> sqlcipher_static_mutex l ! i" "\<not> ie_mutex_alloc env (mutex_calls l)" by blast
  then show ?case
  proof cases
    case 1
    then have "init_mutexes env is l = (rc, l')" using Cons(2) by simp
    then obtain M k where M: "l' = l\<lparr>sqlcipher_static_mutex := M, mutex_calls := k\<rparr>" "length M = length (sqlcipher_static_mutex l)"
        "\<forall>j. sqlcipher_static_mutex l ! j \<longrightarrow> j < length M \<longrightarrow> M ! j" "rc = 0 \<longrightarrow> (\<forall>i \<in> set is. i < length M \<longrightarrow> M ! i)"
        "(\<forall>n. ie_mutex_alloc env n) \<longrightarrow> rc = 0"
      using Cons(1) by blast
    then show ?thesis using 1 by (intro exI [of _ M] exI [of _ k]) simp
  next
    case c: 2
    let ?l1 = "?l\<lparr>sqlcipher_static_mutex := (sqlcipher_static_mutex l)[i := True]\<rparr>"
    have "init_mutexes env is ?l1 = (rc, l')" using Cons(2) c by (simp add: Let_def)
    from Cons(1) [OF this] obtain M k where M0: "l' = ?l1\<lparr>sqlcipher_static_mutex := M, mutex_calls := k\<rparr>"
        "length M = length (sqlcipher_static_mutex ?l1)" "\<forall>j. sqlcipher_static_mutex ?l1 ! j \<longrightarrow> j < length M \<longrightarrow> M ! j"
        "rc = 0 \<longrightarrow> (\<forall>i \<in> set is. i < length M \<longrightarrow> M ! i)" "(\<forall>n. ie_mutex_alloc env n) \<longrightarrow> rc = 0"
      by blast
    note M = M0(1) M0(2,3) [simplified] M0(4,5)
    have "sqlcipher_static_mutex l ! j \<Longrightarrow> j < length M \<Longrightarrow> M ! j" for j using M(2,3) by (cases "i = j") auto
    moreover have "i < length M \<Longrightarrow> M ! i" using M(2,3) by simp
    ultimately show ?thesis using M by (intro exI [of _ M] exI [of _ k]) simp
  next
    case 3
    then have "rc = 7" "l' = ?l" using Cons(2) by (simp_all add: Let_def)
    then show ?thesis using 3 by (intro exI [of _ "sqlcipher_static_mutex l"] exI [of _ "mutex_calls l + 1"]) auto
  qed
qed

text \<open>The first step: nothing but the logging settings and the mutexes has changed.\<close>

definition early :: "library \<Rightarrow> library \<Rightarrow> bool" where
  "early l l1 \<longleftrightarrow> lb_heap l1 = lb_heap l \<and> lb_registry l1 = lb_registry l \<and> sqlcipher_shield_mask l1 = None \<and> \<not> sqlcipher_init l1
     \<and> length (sqlcipher_static_mutex l1) = 8 \<and> master_mutex l1 = 1 \<and> provider_calls l1 = provider_calls l"

lemma extra_init_early:
  assumes "lib_down l ps"
  shows "\<exists>rc l1. early l l1 \<and> (rc = 0 \<longrightarrow> sqlcipher_static_mutex l1 = replicate 8 True) \<and> ((\<forall>n. ie_mutex_alloc env n) \<longrightarrow> rc = 0)
    \<and> sqlcipher_extra_init env l = (if rc \<noteq> 0 then init_error rc (l1, None, False)
        else do {
          let (rc, l) = init_heap l1;
          if rc \<noteq> 0 then init_error rc (l, None, False)
          else do { (rc, st) \<leftarrow> register_default env (l, None, False); if rc \<noteq> 0 then init_error rc st else init_late env st }
        })"
proof -
  let ?a = "l\<lparr>master_mutex := master_mutex l + 1\<rparr>"
  define b where "b = (if \<not> sqlcipher_cleanup ?a then ?a\<lparr>atexit_handlers := atexit_handlers ?a + 1, sqlcipher_cleanup := True\<rparr> else ?a)"
  have b: "early l (init_logging env b)" using assms by (simp add: early_def b_def init_logging_def lib_down_def Let_def)
  obtain rc l1 where m: "init_mutexes env [0..<8] (init_logging env b) = (rc, l1)" by fastforce
  obtain M k where M: "l1 = (init_logging env b)\<lparr>sqlcipher_static_mutex := M, mutex_calls := k\<rparr>" "length M = length (sqlcipher_static_mutex (init_logging env b))"
      "rc = 0 \<longrightarrow> (\<forall>i \<in> set [0..<8]. i < length M \<longrightarrow> M ! i)" "(\<forall>n. ie_mutex_alloc env n) \<longrightarrow> rc = 0"
    using init_mutexes_post [OF m] by blast
  have len: "length M = 8" using M(2) b by (simp add: early_def)
  have "early l l1" using b len by (simp add: M(1) early_def)
  moreover have "rc = 0 \<longrightarrow> sqlcipher_static_mutex l1 = replicate 8 True"
    using M(3) len by (auto simp: M(1) intro!: nth_equalityI)
  moreover have "sqlcipher_extra_init env l = (case init_mutexes env [0..<8] (init_logging env b) of (rc, l) \<Rightarrow>
      if rc \<noteq> 0 then init_error rc (l, None, False)
      else do {
        let (rc, l) = init_heap l;
        if rc \<noteq> 0 then init_error rc (l, None, False)
        else do { (rc, st) \<leftarrow> register_default env (l, None, False); if rc \<noteq> 0 then init_error rc st else init_late env st }
      })"
    using assms by (simp add: sqlcipher_extra_init_def Let_def lib_down_def b_def SQLCIPHER_MUTEX_COUNT_def)
  ultimately show ?thesis using M(4) by (intro exI [of _ rc] exI [of _ l1]) (simp add: m)
qed

lemma sqlcipher_free_region: "sqlcipher_free p n h = Some h' \<Longrightarrow> private_heap h' = private_heap h \<and> private_heap_sz h' = private_heap_sz h \<and> sys_malloc h' = sys_malloc h"
  by (auto simp: sqlcipher_free_def sqlcipher_internal_free_def sqlite3_free_def heap_randomness_def Let_def case_prod_unfold
      split: option.splits prod.splits)

lemma free_first_block:
  assumes "heap_inv h" "private_heap h = Some a" "sqlcipher_free (a + 16) n h = Some h'"
  shows "sys_live h' = sys_live h"
proof -
  obtain t bs where "heap_view h = t # bs" using heap_view_tiles [OF assms(1,2)] by (cases "heap_view h") auto
  then obtain blk where "hp_blocks h a = Some blk"
    using assms(1,2) by (cases t) (auto simp: heap_inv_def heap_inv_of_def)
  then have "free_find (hp_blocks h) (a + 16) (None, Some a) = Some (Some (None, a))"
    by (subst free_find.simps) (simp add: sizeof_private_block_def)
  then show ?thesis using assms(2,3)
    by (auto simp: sqlcipher_free_def heap_randomness_def Let_def case_prod_unfold split: option.splits prod.splits)
qed

lemma heap_cells [simp]:
  "heap_inv (h\<lparr>hp_mem := x\<rparr>) = heap_inv h" "heap_inv (h\<lparr>hp_rng := g\<rparr>) = heap_inv h" "live (h\<lparr>hp_mem := x\<rparr>) = live h" "live (h\<lparr>hp_rng := g\<rparr>) = live h"
  by (simp_all add: heap_inv_def heap_inv_of_def heap_view_def region_inv_def live_def)

text \<open>The state once the heap is up: the system has given the heap and, later, the mask.\<close>

definition started :: "heap \<Rightarrow> library \<Rightarrow> nat \<Rightarrow> bool" where
  "started h l a \<longleftrightarrow> heap_inv (lb_heap l) \<and> private_heap (lb_heap l) = Some a \<and> 8 dvd private_heap_sz (lb_heap l) \<and> sys_live h a = None
     \<and> 16384 \<le> private_heap_sz (lb_heap l) \<and> sys_malloc (lb_heap l) = sys_malloc h \<and> \<not> sqlcipher_init l \<and> master_mutex l = 1 \<and> sqlcipher_static_mutex l = replicate 8 True
     \<and> (case sqlcipher_shield_mask l of
          None \<Rightarrow> sys_live (lb_heap l) = (sys_live h)(a \<mapsto> private_heap_sz (lb_heap l))
        | Some m \<Rightarrow> m \<noteq> a \<and> sys_live h m = None \<and> sys_live (lb_heap l) = (sys_live h)(a \<mapsto> private_heap_sz (lb_heap l), m \<mapsto> 32))"

lemma internal_free_frame:
  "private_heap (sqlcipher_internal_free p n h) = private_heap h" "sys_live (sqlcipher_internal_free p n h) = (sys_live h)(p := None)"
  "private_heap_sz (sqlcipher_internal_free p n h) = private_heap_sz h" "sys_malloc (sqlcipher_internal_free p n h) = sys_malloc h"
  by (simp_all add: sqlcipher_internal_free_def sqlite3_free_def heap_randomness_def Let_def case_prod_unfold)

lemma in_use_no_heap: "private_heap h = None \<Longrightarrow> in_use p h \<longleftrightarrow> sys_live h p \<noteq> None"
proof -
  assume a: "private_heap h = None"
  have "walk n B None = []" for n B by (cases n) simp_all
  then show ?thesis using a by (simp add: in_use_def heap_view_def)
qed

lemma init_error_started:
  assumes "started h l a"
  shows "init_error rc (l, None, ctx) = None \<and> ctx \<and> \<not> (\<exists>d. default_provider (lb_registry l) = Some d \<and> sys_live h d \<noteq> None)
    \<or> (\<exists>l'. init_error rc (l, None, ctx) = Some (rc, l') \<and> torn_down h rc l') \<and> (ctx \<longrightarrow> (\<exists>d. default_provider (lb_registry l) = Some d \<and> sys_live h d \<noteq> None))"
proof -
  let ?l = "free_mutexes (free_mask (free_private_heap l))"
  have s: "sys_live (lb_heap ?l) = sys_live h" "private_heap (lb_heap ?l) = None" "sqlcipher_shield_mask ?l = None"
    using assms by (auto simp: started_def free_mutexes_def free_mask_def free_private_heap_def internal_free_frame split: option.splits)
  have f: "lb_registry ?l = lb_registry l" "sqlcipher_init ?l = sqlcipher_init l" "master_mutex ?l = master_mutex l"
    "sqlcipher_static_mutex ?l = map (\<lambda>_. False) (sqlcipher_static_mutex l)"
    by (simp_all add: free_mutexes_def free_mask_def free_private_heap_def split: option.splits)
  have u: "use_provider ?l = (case default_provider (lb_registry l) of None \<Rightarrow> None | Some d \<Rightarrow> if sys_live h d \<noteq> None then Some () else None)"
    using in_use_no_heap [OF s(2)] s(1) f(1) by (simp add: use_provider_def split: option.splits)
  have "init_error rc (l, None, ctx) = do { (if ctx then use_provider ?l else Some ());
      Some (rc, ?l\<lparr>master_mutex := master_mutex ?l - 1, sqlcipher_init_error := rc\<rparr>) }" by (simp add: init_error_def Let_def)
  moreover have "torn_down h rc (?l\<lparr>master_mutex := master_mutex ?l - 1, sqlcipher_init_error := rc\<rparr>)"
    using s f assms by (simp add: torn_down_def started_def)
  ultimately show ?thesis using u by (cases ctx) (auto split: option.splits if_splits)
qed

text \<open>A request for the mask that is refused, and a step that goes wrong after the context of the provider exists.\<close>

definition mask_refused :: "heap \<Rightarrow> bool" where
  "mask_refused h \<longleftrightarrow> (\<exists>k a s. sys_live h a = None \<and> sys_malloc h k ((sys_live h)(a \<mapsto> s)) sqlcipher_shield_mask_sz = None)"

definition late_failure :: "init_env \<Rightarrow> heap \<Rightarrow> nat \<Rightarrow> bool" where
  "late_failure env h n \<longleftrightarrow> pv_ctx_init (ie_provider env) n = SQLITE_OK
     \<and> (fst (pv_random (ie_provider env) (n + 1) 32) \<noteq> SQLITE_OK \<or> fst (pv_random (ie_provider env) (n + 2) 32) \<noteq> SQLITE_OK
        \<or> mask_refused h)"

text \<open>What is in use on the private heap are providers, and the system has given the heap and the mask.\<close>

definition only_providers :: "heap \<Rightarrow> nat list \<Rightarrow> bool" where
  "only_providers h ps \<longleftrightarrow> fst ` used_blocks (heap_view h) \<subseteq> set ps"

definition system_blocks :: "heap \<Rightarrow> heap \<Rightarrow> nat \<Rightarrow> bool" where
  "system_blocks h h' m \<longleftrightarrow> (\<exists>a. private_heap h' = Some a \<and> sys_live h a = None \<and> sys_live h m = None \<and> 16384 \<le> private_heap_sz h' \<and> sys_malloc h' = sys_malloc h
     \<and> sys_live h' = (sys_live h)(a \<mapsto> private_heap_sz h', m \<mapsto> 32))"

definition env_works :: "init_env \<Rightarrow> heap \<Rightarrow> bool" where
  "env_works env h \<longleftrightarrow> (\<forall>n. ie_mutex_alloc env n) \<and> ie_setup env = SQLITE_OK \<and> ie_init env \<in> {None, Some SQLITE_OK}
     \<and> (\<forall>n. pv_ctx_init (ie_provider env) n = SQLITE_OK) \<and> (\<forall>n k. fst (pv_random (ie_provider env) n k) = SQLITE_OK)
     \<and> (\<forall>n sz. sys_malloc h n (sys_live h) sz \<noteq> None) \<and> \<not> mask_refused h \<and> SQLCIPHER_PRIVATE_HEAP_SIZE_STEP \<le> private_heap_sz h"

definition init_outcome :: "init_env \<Rightarrow> (rc \<times> library) option \<Rightarrow> heap \<Rightarrow> nat list \<Rightarrow> bool \<Rightarrow> bool" where
  "init_outcome env r h ps bad \<longleftrightarrow> (\<exists>l' m. r = Some (SQLITE_OK, l') \<and> lib_up l' ps m \<and> only_providers (lb_heap l') ps \<and> system_blocks h (lb_heap l') m)
     \<or> (\<exists>rc l'. rc \<noteq> SQLITE_OK \<and> r = Some (rc, l') \<and> torn_down h rc l' \<and> \<not> env_works env h) \<or> r = None \<and> bad"

lemma env_works_random: "env_works env h \<Longrightarrow> pv_random (ie_provider env) n k = (rc, bs) \<Longrightarrow> rc = 0"
  unfolding env_works_def by (metis fst_conv)

lemma init_error_outcome:
  assumes "started h l a" "rc \<noteq> 0" "\<not> env_works env h" "ctx \<Longrightarrow> \<not> (\<exists>d. default_provider (lb_registry l) = Some d \<and> sys_live h d \<noteq> None) \<Longrightarrow> bad"
  shows "init_outcome env (init_error rc (l, None, ctx)) h ps bad"
  using init_error_started [OF assms(1), of rc ctx] assms(2-4) unfolding init_outcome_def by blast

lemma use_provider_ok:
  assumes "default_provider (lb_registry l) = Some d" "(d, z) \<in> live (lb_heap l)"
  shows "use_provider l = Some ()"
  using assms by (auto simp: use_provider_def in_use_live)

lemma init_mask_outcome:
  assumes st: "started h l a" "sqlcipher_shield_mask l = None" and ps: "providers_ok l ps" "default_provider (lb_registry l) = Some d" "d \<in> set ps"
    and sm: "sys_malloc (lb_heap l) = sys_malloc h" and op: "only_providers (lb_heap l) ps"
    and bad: "mask_refused h \<or> fst (pv_random (ie_provider env) (provider_calls l) 32) \<noteq> 0 \<Longrightarrow> sys_live h d = None \<Longrightarrow> bad"
  shows "init_outcome env (do { (rc, st) \<leftarrow> init_mask env (l, None, True); if rc \<noteq> 0 then init_error rc st else init_done st }) h ps bad"
proof -
  obtain z where d: "(d, z) \<in> live (lb_heap l)" using ps by (auto simp: providers_ok_def)
  have inv: "heap_inv (lb_heap l)" "private_heap (lb_heap l) = Some a" using st by (simp_all add: started_def)
  obtain r h1 where m: "sqlcipher_internal_malloc 32 (lb_heap l) = (r, h1)" by fastforce
  have view: "heap_view h1 = heap_view (lb_heap l)" using internal_malloc_inv [OF inv(1) _ m] by simp
  have post: "heap_inv h1" "\<And>p. r = Some p \<Longrightarrow> sys_live h1 p = Some 32 \<and> private_heap h1 \<noteq> Some p"
      "case r of None \<Rightarrow> live h1 = live (lb_heap l) | Some p \<Rightarrow> alloc_post 32 (lb_heap l) p h1"
    using internal_malloc_inv [OF inv(1) _ m] by auto
  have fr: "private_heap h1 = Some a" "private_heap_sz h1 = private_heap_sz (lb_heap l)" using internal_malloc_sz [OF m] inv by simp_all
  have sm1: "sys_malloc h1 = sys_malloc (lb_heap l)" using m by (auto simp: sqlcipher_internal_malloc_def sqlite3_malloc64_def split: option.splits)
  show ?thesis
  proof (cases r)
    case None
    then have none: "sys_malloc (lb_heap l) (sys_calls (lb_heap l)) (sys_live (lb_heap l)) 32 = None" "sys_live h1 = sys_live (lb_heap l)"
      using m by (auto simp: sqlcipher_internal_malloc_def sqlite3_malloc64_def split: option.splits)
    have "started h (l\<lparr>lb_heap := h1\<rparr>) a" using st post(1) fr sm1 none(2) by (auto simp: started_def)
    moreover have rf: "mask_refused h"
      using none(1) sm st unfolding mask_refused_def by (auto simp: started_def sqlcipher_shield_mask_sz_def)
    moreover have "\<not> env_works env h" using rf by (simp add: env_works_def)
    ultimately have "init_outcome env (init_error 7 (l\<lparr>lb_heap := h1\<rparr>, None, True)) h ps bad"
      using ps(2) bad by (intro init_error_outcome) auto
    then show ?thesis using st(2) m None by (simp add: init_mask_def sqlcipher_shield_mask_sz_def)
  next
    case (Some q)
    have sys: "sys_live h1 = (sys_live (lb_heap l))(q \<mapsto> 32)" "sys_live (lb_heap l) q = None"
    proof -
      show "sys_live h1 = (sys_live (lb_heap l))(q \<mapsto> 32)"
        using m Some by (auto simp: sqlcipher_internal_malloc_def sqlite3_malloc64_def split: option.splits)
      have "sys_inv (sys_live (lb_heap l))" "\<And>p t. sys_live (lb_heap l) p = Some t \<Longrightarrow> apart (q, 32) (p, t)"
        using inv(1) m Some by (auto simp: heap_inv_def heap_inv_of_def sys_malloc_ok_def sqlcipher_internal_malloc_def sqlite3_malloc64_def split: option.splits)
      then show "sys_live (lb_heap l) q = None" using sys_inv_insert [of "sys_live (lb_heap l)" 32 q] by auto
    qed
    obtain rc bs where rnd: "pv_random (ie_provider env) (provider_calls l) 32 = (rc, bs)" by fastforce
    define l1 where "l1 = next_call (l\<lparr>lb_heap := h1, sqlcipher_shield_mask := Some q\<rparr>)"
    define l2 where "l2 = l1\<lparr>lb_heap := (lb_heap l1)\<lparr>hp_mem := mem_write q bs (hp_mem (lb_heap l1))\<rparr>\<rparr>"
    obtain y where lv: "live h1 = insert (q, y) (live (lb_heap l))" "\<forall>p \<in> live (lb_heap l). apart (q, y) p" "32 \<le> y"
      using post(3) Some by (auto simp: alloc_post_def)
    have q: "q \<noteq> a" "sys_live h q = None" using sys(2) st by (auto simp: started_def split: if_splits)
    have s2: "started h l2 a" using st post(1) fr sm1 sys(1) q by (auto simp: started_def l2_def l1_def next_call_def)
    have use: "use_provider (l\<lparr>lb_heap := h1, sqlcipher_shield_mask := Some q\<rparr>) = Some ()" using use_provider_ok [of _ d z] ps(2) d lv(1) by simp
    have run: "init_mask env (l, None, True) = Some (rc, l2, None, True)"
      using st(2) m Some use rnd by (simp add: init_mask_def sqlcipher_shield_mask_sz_def l2_def l1_def Let_def next_call_def)
    show ?thesis
    proof (cases "rc = 0")
      case True
      have "q \<notin> set ps"
      proof
        assume "q \<in> set ps"
        then obtain w where "(q, w) \<in> live (lb_heap l)" "144 \<le> w" using ps(1) by (auto simp: providers_ok_def)
        then show False using lv(2,3) by (auto simp: apart_def)
      qed
      moreover have "providers_ok l2 ps" using ps(1) lv(1) by (auto simp: providers_ok_def l2_def l1_def next_call_def)
      moreover have "use_provider l2 = Some ()" using use_provider_ok [of l2 d z] ps(2) d lv(1) by (simp add: l2_def l1_def next_call_def)
      moreover have "sqlcipher_shield_mask l2 = Some q" "sys_live (lb_heap l2) q = Some 32" by (simp_all add: l2_def l1_def next_call_def sys(1))
      moreover have "only_providers (lb_heap l2) ps" using op view by (simp add: only_providers_def heap_view_def l2_def l1_def next_call_def)
      moreover have "system_blocks h (lb_heap l2) q" using s2 q by (auto simp: system_blocks_def started_def l2_def l1_def next_call_def)
      ultimately have "\<exists>l'. init_done (l2, None, True) = Some (0, l') \<and> lib_up l' ps q \<and> only_providers (lb_heap l') ps \<and> system_blocks h (lb_heap l') q"
        using s2 ps(3) q(1) by (auto simp: init_done_def lib_up_def started_def providers_ok_def)
      then show ?thesis using run True unfolding init_outcome_def by auto
    next
      case False
      have "init_outcome env (init_error rc (l2, None, True)) h ps bad"
        using s2 False bad rnd ps(2) env_works_random [OF _ rnd] by (intro init_error_outcome) (auto simp: l2_def l1_def next_call_def)
      then show ?thesis using run False by simp
    qed
  qed
qed

lemma init_late_outcome:
  assumes st: "started h l a" "sqlcipher_shield_mask l = None" and ps: "providers_ok l ps" "default_provider (lb_registry l) = Some d" "d \<in> set ps"
    and sm: "sys_malloc (lb_heap l) = sys_malloc h" and op: "only_providers (lb_heap l) ps"
  shows "init_outcome env (init_late env (l, None, False)) h ps (late_failure env h (provider_calls l) \<and> sys_live h d = None)"
proof -
  obtain z where d: "(d, z) \<in> live (lb_heap l)" using ps by (auto simp: providers_ok_def)
  define rc where "rc = pv_ctx_init (ie_provider env) (provider_calls l)"
  define l1 where "l1 = next_call l"
  have u: "use_provider l = Some ()" "use_provider l1 = Some ()" using use_provider_ok [OF ps(2) d] use_provider_ok [of l1 d z] ps(2) d by (simp_all add: l1_def next_call_def)
  have s1: "started h l1 a" using st by (simp add: l1_def next_call_def started_def)
  show ?thesis
  proof (cases "rc = 0")
    case False
    then have "init_late env (l, None, False) = init_error rc (l1, None, False)"
      using u by (simp add: init_late_def init_seed_def rc_def l1_def Let_def)
    moreover have "\<not> env_works env h" using False by (auto simp: env_works_def rc_def)
    ultimately show ?thesis using init_error_outcome [OF s1 False, of env False] by simp
  next
    case rc: True
    obtain rc1 bs where rnd: "pv_random (ie_provider env) (provider_calls l + 1) 32 = (rc1, bs)" by fastforce
    define l2 where "l2 = (next_call l1)\<lparr>lb_heap := (lb_heap l1)\<lparr>hp_rng := xoshiro_of_bytes bs\<rparr>\<rparr>"
    have e: "init_seed env (l, None, False) = Some (rc1, l2, None, True)"
      using u rc rnd by (simp add: init_seed_def rc_def l1_def l2_def Let_def next_call_def)
    have s2: "started h l2 a" "sqlcipher_shield_mask l2 = None" using s1 st(2) by (simp_all add: l2_def l1_def next_call_def started_def)
    show ?thesis
    proof (cases "rc1 = 0")
      case True
      have p2: "providers_ok l2 ps" "default_provider (lb_registry l2) = Some d" "sys_malloc (lb_heap l2) = sys_malloc h" "provider_calls l2 = provider_calls l + 2"
          "only_providers (lb_heap l2) ps"
        using ps sm op by (simp_all add: only_providers_def heap_view_def providers_ok_def l2_def l1_def next_call_def)
      have "init_outcome env (do { (rc, st) \<leftarrow> init_mask env (l2, None, True); if rc \<noteq> 0 then init_error rc st else init_done st }) h ps
          (late_failure env h (provider_calls l) \<and> sys_live h d = None)"
        using rc p2(4) by (intro init_mask_outcome [OF s2 p2(1,2) ps(3) p2(3,5)]) (auto simp: late_failure_def rc_def)
      then show ?thesis using e True by (simp add: init_late_def)
    next
      case False
      have "init_outcome env (init_error rc1 (l2, None, True)) h ps (late_failure env h (provider_calls l) \<and> sys_live h d = None)"
        using False rnd rc ps(2) env_works_random [OF _ rnd] by (intro init_error_outcome [OF s2(1)]) (auto simp: late_failure_def rc_def l2_def l1_def next_call_def)
      then show ?thesis using e False by (simp add: init_late_def)
    qed
  qed
qed

lemma init_heap_loop_sys: "sys_malloc (init_heap_loop h) = sys_malloc h"
proof (induction h rule: init_heap_loop.induct)
  case (1 h)
  obtain r h' where m: "sqlcipher_internal_malloc (private_heap_sz h) h = (r, h')" by fastforce
  then have "sys_malloc h' = sys_malloc h" by (auto simp: sqlcipher_internal_malloc_def sqlite3_malloc64_def split: option.splits)
  then show ?case using 1 [OF _ m [symmetric]] m
    by (cases r) (auto simp: init_heap_loop.simps [of h] init_head_def heap_randomness_def Let_def case_prod_unfold)
qed

lemma init_error_early:
  assumes "early l l1" "heap_down h" "sys_live h = sys_live (lb_heap l)"
  shows "\<exists>l'. init_error rc (l1\<lparr>lb_heap := h\<rparr>, None, False) = Some (rc, l') \<and> torn_down (lb_heap l) rc l'"
proof -
  have "map (\<lambda>_. False) (sqlcipher_static_mutex l1) = replicate 8 False" using assms(1) by (simp add: early_def map_replicate_const)
  then show ?thesis using assms
    by (simp add: init_error_def early_def heap_down_def free_private_heap_def free_mask_def free_mutexes_def torn_down_def Let_def)
qed

lemma register_first: "default_provider r = None \<Longrightarrow> sqlcipher_register_provider (Some p) i r =
    (let rc = (case i of None \<Rightarrow> 0 | Some c \<Rightarrow> c); r1 = r\<lparr>reg_next := (reg_next r)(p := None)\<rparr>
     in Some (rc, if rc = 0 then r1\<lparr>default_provider := Some p\<rparr> else r1))"
  by (simp add: sqlcipher_register_provider_def Let_def)

lemma lib_swap: "l\<lparr>lb_registry := r, lb_heap := h\<rparr> = l\<lparr>lb_heap := h, lb_registry := r\<rparr>"
  by simp

lemma register_cases:
  assumes e: "early l l1" "sqlcipher_static_mutex l1 = replicate 8 True" and hd: "heap_down (lb_heap l)" and hs: "heap_started (lb_heap l) h"
    and sm: "sys_malloc h = sys_malloc (lb_heap l)" and def: "default_provider (lb_registry l) = None"
  shows "\<exists>a l2 l3 rc. register_default env (l1\<lparr>lb_heap := h\<rparr>, None, False) =
      (if rc \<noteq> 0 then Some (rc, l2, Some (a + 16), False) else Some (0, l3, None, False))
    \<and> (rc = 0 \<longleftrightarrow> ie_setup env = 0 \<and> ie_init env \<in> {None, Some 0})
    \<and> (\<forall>rc. \<exists>l4. init_error rc (l2, Some (a + 16), False) = init_error rc (l4, None, False) \<and> started (lb_heap l) l4 a)
    \<and> started (lb_heap l) l3 a \<and> sqlcipher_shield_mask l3 = None \<and> providers_ok l3 [a + 16] \<and> default_provider (lb_registry l3) = Some (a + 16)
    \<and> only_providers (lb_heap l3) [a + 16] \<and> provider_calls l3 = provider_calls l \<and> sys_live (lb_heap l) (a + 16) = None"
proof -
  let ?h0 = "lb_heap l"
  obtain a z h2 where m: "sqlcipher_malloc sizeof_sqlcipher_provider h = Some (Some (a + 16), h2)" "heap_inv h2" "private_heap h = Some a" "private_heap h2 = Some a"
      "private_heap_sz h2 = private_heap_sz h" "sys_live h2 = sys_live h" "live h2 = insert (a + 16, z) (live h)" "144 \<le> z" "sys_malloc h2 = sys_malloc h"
      "used_blocks (heap_view h2) = {(a + 16, 144)}"
    using malloc_provider [OF hs] by blast
  have s: "heap_inv h" "8 dvd private_heap_sz h" "sys_live ?h0 a = None" "sys_live h = (sys_live ?h0)(a \<mapsto> private_heap_sz h)" "16384 \<le> private_heap_sz h"
    using hs m(3) heap_started_sz [OF hs] by (auto simp: heap_started_def)
  have st: "started ?h0 (l1\<lparr>lb_heap := h3, lb_registry := reg\<rparr>) a"
    if "heap_inv h3" "private_heap h3 = Some a" "private_heap_sz h3 = private_heap_sz h" "sys_live h3 = sys_live h" "sys_malloc h3 = sys_malloc h" for h3 reg
    using that e s sm by (simp add: started_def early_def)
  obtain h3 where f: "sqlcipher_free (a + 16) sizeof_sqlcipher_provider h2 = Some h3" "heap_inv h3"
    using sqlcipher_free_live [OF m(2), of "a + 16" z 144] m(7,8) by (auto simp: sizeof_sqlcipher_provider_def)
  note f3 = f(2) sqlcipher_free_region [OF f(1), unfolded m(4,5,9)] free_first_block [OF m(2,4) f(1), unfolded m(6)]
  have err: "\<exists>l4. init_error rc (l1\<lparr>lb_heap := h2, lb_registry := reg\<rparr>, Some (a + 16), False) = init_error rc (l4, None, False) \<and> started ?h0 l4 a" for rc reg
    using f(1) st [of h3 reg] f3 by (intro exI [of _ "l1\<lparr>lb_heap := h3, lb_registry := reg\<rparr>"]) (simp add: init_error_def Let_def lib_swap)
  have "apart (a, private_heap_sz h) (a + 16, t)" if "sys_live ?h0 (a + 16) = Some t" for t
    using that s(1,4) by (auto simp: heap_inv_def heap_inv_of_def sys_inv_def)
  then have fresh: "sys_live ?h0 (a + 16) = None" using s(5) by (cases "sys_live ?h0 (a + 16)") (auto simp: apart_def)
  define rc where "rc = (case ie_init env of None \<Rightarrow> 0 | Some c \<Rightarrow> c)"
  define reg where "reg = (lb_registry l1)\<lparr>reg_next := (reg_next (lb_registry l1))(a + 16 := None)\<rparr>"
  define l3 where "l3 = l1\<lparr>lb_heap := h2, lb_registry := reg\<lparr>default_provider := Some (a + 16)\<rparr>\<rparr>"
  define l2 where "l2 = l1\<lparr>lb_heap := h2, lb_registry := if ie_setup env \<noteq> 0 then lb_registry l1 else reg\<rparr>"
  have "default_provider (lb_registry l1) = None" using def e(1) by (simp add: early_def)
  then have run: "register_default env (l1\<lparr>lb_heap := h\<rparr>, None, False) =
      (if (if ie_setup env \<noteq> 0 then ie_setup env else rc) \<noteq> 0 then Some (if ie_setup env \<noteq> 0 then ie_setup env else rc, l2, Some (a + 16), False)
       else Some (0, l3, None, False))"
    using m(1) by (simp add: register_default_def sqlcipher_get_provider_def register_first rc_def reg_def l2_def l3_def Let_def)
  have "(if ie_setup env \<noteq> 0 then ie_setup env else rc) = 0 \<longleftrightarrow> ie_setup env = 0 \<and> ie_init env \<in> {None, Some 0}"
    by (auto simp: rc_def split: option.splits)
  moreover have "providers_ok l3 [a + 16]" using m(7,8) by (auto simp: providers_ok_def registered_def reg_def l3_def)
  moreover have "sqlcipher_shield_mask l3 = None" "default_provider (lb_registry l3) = Some (a + 16)" "only_providers (lb_heap l3) [a + 16]"
      "provider_calls l3 = provider_calls l"
    using e(1) m(10) by (simp_all add: l3_def early_def only_providers_def)
  moreover have "started ?h0 l3 a" using st [OF m(2,4,5,6,9)] by (simp add: l3_def)
  ultimately show ?thesis using run err fresh unfolding l2_def by blast
qed

lemma register_outcome:
  assumes "early l l1" "sqlcipher_static_mutex l1 = replicate 8 True" "heap_down (lb_heap l)" "heap_started (lb_heap l) h"
    and "sys_malloc h = sys_malloc (lb_heap l)" "default_provider (lb_registry l) = None"
  shows "\<exists>p. sys_live (lb_heap l) p = None \<and> init_outcome env (do { (rc, st) \<leftarrow> register_default env (l1\<lparr>lb_heap := h\<rparr>, None, False); if rc \<noteq> 0 then init_error rc st else init_late env st })
    (lb_heap l) [p] (late_failure env (lb_heap l) (provider_calls l))"
proof -
  obtain a l2 l3 rc where r: "register_default env (l1\<lparr>lb_heap := h\<rparr>, None, False) =
      (if rc \<noteq> 0 then Some (rc, l2, Some (a + 16), False) else Some (0, l3, None, False))"
      "rc = 0 \<longleftrightarrow> ie_setup env = 0 \<and> ie_init env \<in> {None, Some 0}"
      "\<forall>rc. \<exists>l4. init_error rc (l2, Some (a + 16), False) = init_error rc (l4, None, False) \<and> started (lb_heap l) l4 a"
      "started (lb_heap l) l3 a" "sqlcipher_shield_mask l3 = None" "providers_ok l3 [a + 16]" "default_provider (lb_registry l3) = Some (a + 16)"
      "only_providers (lb_heap l3) [a + 16]" "provider_calls l3 = provider_calls l" "sys_live (lb_heap l) (a + 16) = None"
    using register_cases [OF assms, of env] by blast
  show ?thesis
  proof (cases "rc = 0")
    case True
    have "sys_malloc (lb_heap l3) = sys_malloc (lb_heap l)" using r(4) by (simp add: started_def)
    then have "init_outcome env (init_late env (l3, None, False)) (lb_heap l) [a + 16]
        (late_failure env (lb_heap l) (provider_calls l) \<and> sys_live (lb_heap l) (a + 16) = None)"
      using init_late_outcome [OF r(4-7) _ _ r(8), of env] r(9) by simp
    then have "init_outcome env (init_late env (l3, None, False)) (lb_heap l) [a + 16] (late_failure env (lb_heap l) (provider_calls l))"
      unfolding init_outcome_def by blast
    then show ?thesis using r(1,10) True by auto
  next
    case False
    then have nw: "\<not> env_works env (lb_heap l)" using r(2) by (auto simp: env_works_def)
    obtain l4 where "init_error rc (l2, Some (a + 16), False) = init_error rc (l4, None, False)" "started (lb_heap l) l4 a" using r(3) by blast
    then have "init_outcome env (init_error rc (l2, Some (a + 16), False)) (lb_heap l) [a + 16] (late_failure env (lb_heap l) (provider_calls l))"
      using init_error_outcome [OF _ False nw] by auto
    then show ?thesis using r(1,10) False by auto
  qed
qed

lemma init_heap_works:
  assumes "env_works env h"
  shows "private_heap (init_heap_loop h) \<noteq> None"
proof -
  obtain a where "sys_malloc h (sys_calls h) (sys_live h) (private_heap_sz h) = Some a" using assms unfolding env_works_def by blast
  then show ?thesis using assms
    by (subst init_heap_loop.simps) (simp add: env_works_def sqlcipher_internal_malloc_def sqlite3_malloc64_def init_head_def Let_def)
qed

lemma extra_init_cases:
  assumes "lib_down l ps"
  shows "\<exists>qs. init_outcome env (sqlcipher_extra_init env l) (lb_heap l) qs (default_provider (lb_registry l) = None \<and> late_failure env (lb_heap l) (provider_calls l))
    \<and> (default_provider (lb_registry l) = None \<longrightarrow> (\<forall>q \<in> set qs. sys_live (lb_heap l) q = None)) \<and> (default_provider (lb_registry l) \<noteq> None \<longrightarrow> qs = ps)"
proof -
  let ?bad = "default_provider (lb_registry l) = None \<and> late_failure env (lb_heap l) (provider_calls l)"
  obtain rc l1 where e: "early l l1" "rc = 0 \<longrightarrow> sqlcipher_static_mutex l1 = replicate 8 True"
      "(\<forall>n. ie_mutex_alloc env n) \<longrightarrow> rc = 0"
      "sqlcipher_extra_init env l = (if rc \<noteq> 0 then init_error rc (l1, None, False)
        else do {
          let (rc, l) = init_heap l1;
          if rc \<noteq> 0 then init_error rc (l, None, False)
          else do { (rc, st) \<leftarrow> register_default env (l, None, False); if rc \<noteq> 0 then init_error rc st else init_late env st }
        })"
    using extra_init_early [OF assms] by blast
  have hd: "heap_down (lb_heap l)" and pv: "providers_ok l ps" using assms by (simp_all add: lib_down_def)
  let ?h = "init_heap_loop (lb_heap l)" and ?l2 = "l1\<lparr>lb_heap := init_heap_loop (lb_heap l)\<rparr>"
  have ih: "init_heap l1 = (if private_heap ?h = None then 7 else 0, ?l2)" using e(1) hd by (simp add: init_heap_def early_def heap_down_def Let_def)
  consider "rc \<noteq> 0" | "rc = 0" "heap_down ?h" "sys_live ?h = sys_live (lb_heap l)" | "rc = 0" "heap_started (lb_heap l) ?h"
    using init_heap_loop_post [OF hd] by blast
  then show ?thesis
  proof cases
    case 1
    have "l1\<lparr>lb_heap := lb_heap l\<rparr> = l1" using e(1) by (simp add: early_def)
    then have "init_outcome env (sqlcipher_extra_init env l) (lb_heap l) qs ?bad" for qs
      using init_error_early [OF e(1) hd refl, of rc] 1 e(3,4) unfolding init_outcome_def by (auto simp: env_works_def)
    then show ?thesis by (intro exI [of _ "if default_provider (lb_registry l) = None then [] else ps"]) simp
  next
    case 2
    then have "\<not> env_works env (lb_heap l)" using init_heap_works [of env "lb_heap l"] by (auto simp: heap_down_def)
    then have "init_outcome env (sqlcipher_extra_init env l) (lb_heap l) qs ?bad" for qs
      using init_error_early [OF e(1) 2(2,3), of 7] 2 e(4) ih unfolding init_outcome_def by (auto simp: heap_down_def)
    then show ?thesis by (intro exI [of _ "if default_provider (lb_registry l) = None then [] else ps"]) simp
  next
    case 3
    then have ph: "private_heap ?h \<noteq> None" by (auto simp: heap_started_def)
    have run: "sqlcipher_extra_init env l = do { (rc, st) \<leftarrow> register_default env (?l2, None, False); if rc \<noteq> 0 then init_error rc st else init_late env st }"
      using e(4) ih ph 3(1) by simp
    show ?thesis
    proof (cases "default_provider (lb_registry l)")
      case None
      then show ?thesis using register_outcome [OF e(1) e(2) [rule_format, OF 3(1)] hd 3(2) init_heap_loop_sys None, of env] run
        by (auto intro: exI [of _ "[_]"])
    next
      case (Some d)
      then obtain ds where ps: "ps = d # ds" using pv by (cases ps) (auto simp: providers_ok_def registered_def)
      obtain a s where a: "heap_inv ?h" "private_heap ?h = Some a" "heap_view ?h = [(a, s, False)]" "8 dvd private_heap_sz ?h" "sys_live (lb_heap l) a = None"
          "sys_live ?h = (sys_live (lb_heap l))(a \<mapsto> private_heap_sz ?h)"
        using 3(2) unfolding heap_started_def by blast
      have st: "started (lb_heap l) ?l2 a" "sqlcipher_shield_mask ?l2 = None" using a e(1,2) 3(1) heap_started_sz [OF 3(2)] by (simp_all add: started_def early_def init_heap_loop_sys)
      have p2: "providers_ok ?l2 ps" using pv e(1) heap_started_live [OF hd 3(2)] by (simp add: providers_ok_def early_def)
      obtain z where "(d, z) \<in> live (lb_heap l)" using pv ps by (auto simp: providers_ok_def)
      then have sd: "sys_live (lb_heap l) d \<noteq> None" using live_no_heap [of "lb_heap l"] hd by (auto simp: heap_down_def)
      have "init_outcome env (init_late env (?l2, None, False)) (lb_heap l) ps (late_failure env (lb_heap l) (provider_calls ?l2) \<and> sys_live (lb_heap l) d = None)"
        using Some e(1) ps by (intro init_late_outcome [OF st p2]) (auto simp: early_def init_heap_loop_sys only_providers_def a(3))
      moreover have "register_default env (?l2, None, False) = Some (0, ?l2, None, False)"
        using Some e(1) by (simp add: register_default_def sqlcipher_get_provider_def early_def)
      ultimately have "init_outcome env (sqlcipher_extra_init env l) (lb_heap l) ps ?bad" using run sd unfolding init_outcome_def by auto
      then show ?thesis using Some by auto
    qed
  qed
qed

section \<open>Shutdown\<close>

lemma free_providers_post:
  assumes "linked N st ps" "distinct ps" "heap_inv h" "\<forall>p \<in> set ps. \<exists>z \<ge> 144. (p, z) \<in> live h"
  shows "\<exists>h'. free_providers N st h = Some h' \<and> heap_inv h' \<and> private_heap h' = private_heap h \<and> private_heap_sz h' = private_heap_sz h \<and> sys_malloc h' = sys_malloc h
    \<and> live h' = {y \<in> live h. fst y \<notin> set ps}"
  using assms
proof (induction ps arbitrary: st h)
  case Nil
  then show ?case by (subst free_providers.simps) auto
next
  case (Cons p ps)
  then obtain z where z: "144 \<le> z" "(p, z) \<in> live h" by auto
  obtain h1 where h1: "sqlcipher_free p 144 h = Some h1" "heap_inv h1" "live h1 = live h - {(p, z)}"
    using sqlcipher_free_live [OF Cons(4) z(2,1)] by blast
  have only: "fst y = p \<longleftrightarrow> y = (p, z)" if "y \<in> live h" for y
    using live_apart [OF Cons(4) that z(2)] live_pos [OF Cons(4), of p "snd y"] live_pos [OF Cons(4) z(2)] that
    by (cases "y = (p, z)"; cases y) (auto simp: apart_def)
  have "\<forall>q \<in> set ps. \<exists>y \<ge> 144. (q, y) \<in> live h1" using Cons(3,5) h1(3) by auto
  then obtain h' where h': "free_providers N (N p) h1 = Some h'" "heap_inv h'" "private_heap h' = private_heap h1" "private_heap_sz h' = private_heap_sz h1" "sys_malloc h' = sys_malloc h1"
      "live h' = {y \<in> live h1. fst y \<notin> set ps}"
    using Cons(1) [of "N p" h1] Cons(2,3) h1(2) by auto
  have "live h' = {y \<in> live h. fst y \<notin> set (p # ps)}" unfolding h'(6) h1(3) using only by auto
  moreover have "free_providers N st h = Some h'"
    using Cons(2) z(2) h1(1) h'(1) by (subst free_providers.simps) (auto simp: in_use_live sizeof_sqlcipher_provider_def)
  ultimately show ?case using h' sqlcipher_free_region [OF h1(1)] by simp
qed

lemma no_used_sum: "used_blocks bs = {} \<Longrightarrow> used_sum bs = 0"
proof (induction bs)
  case (Cons t bs)
  then show ?case by (cases t) (auto split: if_splits)
qed simp

lemma free_private_heap_down:
  assumes "heap_inv (lb_heap l)" "private_heap (lb_heap l) = Some a" "8 dvd private_heap_sz (lb_heap l)" "used_blocks (heap_view (lb_heap l)) = {}"
  shows "heap_down (lb_heap (free_private_heap l))" and "sys_live (lb_heap (free_private_heap l)) = (sys_live (lb_heap l))(a := None)"
proof -
  let ?h = "lb_heap l" and ?h' = "lb_heap (free_private_heap l)"
  have i: "heap_inv_of ?h (heap_view ?h)" using assms(1) by (simp add: heap_inv_def)
  have e: "?h' = (sqlcipher_internal_free a (private_heap_sz ?h) ?h)\<lparr>private_heap := None\<rparr>" using assms(2) by (simp add: free_private_heap_def)
  show s: "sys_live ?h' = (sys_live ?h)(a := None)" by (simp add: e internal_free_frame)
  have u: "private_heap_used ?h = 0" using i no_used_sum [OF assms(4)] by (simp add: heap_inv_of_def unat_eq_0)
  have f: "private_heap_used ?h' = private_heap_used ?h" "private_heap_hwm ?h' = private_heap_hwm ?h" "sys_malloc ?h' = sys_malloc ?h"
      "private_heap_sz ?h' = private_heap_sz ?h" "private_heap ?h' = None"
    by (simp_all add: e sqlcipher_internal_free_def sqlite3_free_def heap_randomness_def Let_def case_prod_unfold)
  have "sys_inv (sys_live ?h')" using i unfolding s heap_inv_of_def sys_inv_def by (auto split: if_splits)
  then have "heap_inv_of ?h' []" using i f u by (simp add: heap_inv_of_def region_inv_def)
  then show "heap_down ?h'" using heap_inv_intro assms(3) f by (auto simp: heap_down_def)
qed

lemma shutdown_post:
  assumes up: "lib_up l ps m" and op: "only_providers (lb_heap l) ps"
  shows "\<exists>l'. sqlcipher_extra_shutdown test l = Some l' \<and> lib_down l' [] \<and> sqlcipher_shutdown l' \<and> sqlcipher_static_mutex l' = replicate 8 False
    \<and> private_heap_sz (lb_heap l') = private_heap_sz (lb_heap l) \<and> sys_malloc (lb_heap l') = sys_malloc (lb_heap l)
    \<and> (\<forall>p t. sys_live (lb_heap l') p = Some t \<longleftrightarrow> sys_live (lb_heap l) p = Some t \<and> private_heap (lb_heap l) \<noteq> Some p \<and> p \<noteq> m \<and> p \<notin> set ps)"
proof -
  let ?h = "lb_heap l" and ?h1 = "sqlcipher_internal_free m 32 (lb_heap l)"
  obtain a where a: "private_heap ?h = Some a" using up by (auto simp: lib_up_def)
  have inv: "heap_inv ?h" "sys_live ?h m = Some 32" "m \<noteq> a" "m \<notin> set ps" "8 dvd private_heap_sz ?h" using up a by (auto simp: lib_up_def)
  have 1: "heap_inv ?h1" "heap_view ?h1 = heap_view ?h" "live ?h1 = live ?h - {(m, 32)}"
    using internal_free_inv [OF inv(1,2), of 32] a inv(3) by auto
  have r: "linked (reg_next (lb_registry l)) (default_provider (lb_registry l)) ps" "distinct ps" "\<forall>p \<in> set ps. \<exists>z \<ge> 144. (p, z) \<in> live ?h1"
    using up inv(4) 1(3) by (auto simp: lib_up_def providers_ok_def registered_def)
  obtain h2 where 2: "free_providers (reg_next (lb_registry l)) (default_provider (lb_registry l)) ?h1 = Some h2" "heap_inv h2" "private_heap h2 = Some a"
      "private_heap_sz h2 = private_heap_sz ?h" "sys_malloc h2 = sys_malloc ?h" "live h2 = {y \<in> live ?h1. fst y \<notin> set ps}"
    using free_providers_post [OF r(1,2) 1(1) r(3)] a by (auto simp: internal_free_frame)
  have lv: "live h2 = {y \<in> live ?h. fst y \<notin> set ps \<and> y \<noteq> (m, 32)}" using 2(6) 1(3) by auto
  have sys: "(p, t) \<in> live ?h \<and> p \<notin> set ps \<longleftrightarrow> sys_live ?h p = Some t \<and> p \<noteq> a \<and> p \<notin> set ps" for p t
  proof -
    have "p \<notin> set ps \<Longrightarrow> (p, t) \<notin> used_blocks (heap_view ?h)" using op unfolding only_providers_def by force
    then show ?thesis using a by (auto simp: live_def)
  qed
  have ub: "used_blocks (heap_view h2) = {}"
  proof (rule ccontr)
    assume "used_blocks (heap_view h2) \<noteq> {}"
    then obtain p z where p: "(p, z) \<in> used_blocks (heap_view h2)" by auto
    then have pl: "(p, z) \<in> live h2" by (simp add: live_def)
    then have s: "sys_live ?h p = Some z" "p \<noteq> a" using lv sys [of p z] by auto
    have in_heap: "a + 16 \<le> p" "p + z \<le> a + private_heap_sz ?h" "0 < z"
      using region_blocks_inside [of h2 "heap_view h2" p z] 2(2-4) p live_pos [OF 2(2) pl] by (auto simp: heap_inv_def heap_inv_of_def)
    have "sys_live ?h a = Some (private_heap_sz ?h)" "sys_inv (sys_live ?h)" using inv(1) a by (auto simp: heap_inv_def heap_inv_of_def region_inv_def)
    then have "apart (p, z) (a, private_heap_sz ?h)" using s unfolding sys_inv_def by blast
    then show False using in_heap by (simp add: apart_def)
  qed
  define l2 where "l2 = (free_mask l)\<lparr>lb_heap := h2, lb_registry := (lb_registry l)\<lparr>default_provider := None\<rparr>\<rparr>"
  have h2: "lb_heap l2 = h2" by (simp add: l2_def)
  have fm: "free_mask l = l\<lparr>lb_heap := ?h1, sqlcipher_shield_mask := None\<rparr>" using up by (simp add: free_mask_def lib_up_def sqlcipher_shield_mask_sz_def)
  note d = free_private_heap_down [of l2 a, unfolded h2, OF 2(2,3) _ ub, unfolded 2(4), OF inv(5)]
  have "heap_unfreed h2 = 0" using no_used_sum [OF ub] by (simp add: heap_unfreed_def used_sum_def)
  then have run: "sqlcipher_extra_shutdown test l = Some ((free_mutexes (free_private_heap l2))\<lparr>sqlcipher_init := False, sqlcipher_init_error := 1, sqlcipher_shutdown := True\<rparr>)"
    using up 2(1) by (simp add: sqlcipher_extra_shutdown_def lib_up_def fm l2_def Let_def)
  let ?l' = "(free_mutexes (free_private_heap l2))\<lparr>sqlcipher_init := False, sqlcipher_init_error := 1, sqlcipher_shutdown := True\<rparr>"
  have fr: "sqlcipher_shield_mask (free_private_heap l2) = None" "sqlcipher_static_mutex (free_private_heap l2) = replicate 8 True"
      "master_mutex (free_private_heap l2) = 0" "default_provider (lb_registry (free_private_heap l2)) = None"
    using up 2(3) by (simp_all add: free_private_heap_def l2_def fm lib_up_def)
  have "lib_down ?l' []" using d(1) fr by (simp add: lib_down_def free_mutexes_def providers_ok_def registered_def)
  moreover have "sys_live h2 p = Some t \<longleftrightarrow> (p, t) \<in> live h2" if "p \<noteq> a" for p t using ub 2(3) that by (auto simp: live_def)
  then have "sys_live (lb_heap ?l') p = Some t \<longleftrightarrow> sys_live ?h p = Some t \<and> p \<noteq> a \<and> p \<noteq> m \<and> p \<notin> set ps" for p t
    using d(2) lv sys [of p t] inv(2) by (auto simp: free_mutexes_def)
  moreover have "sqlcipher_static_mutex ?l' = replicate 8 False" using fr(2) by (simp add: free_mutexes_def)
  moreover have "private_heap_sz (lb_heap ?l') = private_heap_sz ?h" "sys_malloc (lb_heap ?l') = sys_malloc ?h"
    using 2(3-5) by (simp_all add: free_mutexes_def free_private_heap_def l2_def internal_free_frame)
  ultimately show ?thesis unfolding run using a by (intro exI [of _ ?l']) auto
qed


section \<open>Properties\<close>

text \<open>Starting and ending the library again and again.\<close>

fun restart :: "init_env \<Rightarrow> bool \<Rightarrow> nat \<Rightarrow> library \<Rightarrow> library option" where
  "restart env test 0 l = Some l"
| "restart env test (Suc n) l = do {
     (rc, l1) \<leftarrow> sqlcipher_extra_init env l;
     if rc \<noteq> SQLITE_OK then None
     else do { l2 \<leftarrow> sqlcipher_extra_shutdown test l1; restart env test n l2 }
   }"

lemma down_default: "lib_down l [] \<Longrightarrow> default_provider (lb_registry l) = None"
  by (cases "default_provider (lb_registry l)") (auto simp: lib_down_def providers_ok_def registered_def)

lemma env_works_no_failure: "env_works env h \<Longrightarrow> \<not> late_failure env h n"
  by (auto simp: env_works_def late_failure_def)

lemma restart_once:
  assumes "lib_down l []" "env_works env (lb_heap l)"
  shows "\<exists>l1 l2. sqlcipher_extra_init env l = Some (SQLITE_OK, l1) \<and> sqlcipher_extra_shutdown test l1 = Some l2 \<and> lib_down l2 []
    \<and> env_works env (lb_heap l2) \<and> sys_live (lb_heap l2) = sys_live (lb_heap l)"
proof -
  obtain qs l1 m where i: "sqlcipher_extra_init env l = Some (SQLITE_OK, l1)" "lib_up l1 qs m" "only_providers (lb_heap l1) qs" "system_blocks (lb_heap l) (lb_heap l1) m"
      "\<forall>q \<in> set qs. sys_live (lb_heap l) q = None"
    using extra_init_cases [OF assms(1), of env] assms(2) env_works_no_failure [OF assms(2)] down_default [OF assms(1)] unfolding init_outcome_def by blast
  obtain l2 where s: "sqlcipher_extra_shutdown test l1 = Some l2" "lib_down l2 []" "private_heap_sz (lb_heap l2) = private_heap_sz (lb_heap l1)"
      "sys_malloc (lb_heap l2) = sys_malloc (lb_heap l1)"
      "\<forall>p t. sys_live (lb_heap l2) p = Some t \<longleftrightarrow> sys_live (lb_heap l1) p = Some t \<and> private_heap (lb_heap l1) \<noteq> Some p \<and> p \<noteq> m \<and> p \<notin> set qs"
    using shutdown_post [OF i(2,3), of test] by blast
  have "sys_live (lb_heap l2) p = sys_live (lb_heap l) p" for p
  proof -
    have "sys_live (lb_heap l2) p = Some t \<longleftrightarrow> sys_live (lb_heap l) p = Some t" for t
      using s(5) i(4,5) unfolding system_blocks_def by (auto split: if_splits)
    then show ?thesis by (metis not_Some_eq)
  qed
  then have e: "sys_live (lb_heap l2) = sys_live (lb_heap l)" by auto
  moreover have "env_works env (lb_heap l2)"
  proof -
    have "sys_malloc (lb_heap l2) = sys_malloc (lb_heap l)" "16384 \<le> private_heap_sz (lb_heap l2)" using i(4) s(3,4) by (auto simp: system_blocks_def)
    then show ?thesis using assms(2) e by (simp add: env_works_def mask_refused_def SQLCIPHER_PRIVATE_HEAP_SIZE_STEP_def)
  qed
  ultimately show ?thesis using i(1) s(1,2) by blast
qed

text \<open>A library at rest, with a system allocator that places a block after all others, and two providers.\<close>

definition demo_malloc_sys :: "nat \<Rightarrow> (nat \<Rightarrow> nat option) \<Rightarrow> nat \<Rightarrow> nat option" where
  "demo_malloc_sys n L sz = (if finite (dom L) then Some (8 * Suc (\<Sum>p \<in> dom L. p + the (L p))) else None)"

definition demo_lib :: library where
  "demo_lib = \<lparr>lb_heap = demo_heap\<lparr>private_heap := None, private_heap_sz := 49152, hp_blocks := Map.empty, sys_malloc := demo_malloc_sys, sys_live := Map.empty\<rparr>,
     lb_registry = \<lparr>reg_next = (\<lambda>_. None), default_provider = None\<rparr>, sqlcipher_init = False, sqlcipher_shutdown = False, sqlcipher_cleanup = False,
     sqlcipher_init_error = SQLITE_ERROR, sqlcipher_static_mutex = replicate 8 False, sqlcipher_shield_mask = None, sqlcipher_log_level = SQLCIPHER_LOG_NONE,
     sqlcipher_log_device = False, sqlcipher_log_file = None, sqlcipher_log_set = False, master_mutex = 0, mutex_calls = 0, provider_calls = 0,
     atexit_handlers = 0, auto_extension = False\<rparr>"

definition demo_env :: "rc \<Rightarrow> init_env" where
  "demo_env rc = \<lparr>ie_mutex_alloc = (\<lambda>_. True), ie_device_log = False, ie_setup = SQLITE_OK, ie_init = None,
     ie_provider = \<lparr>pv_get_provider_name = ''demo'', pv_get_provider_version = ''1'', pv_get_cipher = ''xor'', pv_fips_status = 0, pv_add_random = (\<lambda>_. SQLITE_OK),
       pv_random = (\<lambda>c n. (rc, replicate n (of_nat c))), pv_hmac = (\<lambda>_ _ _ _. (SQLITE_OK, [])), pv_kdf = (\<lambda>_ _ _ _ _. (SQLITE_OK, [])),
       pv_cipher = (\<lambda>_ _ _ b. (SQLITE_OK, b)), pv_get_key_sz = 32, pv_get_iv_sz = 16, pv_get_block_sz = 16, pv_get_hmac_sz = (\<lambda>_. 20), pv_ctx_init = (\<lambda>_. SQLITE_OK)\<rparr>\<rparr>"

lemma demo_malloc_sys_ok: "sys_malloc_ok demo_malloc_sys"
proof -
  have "apart (8 * Suc (\<Sum>p \<in> dom L. p + the (L p)), sz) (q, t)" if "finite (dom L)" "L q = Some t" for L sz q t
  proof -
    have "q + the (L q) \<le> (\<Sum>p \<in> dom L. p + the (L p))" using that by (intro member_le_sum) auto
    then show ?thesis using that(2) by (simp add: apart_def)
  qed
  then show ?thesis by (auto simp: sys_malloc_ok_def demo_malloc_sys_def split: if_splits)
qed

lemma demo_lib_down: "lib_down demo_lib []"
proof -
  have "heap_inv (lb_heap demo_lib)"
    using demo_malloc_sys_ok by (intro heap_inv_intro [THEN conjunct1, of _ "[]"])
      (simp add: heap_inv_of_def demo_lib_def demo_heap_def sys_inv_def region_inv_def)
  then show ?thesis by (simp add: lib_down_def demo_lib_def heap_down_def providers_ok_def registered_def)
qed

lemma demo_env_works: "env_works (demo_env 0) (lb_heap demo_lib)"
  by (auto simp: env_works_def demo_env_def demo_lib_def mask_refused_def demo_malloc_sys_def SQLCIPHER_PRIVATE_HEAP_SIZE_STEP_def)

text \<open>A heap the system gives at once, and the seed that the provider then refuses.\<close>

lemma init_heap_loop_first:
  assumes "heap_down h" "SQLCIPHER_PRIVATE_HEAP_SIZE_STEP \<le> private_heap_sz h" "sys_malloc h (sys_calls h) (sys_live h) (private_heap_sz h) \<noteq> None"
  shows "heap_started h (init_heap_loop h)"
proof -
  have "private_heap (init_heap_loop h) \<noteq> None"
    using assms(2,3) by (subst init_heap_loop.simps) (auto simp: sqlcipher_internal_malloc_def sqlite3_malloc64_def init_head_def Let_def)
  then show ?thesis using init_heap_loop_post [OF assms(1)] by (auto simp: heap_down_def)
qed

lemma init_late_no_seed:
  assumes "started h l a" "default_provider (lb_registry l) = Some d" "(d, z) \<in> live (lb_heap l)" "sys_live h d = None"
    and "pv_ctx_init (ie_provider env) (provider_calls l) = 0" "fst (pv_random (ie_provider env) (provider_calls l + 1) 32) \<noteq> 0"
  shows "init_late env (l, None, False) = None"
proof -
  obtain rc bs where rnd: "pv_random (ie_provider env) (provider_calls l + 1) 32 = (rc, bs)" by fastforce
  define l2 where "l2 = (next_call (next_call l))\<lparr>lb_heap := (lb_heap l)\<lparr>hp_rng := xoshiro_of_bytes bs\<rparr>\<rparr>"
  have u: "use_provider l = Some ()" "use_provider (next_call l) = Some ()"
    using use_provider_ok [of l d z] use_provider_ok [of "next_call l" d z] assms(2,3) by (simp_all add: next_call_def)
  then have "init_seed env (l, None, False) = Some (rc, l2, None, True)"
    using rnd assms(5) by (simp add: init_seed_def l2_def Let_def next_call_def)
  moreover have "started h l2 a" using assms(1) by (cases "sqlcipher_shield_mask l") (simp_all add: l2_def next_call_def started_def)
  from init_error_started [OF this, of rc True] have "init_error rc (l2, None, True) = None"
    using assms(2,4) by (auto simp: l2_def next_call_def)
  ultimately show ?thesis using assms(6) rnd by (simp add: init_late_def)
qed



text \<open>
  C34: When every outside call works, any number of starts, each followed by a shutdown, all succeed: no
  start fails, no memory error occurs, the library is at rest again at the end and the blocks held from the
  system are exactly those held before. No cycle leaks memory or leaves a mutex held.
\<close>

theorem restart_never_fails:
  assumes "lib_down l []" "env_works env (lb_heap l)"
  shows "\<exists>l'. restart env test n l = Some l' \<and> lib_down l' [] \<and> sys_live (lb_heap l') = sys_live (lb_heap l) \<and> master_mutex l' = 0"
  using assms
proof (induction n arbitrary: l)
  case 0
  then show ?case by (simp add: lib_down_def)
next
  case (Suc n)
  obtain l1 l2 where r: "sqlcipher_extra_init env l = Some (SQLITE_OK, l1)" "sqlcipher_extra_shutdown test l1 = Some l2" "lib_down l2 []"
      "env_works env (lb_heap l2)" "sys_live (lb_heap l2) = sys_live (lb_heap l)"
    using restart_once [OF Suc(2,3), of test] by blast
  then show ?case using Suc(1) [OF r(3,4)] by simp
qed

theorem restart_never_fails_witness:
  "\<exists>l'. restart (demo_env SQLITE_OK) True 1000 demo_lib = Some l' \<and> lib_down l' [] \<and> sys_live (lb_heap l') = Map.empty"
proof -
  have "sys_live (lb_heap demo_lib) = Map.empty" by (simp add: demo_lib_def)
  then show ?thesis using restart_never_fails [OF demo_lib_down demo_env_works, of True 1000] by metis
qed



end
