(* ===== verification/SC_Keying.thy ===== *)
theory SC_Keying
  imports SC_Codec SC_KeySpec SC_Strings SC_Lifecycle
begin

unbundle bit_operations_syntax

text \<open>
  Attaching a codec to a database, changing its key and handing the key out: the key functions
  of src/src/sqlcipher.c, with the parts of src/src/btree.c and src/src/pager.c they set up.

  A connection is the record \<open>conn\<close>: its databases, the depth of its mutex and of the mutex for
  shared caches, and the globals of the library. The fields of the B-tree that a codec context
  shares with it are in the context while one is attached, and in \<open>cb_tree\<close> otherwise. What the operating
  system, the page cache and the pager return is in the records \<open>pager_env\<close> and \<open>rekey_env\<close>; a
  pager call may run the codec, so it is a step on the context. The calls are recorded in \<open>pg_ops\<close>.
\<close>

section \<open>The pager and the B-tree\<close>

definition SQLITE_READONLY :: rc where "SQLITE_READONLY = 8"
definition PAGER_OPEN :: int where "PAGER_OPEN = 0"
definition PAGER_ERROR :: int where "PAGER_ERROR = 6"
definition PENDING_BYTE :: int where "PENDING_BYTE = 0x40000000"
definition BTS_PAGESIZE_FIXED :: u32 where "BTS_PAGESIZE_FIXED = 0x0002"
definition BTS_SECURE_DELETE :: u32 where "BTS_SECURE_DELETE = 0x0004"
definition BTS_FAST_SECURE :: u32 where "BTS_FAST_SECURE = 0x000c"
definition SQLITE_DEFAULT_AUTOVACUUM :: int where "SQLITE_DEFAULT_AUTOVACUUM = 0"
definition SQLITE_MAX_PAGE_SIZE :: int where "SQLITE_MAX_PAGE_SIZE = 65536"
definition SQLCIPHER_MUTEX_SHAREDCACHE :: int where "SQLCIPHER_MUTEX_SHAREDCACHE = 7"

datatype pager_op = Op_BeginTrans rc | Op_Get u32 rc | Op_Write u32 rc | Op_Unref u32 | Op_Commit rc | Op_Rollback

record pager =
  pg_xCodec :: bool
  pg_codec :: "codec_ctx option"
  pg_memDb :: bool
  pg_eState :: int
  pg_errCode :: rc
  pg_isOpen :: bool
  pg_pageSize :: int
  pg_nReserve :: int
  pg_dbSize :: u32
  pg_lckPgno :: u32
  pg_ops :: "pager_op list"

record conn_bt =
  cb_sharable :: bool
  cb_pageSize :: int
  cb_usableSize :: int
  cb_nReserveWanted :: int
  cb_incrVacuum :: int
  cb_tree :: btree
  cb_pager :: pager

record conn_db =
  zDbSName :: "bytes option"
  db_pBt :: "conn_bt option"

record conn =
  aDb :: "conn_db list"
  db_mutex :: int
  shared_mutex :: int
  nextPagesize :: int
  cn_world :: world

record pager_env =
  pe_refs :: nat
  pe_filesize :: "rc \<times> int"
  pe_pagemalloc :: bool
  pe_pcache :: rc

text \<open>The B-tree fields, wherever they are.\<close>

definition get_tree :: "conn_bt \<Rightarrow> btree" where
  "get_tree b = (case pg_codec (cb_pager b) of None \<Rightarrow> cb_tree b | Some ctx \<Rightarrow> pBt ctx)"

definition set_tree :: "btree \<Rightarrow> conn_bt \<Rightarrow> conn_bt" where
  "set_tree t b =
     (case pg_codec (cb_pager b) of
        None \<Rightarrow> b\<lparr>cb_tree := t\<rparr>
      | Some ctx \<Rightarrow> b\<lparr>cb_pager := (cb_pager b)\<lparr>pg_codec := Some (ctx\<lparr>pBt := t\<rparr>)\<rparr>\<rparr>)"

definition sqlcipherPagerGetCodec :: "conn_bt \<Rightarrow> codec_ctx option" where
  "sqlcipherPagerGetCodec b = pg_codec (cb_pager b)"

definition sqlcipherPagerSetCodec :: "bool \<Rightarrow> codec_ctx option \<Rightarrow> conn_bt \<Rightarrow> conn_bt" where
  "sqlcipherPagerSetCodec x c b =
     b\<lparr>cb_tree := get_tree b, cb_pager := (cb_pager b)\<lparr>pg_xCodec := (if pg_memDb (cb_pager b) then False else x), pg_codec := c\<rparr>\<rparr>"

definition sqlite3pager_is_sj_pgno :: "pager \<Rightarrow> u32 \<Rightarrow> bool" where
  "sqlite3pager_is_sj_pgno pg pgno \<longleftrightarrow> pg_lckPgno pg = pgno"

definition sqlite3pager_error :: "rc \<Rightarrow> pager \<Rightarrow> pager" where
  "sqlite3pager_error e pg = pg\<lparr>pg_errCode := e, pg_eState := PAGER_ERROR\<rparr>"

definition i16_cast :: "int \<Rightarrow> int" where
  "i16_cast n = (n + 2 ^ 15) mod 2 ^ 16 - 2 ^ 15"

definition pager_resize :: "pager_env \<Rightarrow> int \<Rightarrow> pager \<Rightarrow> rc \<times> pager" where
  "pager_resize env pageSize pg =
     (let (rc, nByte) = (if pg_eState pg > PAGER_OPEN \<and> pg_isOpen pg then pe_filesize env else (SQLITE_OK, 0));
          rc = (if rc = SQLITE_OK then if pe_pagemalloc env then SQLITE_OK else SQLITE_NOMEM else rc);
          rc = (if rc = SQLITE_OK then pe_pcache env else rc)
      in if rc = SQLITE_OK then
           (rc, pg\<lparr>pg_dbSize := word_of_int ((nByte + pageSize - 1) div pageSize), pg_pageSize := pageSize,
                   pg_lckPgno := word_of_int (PENDING_BYTE div pageSize) + 1\<rparr>)
         else (rc, pg))"

definition sqlite3PagerSetPagesize :: "pager_env \<Rightarrow> int \<Rightarrow> int \<Rightarrow> pager \<Rightarrow> rc \<times> int \<times> pager" where
  "sqlite3PagerSetPagesize env pageSize nReserve pg =
     (let (rc, pg) =
            (if (\<not> pg_memDb pg \<or> pg_dbSize pg = 0) \<and> pe_refs env = 0 \<and> pageSize \<noteq> 0 \<and> pageSize \<noteq> pg_pageSize pg
             then pager_resize env pageSize pg else (SQLITE_OK, pg));
          ps = pg_pageSize pg;
          pg = (if rc = SQLITE_OK then pg\<lparr>pg_nReserve := i16_cast (if nReserve < 0 then pg_nReserve pg else nReserve)\<rparr> else pg)
      in (rc, ps, pg))"

definition btree_resize :: "pager_env \<Rightarrow> int \<Rightarrow> int \<Rightarrow> conn_bt \<Rightarrow> rc \<times> conn_bt" where
  "btree_resize env pageSize nReserve b =
     (let size = (if 512 \<le> pageSize \<and> pageSize \<le> SQLITE_MAX_PAGE_SIZE \<and> (pageSize - 1) AND pageSize = 0
                  then if nReserve > 32 \<and> pageSize = 512 then 1024 else pageSize
                  else cb_pageSize b);
          (rc, ps, pg) = sqlite3PagerSetPagesize env size nReserve (cb_pager b)
      in (rc, b\<lparr>cb_pager := pg, cb_pageSize := ps, cb_usableSize := ps - nReserve mod 2 ^ 16\<rparr>))"

definition sqlite3BtreeSetPageSize :: "pager_env \<Rightarrow> int \<Rightarrow> int \<Rightarrow> int \<Rightarrow> conn_bt \<Rightarrow> rc \<times> conn_bt" where
  "sqlite3BtreeSetPageSize env pageSize nReserve iFix b =
     (let b = b\<lparr>cb_nReserveWanted := nReserve mod 256\<rparr>;
          x = cb_pageSize b - cb_usableSize b
      in if x = nReserve \<and> (pageSize = 0 \<or> pageSize = cb_pageSize b) then (SQLITE_OK, b)
         else if bt_btsFlags (get_tree b) AND BTS_PAGESIZE_FIXED \<noteq> 0 then (SQLITE_READONLY, b)
         else
           let (rc, b) = btree_resize env pageSize (if nReserve < x then x else nReserve) b; t = get_tree b
           in (rc, if iFix \<noteq> 0 then set_tree (t\<lparr>bt_btsFlags := bt_btsFlags t OR BTS_PAGESIZE_FIXED\<rparr>) b else b))"

definition sqlite3BtreeSecureDelete :: "int \<Rightarrow> conn_bt \<Rightarrow> int \<times> conn_bt" where
  "sqlite3BtreeSecureDelete newFlag b =
     (let t = get_tree b;
          f = (if newFlag \<ge> 0
               then bt_btsFlags t AND NOT BTS_FAST_SECURE OR word_of_int (uint BTS_SECURE_DELETE * newFlag mod 2 ^ 16)
               else bt_btsFlags t)
      in (uint (f AND BTS_FAST_SECURE) div uint BTS_SECURE_DELETE, set_tree (t\<lparr>bt_btsFlags := f\<rparr>) b))"

definition sqlite3BtreeSetAutoVacuum :: "int \<Rightarrow> conn_bt \<Rightarrow> rc \<times> conn_bt" where
  "sqlite3BtreeSetAutoVacuum autoVacuum b =
     (let t = get_tree b; av = autoVacuum mod 256; on = (if av \<noteq> 0 then 1 else 0)
      in if bt_btsFlags t AND BTS_PAGESIZE_FIXED \<noteq> 0 \<and> on \<noteq> bt_autoVacuum t then (SQLITE_READONLY, b)
         else (SQLITE_OK, (set_tree (t\<lparr>bt_autoVacuum := on\<rparr>) b)\<lparr>cb_incrVacuum := (if av = 2 then 1 else 0)\<rparr>))"

section \<open>Attaching a codec\<close>

definition put_bt :: "nat \<Rightarrow> conn_bt \<Rightarrow> conn \<Rightarrow> conn" where
  "put_bt i b c = c\<lparr>aDb := (aDb c)[i := (aDb c ! i)\<lparr>db_pBt := Some b\<rparr>]\<rparr>"

definition codec_set_btree_to_codec_pagesize :: "pager_env \<Rightarrow> nat \<Rightarrow> codec_ctx \<Rightarrow> conn \<Rightarrow> (rc \<times> conn) option" where
  "codec_set_btree_to_codec_pagesize env i ctx c = do {
     let c = c\<lparr>db_mutex := db_mutex c + 1, nextPagesize := page_sz ctx\<rparr>;
     b \<leftarrow> db_pBt (aDb c ! i);
     let t = get_tree b;
     let b = set_tree (t\<lparr>bt_btsFlags := bt_btsFlags t AND NOT BTS_PAGESIZE_FIXED\<rparr>) b;
     let (rc, b) = sqlite3BtreeSetPageSize env (page_sz ctx) (reserve_sz ctx) 0 b;
     let c = put_bt i b c;
     Some (rc, c\<lparr>db_mutex := db_mutex c - 1\<rparr>)
   }"

definition codec_set_pass_key :: "nat \<Rightarrow> bytes option \<Rightarrow> int \<Rightarrow> int \<Rightarrow> conn \<Rightarrow> (rc \<times> conn) option" where
  "codec_set_pass_key i zKey nKey for_ctx c =
     (case db_pBt (aDb c ! i) of
        None \<Rightarrow> Some (SQLITE_ERROR, c)
      | Some b \<Rightarrow>
          (case sqlcipherPagerGetCodec b of
             None \<Rightarrow> Some (SQLITE_ERROR, c)
           | Some ctx \<Rightarrow> do {
               (rc, ctx, w) \<leftarrow> sqlcipher_codec_ctx_set_pass ctx zKey nKey for_ctx (cn_world c);
               Some (rc, put_bt i (b\<lparr>cb_pager := (cb_pager b)\<lparr>pg_codec := Some ctx\<rparr>\<rparr>) (c\<lparr>cn_world := w\<rparr>))
             }))"

text \<open>A codec that is there already: whether to go on, and the pager it is taken from. \<open>sqlite_debug\<close> is \<open>SQLITE_DEBUG\<close>.\<close>

definition attach_reset :: "bool \<Rightarrow> conn_bt \<Rightarrow> world \<Rightarrow> (bool \<times> conn_bt \<times> world) option" where
  "attach_reset sqlite_debug b w =
     (case sqlcipherPagerGetCodec b of
        None \<Rightarrow> Some (True, b, w)
      | Some ctx \<Rightarrow>
          if SQLCIPHER_FLAG_GET (flags ctx) CIPHER_FLAG_KEY_USED then Some (False, b, w)
          else if \<not> sqlite_debug \<and> cb_sharable b then Some (False, b, w)
          else do { w \<leftarrow> sqlcipher_codec_ctx_free ctx w; Some (True, sqlcipherPagerSetCodec False None b, w) })"

definition attach_failed :: "rc \<Rightarrow> conn_bt \<Rightarrow> conn_bt" where
  "attach_failed rc b =
     (let t = get_tree b;
          b = (if bt_inTransaction t \<noteq> TRANS_WRITE then set_tree (t\<lparr>bt_btsFlags := bt_btsFlags t OR BTS_READ_ONLY\<rparr>) b
               else b\<lparr>cb_pager := sqlite3pager_error rc (cb_pager b)\<rparr>);
          t = get_tree b
      in set_tree (t\<lparr>bt_errCode := rc\<rparr>) b)"

definition attach_codec ::
    "bool \<Rightarrow> pager_env \<Rightarrow> provider \<Rightarrow> nat \<Rightarrow> bytes option \<Rightarrow> int \<Rightarrow> conn \<Rightarrow> (rc \<times> conn) option" where
  "attach_codec sqlite_debug env p i zKey nKey c = do {
     b \<leftarrow> db_pBt (aDb c ! i);
     (go, b, w) \<leftarrow> attach_reset sqlite_debug b (cn_world c);
     if \<not> go then Some (SQLITE_OK, put_bt i b (c\<lparr>cn_world := w\<rparr>))
     else do {
       let fd = pg_isOpen (cb_pager b);
       (rc, x, w) \<leftarrow> sqlcipher_codec_ctx_init p (get_tree b) zKey nKey w;
       let c = c\<lparr>cn_world := w\<rparr>;
       if rc \<noteq> SQLITE_OK then Some (rc, put_bt i (attach_failed rc b) c)
       else do {
         ctx \<leftarrow> x;
         let c = put_bt i (sqlcipherPagerSetCodec True (Some ctx) b) c;
         (_, c) \<leftarrow> codec_set_btree_to_codec_pagesize env i ctx c;
         b \<leftarrow> db_pBt (aDb c ! i);
         let (_, b) = sqlite3BtreeSecureDelete 1 b;
         let b = (if fd then snd (sqlite3BtreeSetAutoVacuum SQLITE_DEFAULT_AUTOVACUUM b) else b);
         Some (rc, put_bt i b c)
       }
     }
   }"

definition sqlcipherCodecAttach ::
    "bool \<Rightarrow> library \<Rightarrow> pager_env \<Rightarrow> provider \<Rightarrow> conn option \<Rightarrow> int \<Rightarrow> bytes option \<Rightarrow> int \<Rightarrow> (rc \<times> conn option) option" where
  "sqlcipherCodecAttach sqlite_debug l env p db nDb zKey nKey =
     (if \<not> sqlcipher_init l then Some (sqlcipher_init_error l, db)
      else if \<not> (nKey > 0 \<and> zKey \<noteq> None) then Some (SQLITE_MISUSE, db)
      else
        (case db of
           None \<Rightarrow> Some (SQLITE_MISUSE, db)
         | Some c \<Rightarrow>
             if \<not> (nDb \<ge> 0 \<and> nDb < int (length (aDb c)) \<and> db_pBt (aDb c ! nat nDb) \<noteq> None) then Some (SQLITE_MISUSE, db)
             else do {
               b \<leftarrow> db_pBt (aDb c ! nat nDb);
               let extra = (if cb_sharable b then if sqlcipher_mutex l SQLCIPHER_MUTEX_SHAREDCACHE = None then 0 else 1 else 0);
               let c = c\<lparr>db_mutex := db_mutex c + 1, shared_mutex := shared_mutex c + extra\<rparr>;
               (rc, c) \<leftarrow> attach_codec sqlite_debug env p (nat nDb) zKey nKey c;
               Some (rc, Some (c\<lparr>shared_mutex := shared_mutex c - extra, db_mutex := db_mutex c - 1\<rparr>))
             }))"

fun find_db_loop :: "conn_db list \<Rightarrow> int \<Rightarrow> bytes option \<Rightarrow> int" where
  "find_db_loop [] i zDb = - 1"
| "find_db_loop (d # ds) i zDb = (if sqlite3_stricmp (zDbSName d) zDb = 0 then i else find_db_loop ds (i + 1) zDb)"

definition sqlcipher_find_db_index :: "conn option \<Rightarrow> bytes option \<Rightarrow> int" where
  "sqlcipher_find_db_index db zDb =
     (case db of
        None \<Rightarrow> - 1
      | Some c \<Rightarrow> if zDb = None \<or> sqlite3_stricmp zDb (Some (str '''')) = 0 then 0 else find_db_loop (aDb c) 0 zDb)"

text \<open>\<open>strlen\<close> as an \<open>int\<close>, reading up to a terminator inside the key.\<close>

definition key_len :: "bytes option \<Rightarrow> int \<Rightarrow> int option" where
  "key_len pKey nKey =
     (case pKey of
        None \<Rightarrow> Some nKey
      | Some z \<Rightarrow>
          if nKey < 0 then
            if 0 \<in> set z then Some ((int (length (takeWhile (\<lambda>c. c \<noteq> 0) z)) + 2 ^ 31) mod 2 ^ 32 - 2 ^ 31) else None
          else Some nKey)"

definition sqlite3_key_v2 ::
    "bool \<Rightarrow> library \<Rightarrow> pager_env \<Rightarrow> provider \<Rightarrow> conn option \<Rightarrow> bytes option \<Rightarrow> bytes option \<Rightarrow> int \<Rightarrow> (rc \<times> conn option) option" where
  "sqlite3_key_v2 sqlite_debug l env p db zDb pKey nKey = do {
     let db_index = sqlcipher_find_db_index db zDb;
     nKey \<leftarrow> key_len pKey nKey;
     sqlcipherCodecAttach sqlite_debug l env p db db_index pKey nKey
   }"

definition sqlite3_key ::
    "bool \<Rightarrow> library \<Rightarrow> pager_env \<Rightarrow> provider \<Rightarrow> conn option \<Rightarrow> bytes option \<Rightarrow> int \<Rightarrow> (rc \<times> conn option) option" where
  "sqlite3_key sqlite_debug l env p db pKey nKey = sqlite3_key_v2 sqlite_debug l env p db (Some (str ''main'')) pKey nKey"

section \<open>Changing the key\<close>

record rekey_env =
  re_begin :: ctx_step
  re_pagecount :: int
  re_get :: "u32 \<Rightarrow> ctx_step"
  re_write :: "u32 \<Rightarrow> ctx_step"
  re_commit :: ctx_step
  re_rollback :: ctx_step

type_synonym rekey_state = "codec_ctx \<times> world \<times> pager_op list"

definition rekey_page :: "rekey_env \<Rightarrow> u32 \<Rightarrow> rekey_state \<Rightarrow> (rc \<times> rekey_state) option" where
  "rekey_page env pgno st = do {
     let (ctx, w, ops) = st;
     (rc, ctx, w) \<leftarrow> re_get env pgno ctx w;
     let ops = ops @ [Op_Get pgno rc];
     if rc = SQLITE_OK then do {
       (rc, ctx, w) \<leftarrow> re_write env pgno ctx w;
       let ops = ops @ [Op_Write pgno rc];
       Some (rc, ctx, w, if rc = SQLITE_OK then ops @ [Op_Unref pgno] else ops)
     }
     else Some (rc, ctx, w, ops)
   }"

partial_function (option) rekey_loop :: "rekey_env \<Rightarrow> pager \<Rightarrow> u32 \<Rightarrow> u32 \<Rightarrow> rc \<Rightarrow> rekey_state \<Rightarrow> (rc \<times> rekey_state) option" where
  "rekey_loop env pg n pgno rc st =
     (if rc = SQLITE_OK \<and> pgno \<le> n then do {
        (rc, st) \<leftarrow> (if \<not> sqlite3pager_is_sj_pgno pg pgno then rekey_page env pgno st else Some (rc, st));
        rekey_loop env pg n (pgno + 1) rc st
      }
      else Some (rc, st))"

text \<open>The transaction over the pages of one database.\<close>

definition rekey_pages :: "rekey_env \<Rightarrow> pager \<Rightarrow> codec_ctx \<Rightarrow> world \<Rightarrow> (rc \<times> rekey_state) option" where
  "rekey_pages env pg ctx w = do {
     (rc, ctx, w) \<leftarrow> re_begin env ctx w;
     let ops = [Op_BeginTrans rc];
     if rc \<noteq> SQLITE_OK then Some (rc, ctx, w, ops)
     else do {
       (rc, ctx, w, ops) \<leftarrow> rekey_loop env pg (word_of_int (re_pagecount env)) 1 rc (ctx, w, ops);
       if rc = SQLITE_OK then do {
         (e, ctx, w) \<leftarrow> re_commit env ctx w;
         (_, ctx, w) \<leftarrow> sqlcipher_codec_key_copy ctx CIPHER_WRITE_CTX w;
         Some (rc, ctx, w, ops @ [Op_Commit e])
       }
       else do {
         (_, ctx, w) \<leftarrow> re_rollback env ctx w;
         Some (rc, ctx, w, ops @ [Op_Rollback])
       }
     }
   }"

text \<open>With the database mutex held.\<close>

definition rekey_db :: "rekey_env \<Rightarrow> bytes option \<Rightarrow> bytes option \<Rightarrow> int \<Rightarrow> conn \<Rightarrow> (rc \<times> conn) option" where
  "rekey_db env zDb pKey nKey c = do {
     let db_index = sqlcipher_find_db_index (Some c) zDb;
     if \<not> (db_index \<ge> 0 \<and> db_index < int (length (aDb c))) then Some (SQLITE_MISUSE, c)
     else
       (case db_pBt (aDb c ! nat db_index) of
          None \<Rightarrow> Some (SQLITE_ERROR, c)
        | Some b \<Rightarrow>
            if sqlcipherPagerGetCodec b = None then Some (SQLITE_MISUSE, c)
            else do {
              (_, c) \<leftarrow> codec_set_pass_key (nat db_index) pKey nKey CIPHER_WRITE_CTX c;
              b \<leftarrow> db_pBt (aDb c ! nat db_index);
              ctx \<leftarrow> sqlcipherPagerGetCodec b;
              (rc, ctx, w, ops) \<leftarrow> rekey_pages env (cb_pager b) ctx (cn_world c);
              Some (rc, put_bt (nat db_index) (b\<lparr>cb_pager := (cb_pager b)\<lparr>pg_codec := Some ctx, pg_ops := pg_ops (cb_pager b) @ ops\<rparr>\<rparr>)
                          (c\<lparr>cn_world := w\<rparr>))
            })
   }"

definition sqlite3_rekey_v2 ::
    "library \<Rightarrow> rekey_env \<Rightarrow> conn option \<Rightarrow> bytes option \<Rightarrow> bytes option \<Rightarrow> int \<Rightarrow> (rc \<times> conn option) option" where
  "sqlite3_rekey_v2 l env db zDb pKey nKey = do {
     nKey \<leftarrow> key_len pKey nKey;
     if \<not> sqlcipher_init l then Some (sqlcipher_init_error l, db)
     else do {
       (rc, db) \<leftarrow> (case db of
          None \<Rightarrow> Some (SQLITE_MISUSE, None)
        | Some c \<Rightarrow>
            if pKey \<noteq> None \<and> nKey > 0
            then map_option (map_prod id Some) (rekey_db env zDb pKey nKey (c\<lparr>db_mutex := db_mutex c + 1\<rparr>))
            else Some (SQLITE_MISUSE, Some c));
       Some (rc, map_option (\<lambda>c. c\<lparr>db_mutex := db_mutex c - 1\<rparr>) db)
     }
   }"

definition sqlite3_rekey :: "library \<Rightarrow> rekey_env \<Rightarrow> conn option \<Rightarrow> bytes option \<Rightarrow> int \<Rightarrow> (rc \<times> conn option) option" where
  "sqlite3_rekey l env db pKey nKey = sqlite3_rekey_v2 l env db (Some (str ''main'')) pKey nKey"

section \<open>Handing out the key\<close>

definition sqlcipherCodecGetKey :: "conn option \<Rightarrow> int \<Rightarrow> (buf option \<times> int \<times> conn option) option" where
  "sqlcipherCodecGetKey db nDb =
     (case db of
        None \<Rightarrow> Some (None, 0, db)
      | Some c \<Rightarrow>
          if \<not> (nDb \<ge> 0 \<and> nDb < int (length (aDb c))) then Some (None, 0, db)
          else
            (case Option.bind (db_pBt (aDb c ! nat nDb)) sqlcipherPagerGetCodec of
               None \<Rightarrow> Some (None, 0, db)
             | Some ctx \<Rightarrow> do {
                 r \<leftarrow> read_ctx ctx;
                 if derive_key r \<noteq> 0 \<or> store_pass ctx = 1 then do {
                   (x, w) \<leftarrow> buf_malloc (pass_sz r) (cn_world c);
                   let c = c\<lparr>cn_world := w\<rparr>;
                   case x of
                     None \<Rightarrow> Some (None, 0, Some c)
                   | Some (a, d) \<Rightarrow> do { (_, z) \<leftarrow> pass r; Some (Some (a, memcpy_at d 0 (take (nat (pass_sz r)) z)), pass_sz r, Some c) }
                 }
                 else do {
                   (_, k, n, w) \<leftarrow> sqlcipher_cipher_ctx_get_keyspec ctx r (cn_world c);
                   Some (k, n, Some (c\<lparr>cn_world := w\<rparr>))
                 }
               }))"

section \<open>What a connection owns\<close>

definition bt_owned :: "conn_bt \<Rightarrow> (nat \<times> nat) multiset" where
  "bt_owned b = (case pg_codec (cb_pager b) of None \<Rightarrow> {#} | Some ctx \<Rightarrow> codec_owned ctx)"

definition db_owned :: "conn_db \<Rightarrow> (nat \<times> nat) multiset" where
  "db_owned d = (case db_pBt d of None \<Rightarrow> {#} | Some b \<Rightarrow> bt_owned b)"

definition conn_owned :: "conn \<Rightarrow> (nat \<times> nat) multiset" where
  "conn_owned c = sum_list (map db_owned (aDb c))"

definition conn_rest :: "nat \<Rightarrow> conn \<Rightarrow> (nat \<times> nat) multiset" where
  "conn_rest i c = sum_list (map db_owned (take i (aDb c) @ drop (Suc i) (aDb c)))"

lemma conn_owned_at: "i < length (aDb c) \<Longrightarrow> db_pBt (aDb c ! i) = Some b \<Longrightarrow> conn_owned c = conn_rest i c + bt_owned b"
  by (subst conn_owned_def, subst id_take_nth_drop [of i "aDb c"]) (simp_all add: conn_rest_def db_owned_def ac_simps)

lemma conn_fields [simp]:
  "conn_rest i (c\<lparr>cn_world := w\<rparr>) = conn_rest i c" "conn_rest i (c\<lparr>db_mutex := m\<rparr>) = conn_rest i c" "conn_rest i (c\<lparr>nextPagesize := n\<rparr>) = conn_rest i c"
  "conn_rest i (c\<lparr>shared_mutex := m\<rparr>) = conn_rest i c" "conn_rest i (put_bt i b c) = conn_rest i c"
  "conn_owned (c\<lparr>db_mutex := m\<rparr>) = conn_owned c" "conn_owned (c\<lparr>shared_mutex := m\<rparr>) = conn_owned c"
  by (simp_all add: conn_rest_def put_bt_def conn_owned_def)

lemma put_bt_fields [simp]:
  "cn_world (put_bt i b c) = cn_world c" "db_mutex (put_bt i b c) = db_mutex c" "shared_mutex (put_bt i b c) = shared_mutex c"
  "length (aDb (put_bt i b c)) = length (aDb c)" "j \<noteq> i \<Longrightarrow> aDb (put_bt i b c) ! j = aDb c ! j"
  "i < length (aDb c) \<Longrightarrow> db_pBt (aDb (put_bt i b c) ! i) = Some b"
  by (simp_all add: put_bt_def)

lemma put_bt_put [simp]: "put_bt i b (put_bt i b' c) = put_bt i b c"
  by (cases "i < length (aDb c)") (simp_all add: put_bt_def not_less list_update_beyond)

lemma put_bt_comm [simp]:
  "put_bt i b (c\<lparr>db_mutex := m\<rparr>) = (put_bt i b c)\<lparr>db_mutex := m\<rparr>" "put_bt i b (c\<lparr>nextPagesize := n\<rparr>) = (put_bt i b c)\<lparr>nextPagesize := n\<rparr>"
  by (simp_all add: put_bt_def)

lemma conn_owned_put: "i < length (aDb c) \<Longrightarrow> conn_owned (put_bt i b c) = conn_rest i c + bt_owned b"
  using conn_owned_at [of i "put_bt i b c" b] by simp

section \<open>What setting up the B-tree keeps of the codec\<close>

lemma codec_tree [simp]: "codec_owned (ctx\<lparr>pBt := t\<rparr>) = codec_owned ctx" "codec_wf (ctx\<lparr>pBt := t\<rparr>) = codec_wf ctx"
  by (simp_all add: codec_owned_def codec_wf_def settings_wf_def buffers_wf_def ciphers_wf_def)

definition holds_codec :: "codec_ctx \<Rightarrow> conn_bt \<Rightarrow> bool" where
  "holds_codec ctx b \<longleftrightarrow> (\<exists>t. pg_codec (cb_pager b) = Some (ctx\<lparr>pBt := t\<rparr>))"

lemma pager_resize_codec:
  "pg_codec (snd (pager_resize env ps pg)) = pg_codec pg \<and> pg_xCodec (snd (pager_resize env ps pg)) = pg_xCodec pg"
  by (simp add: pager_resize_def Let_def split: prod.split)

lemma pager_pagesize_codec:
  assumes "sqlite3PagerSetPagesize env ps rs pg = (rc, n, pg')"
  shows "pg_codec pg' = pg_codec pg \<and> pg_xCodec pg' = pg_xCodec pg \<and> pg_pageSize pg' = n"
proof -
  obtain e q where q: "(if (\<not> pg_memDb pg \<or> pg_dbSize pg = 0) \<and> pe_refs env = 0 \<and> ps \<noteq> 0 \<and> ps \<noteq> pg_pageSize pg
      then pager_resize env ps pg else (SQLITE_OK, pg)) = (e, q)" by fastforce
  then have "pg_codec q = pg_codec pg \<and> pg_xCodec q = pg_xCodec pg" using pager_resize_codec [of env ps pg] by (auto split: if_splits)
  moreover have "pg' = (if e = 0 then q\<lparr>pg_nReserve := i16_cast (if rs < 0 then pg_nReserve q else rs)\<rparr> else q)" "n = pg_pageSize q"
    using assms unfolding sqlite3PagerSetPagesize_def q Let_def by auto
  ultimately show ?thesis by simp
qed

lemma ctx_tree_eq: "x\<lparr>pBt := t\<rparr> = y\<lparr>pBt := s\<rparr> \<Longrightarrow> x = y\<lparr>pBt := pBt x\<rparr>"
  by (drule arg_cong [where f = "\<lambda>z. z\<lparr>pBt := pBt x\<rparr>"]) simp

lemma set_tree_fields [simp]:
  "get_tree (set_tree t b) = t" "cb_pageSize (set_tree t b) = cb_pageSize b" "cb_usableSize (set_tree t b) = cb_usableSize b"
  "pg_pageSize (cb_pager (set_tree t b)) = pg_pageSize (cb_pager b)" "pg_memDb (cb_pager (set_tree t b)) = pg_memDb (cb_pager b)"
  "pg_dbSize (cb_pager (set_tree t b)) = pg_dbSize (cb_pager b)"
  "pg_xCodec (cb_pager (set_tree t b)) = pg_xCodec (cb_pager b)" "holds_codec ctx (set_tree t b) = holds_codec ctx b"
  by (auto simp: set_tree_def get_tree_def holds_codec_def split: option.splits dest: ctx_tree_eq)

lemma btree_resize_codec:
  assumes "btree_resize env ps rs b = (rc, b')"
  shows "pg_codec (cb_pager b') = pg_codec (cb_pager b) \<and> pg_xCodec (cb_pager b') = pg_xCodec (cb_pager b)"
proof -
  define size where "size = (if 512 \<le> ps \<and> ps \<le> SQLITE_MAX_PAGE_SIZE \<and> (ps - 1) AND ps = 0
      then if rs > 32 \<and> ps = 512 then 1024 else ps else cb_pageSize b)"
  obtain e n pg where p: "sqlite3PagerSetPagesize env size rs (cb_pager b) = (e, n, pg)" by (metis prod_cases3)
  then have "cb_pager b' = pg" using assms by (auto simp: btree_resize_def Let_def simp flip: size_def)
  then show ?thesis using pager_pagesize_codec [OF p] by simp
qed

lemma btree_pagesize_codec:
  assumes "sqlite3BtreeSetPageSize env ps rs 0 b = (rc, b')"
  shows "pg_codec (cb_pager b') = pg_codec (cb_pager b) \<and> pg_xCodec (cb_pager b') = pg_xCodec (cb_pager b)"
proof -
  obtain e q where q: "btree_resize env ps (if rs < cb_pageSize b - cb_usableSize b then cb_pageSize b - cb_usableSize b else rs)
      (b\<lparr>cb_nReserveWanted := rs mod 256\<rparr>) = (e, q)" by fastforce
  have "b' = b\<lparr>cb_nReserveWanted := rs mod 256\<rparr> \<or> b' = q"
    using assms q by (auto simp: sqlite3BtreeSetPageSize_def Let_def split: if_splits)
  then show ?thesis using btree_resize_codec [OF q] by auto
qed

lemma secure_delete_codec:
  "holds_codec ctx (snd (sqlite3BtreeSecureDelete 1 b)) = holds_codec ctx b" "bit (bt_btsFlags (get_tree (snd (sqlite3BtreeSecureDelete 1 b)))) 2"
  "pg_xCodec (cb_pager (snd (sqlite3BtreeSecureDelete 1 b))) = pg_xCodec (cb_pager b)"
  "pg_pageSize (cb_pager (snd (sqlite3BtreeSecureDelete 1 b))) = pg_pageSize (cb_pager b)"
  by (simp_all add: sqlite3BtreeSecureDelete_def Let_def BTS_SECURE_DELETE_def BTS_FAST_SECURE_def bit_simps)

lemma auto_vacuum_codec:
  "holds_codec ctx (snd (sqlite3BtreeSetAutoVacuum v b)) = holds_codec ctx b"
  "bt_btsFlags (get_tree (snd (sqlite3BtreeSetAutoVacuum v b))) = bt_btsFlags (get_tree b)"
  "pg_xCodec (cb_pager (snd (sqlite3BtreeSetAutoVacuum v b))) = pg_xCodec (cb_pager b)"
  "pg_pageSize (cb_pager (snd (sqlite3BtreeSetAutoVacuum v b))) = pg_pageSize (cb_pager b)"
proof -
  have [simp]: "holds_codec ctx (x\<lparr>cb_incrVacuum := k\<rparr>) = holds_codec ctx x" "get_tree (x\<lparr>cb_incrVacuum := k\<rparr>) = get_tree x" for x k
    by (simp_all add: holds_codec_def get_tree_def split: option.split)
  show "holds_codec ctx (snd (sqlite3BtreeSetAutoVacuum v b)) = holds_codec ctx b"
    "bt_btsFlags (get_tree (snd (sqlite3BtreeSetAutoVacuum v b))) = bt_btsFlags (get_tree b)"
    "pg_xCodec (cb_pager (snd (sqlite3BtreeSetAutoVacuum v b))) = pg_xCodec (cb_pager b)"
    "pg_pageSize (cb_pager (snd (sqlite3BtreeSetAutoVacuum v b))) = pg_pageSize (cb_pager b)"
    by (simp_all add: sqlite3BtreeSetAutoVacuum_def Let_def)
qed

text \<open>A pager that can take any page size, and the size it then has.\<close>

definition pager_free :: "pager_env \<Rightarrow> pager \<Rightarrow> bool" where
  "pager_free env pg \<longleftrightarrow> (pg_memDb pg \<longrightarrow> pg_dbSize pg = 0) \<and> pe_refs env = 0 \<and> fst (pe_filesize env) = SQLITE_OK
     \<and> pe_pagemalloc env \<and> pe_pcache env = SQLITE_OK"

definition pager_size :: "int \<Rightarrow> int \<Rightarrow> conn_bt \<Rightarrow> int" where
  "pager_size ps rs b =
     (let x = cb_pageSize b - cb_usableSize b
      in if ps = 512 \<and> max rs x > 32 \<and> \<not> (x = rs \<and> cb_pageSize b = 512) then 1024 else ps)"

lemma pager_pagesize_free:
  assumes "pager_free env pg" "n \<noteq> 0"
  shows "\<exists>pg'. sqlite3PagerSetPagesize env n rs pg = (SQLITE_OK, n, pg') \<and> pg_pageSize pg' = n"
proof -
  obtain k where k: "pe_filesize env = (0, k)" using assms(1) by (cases "pe_filesize env") (simp add: pager_free_def)
  show ?thesis
  proof (cases "n = pg_pageSize pg")
    case True
    then show ?thesis by (simp add: sqlite3PagerSetPagesize_def)
  next
    case False
    then have c: "(\<not> pg_memDb pg \<or> pg_dbSize pg = 0) \<and> pe_refs env = 0 \<and> n \<noteq> 0 \<and> n \<noteq> pg_pageSize pg"
      using assms by (auto simp: pager_free_def)
    have "fst (pager_resize env n pg) = 0" "pg_pageSize (snd (pager_resize env n pg)) = n"
      using assms k by (simp_all add: pager_resize_def pager_free_def Let_def split: prod.split)
    then show ?thesis unfolding sqlite3PagerSetPagesize_def if_P [OF c]
      by (cases "pager_resize env n pg") simp
  qed
qed

lemma btree_pagesize_free:
  assumes "pager_free env (cb_pager b)" "page_size_ok ps" "bt_btsFlags (get_tree b) AND BTS_PAGESIZE_FIXED = 0" "cb_pageSize b = pg_pageSize (cb_pager b)"
    and "sqlite3BtreeSetPageSize env ps rs 0 b = (rc, b')"
  shows "pg_pageSize (cb_pager b') = pager_size ps rs b"
proof -
  let ?b = "b\<lparr>cb_nReserveWanted := rs mod 256\<rparr>" and ?x = "cb_pageSize b - cb_usableSize b"
  define m where "m = (if rs < ?x then ?x else rs)"
  have ps: "512 \<le> ps \<and> ps \<le> SQLITE_MAX_PAGE_SIZE \<and> (ps - 1) AND ps = 0"
    using assms(2) by (simp add: page_size_ok_def SQLITE_MAX_PAGE_SIZE_def and.commute)
  have t: "get_tree ?b = get_tree b" by (simp add: get_tree_def split: option.split)
  show ?thesis
  proof (cases "?x = rs \<and> ps = cb_pageSize b")
    case True
    then have "b' = ?b" using assms(5) ps by (auto simp: sqlite3BtreeSetPageSize_def Let_def)
    then show ?thesis using True assms(4) by (auto simp: pager_size_def Let_def)
  next
    case False
    define size where "size = (if m > 32 \<and> ps = 512 then 1024 else ps)"
    have "size \<noteq> 0" using ps by (auto simp: size_def)
    then obtain pg where pg: "sqlite3PagerSetPagesize env size m (cb_pager ?b) = (0, size, pg)" "pg_pageSize pg = size"
      using pager_pagesize_free [of env "cb_pager ?b" size m] assms(1) by auto
    have "\<not> (?x = rs \<and> (ps = 0 \<or> ps = cb_pageSize b))" using False ps by auto
    then have "sqlite3BtreeSetPageSize env ps rs 0 b = btree_resize env ps m ?b"
      using assms(3) t unfolding sqlite3BtreeSetPageSize_def Let_def by (cases "rs < ?x"; cases "btree_resize env ps m ?b") (auto simp: m_def)
    then have "(rc, b') = btree_resize env ps m ?b" using assms(5) by simp
    also have "btree_resize env ps m ?b = (0, ?b\<lparr>cb_pager := pg, cb_pageSize := size, cb_usableSize := size - m mod 2 ^ 16\<rparr>)"
      using pg(1) unfolding btree_resize_def if_P [OF ps] size_def [symmetric] by simp
    finally have "pg_pageSize (cb_pager b') = size" using pg(2) by simp
    moreover have "m > 32 \<longleftrightarrow> max rs ?x > 32" by (auto simp: m_def)
    ultimately show ?thesis using False by (auto simp: pager_size_def size_def Let_def)
  qed
qed

lemma not_fixed: "(x AND NOT BTS_PAGESIZE_FIXED) AND BTS_PAGESIZE_FIXED = 0"
  by (rule bit_word_eqI) (auto simp: bit_simps)

text \<open>The calls after the context is attached.\<close>

lemma set_pagesize_run:
  assumes "i < length (aDb c)" "db_pBt (aDb c ! i) = Some b" "pg_codec (cb_pager b) = Some ctx" "codec_wf ctx"
  shows "\<exists>e c' b'. codec_set_btree_to_codec_pagesize env i ctx c = Some (e, c') \<and> aDb c' = aDb (put_bt i b' c) \<and> db_mutex c' = db_mutex c
    \<and> shared_mutex c' = shared_mutex c \<and> cn_world c' = cn_world c \<and> holds_codec ctx b' \<and> pg_xCodec (cb_pager b') = pg_xCodec (cb_pager b)
    \<and> (pager_free env (cb_pager b) \<and> cb_pageSize b = pg_pageSize (cb_pager b) \<longrightarrow> pg_pageSize (cb_pager b') = pager_size (page_sz ctx) (reserve_sz ctx) b)"
proof -
  define t where "t = (get_tree b)\<lparr>bt_btsFlags := bt_btsFlags (get_tree b) AND NOT BTS_PAGESIZE_FIXED\<rparr>"
  obtain e b' where s: "sqlite3BtreeSetPageSize env (page_sz ctx) (reserve_sz ctx) 0 (set_tree t b) = (e, b')" by fastforce
  have "holds_codec ctx b" using assms(3) by (auto simp: holds_codec_def intro!: exI [of _ "pBt ctx"])
  then have "holds_codec ctx (set_tree t b)" by simp
  then have h: "holds_codec ctx b'" "pg_xCodec (cb_pager b') = pg_xCodec (cb_pager b)"
    using btree_pagesize_codec [OF s] unfolding holds_codec_def by simp_all
  have pf: "pager_free env (cb_pager (set_tree t b)) = pager_free env (cb_pager b)" by (simp add: pager_free_def)
  have "page_size_ok (page_sz ctx)" using assms(4) by (simp add: codec_wf_def settings_wf_def)
  then have "pager_free env (cb_pager b) \<and> cb_pageSize b = pg_pageSize (cb_pager b) \<longrightarrow> pg_pageSize (cb_pager b') = pager_size (page_sz ctx) (reserve_sz ctx) b"
    using btree_pagesize_free [OF _ _ _ _ s] pf by (simp add: t_def not_fixed pager_size_def)
  then show ?thesis using assms(1,2) h s
    by (intro exI [of _ e] exI [of _ "(put_bt i b' c)\<lparr>db_mutex := db_mutex c, nextPagesize := page_sz ctx\<rparr>"] exI [of _ b'])
      (simp add: codec_set_btree_to_codec_pagesize_def Let_def put_bt_def t_def)
qed

section \<open>Attaching\<close>

text \<open>A codec that stays: its key was used, or the cache is shared.\<close>

definition codec_kept :: "bool \<Rightarrow> conn_bt \<Rightarrow> bool" where
  "codec_kept sqlite_debug b \<longleftrightarrow>
     (case sqlcipherPagerGetCodec b of
        None \<Rightarrow> False
      | Some ctx \<Rightarrow> SQLCIPHER_FLAG_GET (flags ctx) CIPHER_FLAG_KEY_USED \<or> \<not> sqlite_debug \<and> cb_sharable b)"

text \<open>Both contexts hold the passphrase, no key is derived yet.\<close>

definition keyed :: "bytes \<Rightarrow> codec_ctx \<Rightarrow> bool" where
  "keyed z ctx \<longleftrightarrow> (\<exists>r t. read_ctx ctx = Some r \<and> write_ctx ctx = Some t \<and> derive_key r = 1 \<and> contents (pass r) = Some z \<and> same_material r t)"

definition attached :: "pager_env \<Rightarrow> conn_bt \<Rightarrow> bytes \<Rightarrow> conn_bt \<Rightarrow> bool" where
  "attached env b z b' \<longleftrightarrow> (\<exists>ctx. sqlcipherPagerGetCodec b' = Some ctx \<and> codec_wf ctx \<and> keyed z ctx
     \<and> pg_xCodec (cb_pager b') = (\<not> pg_memDb (cb_pager b)) \<and> bit (bt_btsFlags (get_tree b')) 2
     \<and> (pager_free env (cb_pager b) \<and> cb_pageSize b = pg_pageSize (cb_pager b) \<longrightarrow>
          pg_pageSize (cb_pager b') = pager_size (page_sz ctx) (reserve_sz ctx) b))"

definition attach_refused :: "rc \<Rightarrow> conn_bt \<Rightarrow> bool" where
  "attach_refused rc b' \<longleftrightarrow> sqlcipherPagerGetCodec b' = None \<and> bt_errCode (get_tree b') = rc
     \<and> (bit (bt_btsFlags (get_tree b')) 0 \<or> pg_errCode (cb_pager b') = rc \<and> pg_eState (cb_pager b') = PAGER_ERROR)"

lemma attach_failed_refused: "pg_codec (cb_pager b) = None \<Longrightarrow> attach_refused rc (attach_failed rc b) \<and> bt_owned (attach_failed rc b) = {#}"
  by (simp add: attach_refused_def attach_failed_def sqlcipherPagerGetCodec_def set_tree_def get_tree_def sqlite3pager_error_def bt_owned_def BTS_READ_ONLY_def Let_def bit_simps)

lemma attach_reset_run:
  assumes "holds g R (M + bt_owned b) w" "\<not> codec_kept dbg b"
  shows "\<exists>w'. attach_reset dbg b w = Some (True, b\<lparr>cb_tree := get_tree b, cb_pager := (cb_pager b)\<lparr>pg_xCodec := pg_xCodec (cb_pager b) \<and> pg_codec (cb_pager b) = None, pg_codec := None\<rparr>\<rparr>, w')
    \<and> holds g R M w'"
proof (cases "pg_codec (cb_pager b)")
  case None
  then show ?thesis using assms by (simp add: attach_reset_def sqlcipherPagerGetCodec_def bt_owned_def get_tree_def)
next
  case (Some ctx)
  then have "holds g R (M + codec_owned ctx) w" using assms(1) by (simp add: bt_owned_def)
  then obtain w' where "sqlcipher_codec_ctx_free ctx w = Some w'" "holds g R M w'" using holds_codec_free by blast
  then show ?thesis using assms(2) Some by (simp add: attach_reset_def codec_kept_def sqlcipherPagerGetCodec_def sqlcipherPagerSetCodec_def)
qed

lemma attach_finish:
  assumes "i < length (aDb c)" "pg_codec (cb_pager b) = None" "codec_wf ctx" "keyed z ctx"
  shows "\<exists>c' b'. do {
      (_, c1) \<leftarrow> codec_set_btree_to_codec_pagesize env i ctx (put_bt i (sqlcipherPagerSetCodec True (Some ctx) b) c);
      b \<leftarrow> db_pBt (aDb c1 ! i);
      let (_, b) = sqlite3BtreeSecureDelete 1 b;
      let b = (if fd then snd (sqlite3BtreeSetAutoVacuum SQLITE_DEFAULT_AUTOVACUUM b) else b);
      Some (SQLITE_OK, put_bt i b c1) } = Some (SQLITE_OK, c')
    \<and> aDb c' = aDb (put_bt i b' c) \<and> db_mutex c' = db_mutex c \<and> shared_mutex c' = shared_mutex c \<and> cn_world c' = cn_world c
    \<and> attached env b z b' \<and> bt_owned b' = codec_owned ctx"
proof -
  let ?b = "sqlcipherPagerSetCodec True (Some ctx) b"
  have b: "pg_codec (cb_pager ?b) = Some ctx" "pager_free env (cb_pager ?b) = pager_free env (cb_pager b)" "pg_xCodec (cb_pager ?b) = (\<not> pg_memDb (cb_pager b))"
      "(cb_pageSize ?b = pg_pageSize (cb_pager ?b)) = (cb_pageSize b = pg_pageSize (cb_pager b))" "pager_size ps rs ?b = pager_size ps rs b" for ps rs
    by (simp_all add: sqlcipherPagerSetCodec_def pager_free_def pager_size_def)
  obtain e c1 b1 where s: "codec_set_btree_to_codec_pagesize env i ctx (put_bt i ?b c) = Some (e, c1)" "aDb c1 = aDb (put_bt i b1 (put_bt i ?b c))"
      "db_mutex c1 = db_mutex c" "shared_mutex c1 = shared_mutex c" "cn_world c1 = cn_world c" "holds_codec ctx b1" "pg_xCodec (cb_pager b1) = (\<not> pg_memDb (cb_pager b))"
      "pager_free env (cb_pager b) \<and> cb_pageSize b = pg_pageSize (cb_pager b) \<longrightarrow> pg_pageSize (cb_pager b1) = pager_size (page_sz ctx) (reserve_sz ctx) b"
    using set_pagesize_run [of i "put_bt i ?b c" ?b ctx env] assms(1,3) b by auto
  define b3 where "b3 = (if fd then snd (sqlite3BtreeSetAutoVacuum SQLITE_DEFAULT_AUTOVACUUM (snd (sqlite3BtreeSecureDelete 1 b1))) else snd (sqlite3BtreeSecureDelete 1 b1))"
  have p: "holds_codec ctx b3" "bit (bt_btsFlags (get_tree b3)) 2" "pg_xCodec (cb_pager b3) = pg_xCodec (cb_pager b1)" "pg_pageSize (cb_pager b3) = pg_pageSize (cb_pager b1)"
    using s(6) by (simp_all add: b3_def secure_delete_codec auto_vacuum_codec)
  from p(1) obtain t where t: "pg_codec (cb_pager b3) = Some (ctx\<lparr>pBt := t\<rparr>)" unfolding holds_codec_def by blast
  have "keyed z (ctx\<lparr>pBt := t\<rparr>)" using assms(4) by (simp add: keyed_def)
  then have "attached env b z b3" using t p assms(3) s(7,8)
    unfolding attached_def sqlcipherPagerGetCodec_def by (intro exI [of _ "ctx\<lparr>pBt := t\<rparr>"]) simp
  moreover have "bt_owned b3 = codec_owned ctx" using t by (simp add: bt_owned_def)
  moreover have "db_pBt (aDb c1 ! i) = Some b1" using s(2) assms(1) by simp
  moreover have "aDb (put_bt i b3 c1) = aDb (put_bt i b3 c)" using s(2) assms(1) by (simp add: put_bt_def)
  ultimately show ?thesis using s(1,3-5)
    by (intro exI [of _ "put_bt i b3 c1"] exI [of _ b3]) (simp add: b3_def split_beta)
qed

lemma attach_codec_run:
  assumes "i < length (aDb c)" "db_pBt (aDb c ! i) = Some b" "holds g R (K + conn_owned c) (cn_world c)" "provider_ok p" "\<not> bit (default_flags g) 3"
    "0 < nKey" "nat nKey \<le> length z"
  shows "\<exists>rc c' b'. attach_codec dbg env p i (Some z) nKey c = Some (rc, c') \<and> aDb c' = aDb (put_bt i b' c) \<and> db_mutex c' = db_mutex c
    \<and> shared_mutex c' = shared_mutex c \<and> holds g R (K + conn_rest i c + bt_owned b') (cn_world c')
    \<and> (if codec_kept dbg b then rc = SQLITE_OK \<and> b' = b else if rc = SQLITE_OK then attached env b (take (nat nKey) z) b' else attach_refused rc b')"
proof (cases "codec_kept dbg b")
  case True
  then obtain ctx where "pg_codec (cb_pager b) = Some ctx" "SQLCIPHER_FLAG_GET (flags ctx) CIPHER_FLAG_KEY_USED \<or> \<not> dbg \<and> cb_sharable b"
    by (auto simp: codec_kept_def sqlcipherPagerGetCodec_def split: option.splits)
  then have "attach_reset dbg b (cn_world c) = Some (False, b, cn_world c)" by (auto simp: attach_reset_def sqlcipherPagerGetCodec_def)
  then show ?thesis using True assms(1-3) conn_owned_at [OF assms(1,2)]
    by (intro exI [of _ 0] exI [of _ "put_bt i b c"] exI [of _ b]) (simp add: attach_codec_def add.assoc)
next
  case False
  let ?M = "K + conn_rest i c"
  define b0 where "b0 = b\<lparr>cb_tree := get_tree b, cb_pager := (cb_pager b)\<lparr>pg_xCodec := pg_xCodec (cb_pager b) \<and> pg_codec (cb_pager b) = None, pg_codec := None\<rparr>\<rparr>"
  obtain w0 where w0: "attach_reset dbg b (cn_world c) = Some (True, b0, w0)" "holds g R ?M w0"
    using attach_reset_run [of g R ?M b "cn_world c" dbg] False assms(3) conn_owned_at [OF assms(1,2)] by (auto simp: b0_def add.assoc)
  have at: "attached env b0 y b' = attached env b y b'" for y b'
    by (simp add: attached_def b0_def pager_free_def pager_size_def)
  have np: "new_pass (Some z) nKey = Some (take (nat nKey) z)" using assms(6) by (simp add: new_pass_def)
  have "\<exists>rc x w. sqlcipher_codec_ctx_init p (get_tree b0) (Some z) nKey w0 = Some (rc, x, w)
      \<and> (case x of None \<Rightarrow> rc \<noteq> 0 \<and> holds g R ?M w
         | Some ctx \<Rightarrow> rc = 0 \<and> holds g R (?M + codec_owned ctx) w \<and> codec_wf ctx \<and> keyed (take (nat nKey) z) ctx)"
    unfolding keyed_def np [symmetric] by (rule codec_ctx_init_holds [OF w0(2) assms(4,5)]) (use assms(7) in simp)
  then obtain rc x w where n: "sqlcipher_codec_ctx_init p (get_tree b0) (Some z) nKey w0 = Some (rc, x, w)"
      "case x of None \<Rightarrow> rc \<noteq> 0 \<and> holds g R ?M w
       | Some ctx \<Rightarrow> rc = 0 \<and> holds g R (?M + codec_owned ctx) w \<and> codec_wf ctx \<and> keyed (take (nat nKey) z) ctx"
    by (elim exE conjE) (rule that)
  have run: "attach_codec dbg env p i (Some z) nKey c = (if rc \<noteq> 0 then Some (rc, put_bt i (attach_failed rc b0) (c\<lparr>cn_world := w\<rparr>)) else do {
         ctx \<leftarrow> x;
         (_, c1) \<leftarrow> codec_set_btree_to_codec_pagesize env i ctx (put_bt i (sqlcipherPagerSetCodec True (Some ctx) b0) (c\<lparr>cn_world := w\<rparr>));
         b \<leftarrow> db_pBt (aDb c1 ! i);
         let (_, b) = sqlite3BtreeSecureDelete 1 b;
         let b = (if pg_isOpen (cb_pager b0) then snd (sqlite3BtreeSetAutoVacuum SQLITE_DEFAULT_AUTOVACUUM b) else b);
         Some (0, put_bt i b c1) })"
    using assms(2) w0(1) n(1) by (simp add: attach_codec_def Let_def)
  have c: "i < length (aDb (c\<lparr>cn_world := w\<rparr>))" "pg_codec (cb_pager b0) = None" using assms(1) by (simp_all add: b0_def)
  have ad: "aDb (put_bt i y (c\<lparr>cn_world := w\<rparr>)) = aDb (put_bt i y c)" for y by (simp add: put_bt_def)
  show ?thesis
  proof (cases x)
    case None
    then show ?thesis using n(2) run False attach_failed_refused [OF c(2), of rc] ad
      by (intro exI [of _ rc] exI [of _ "put_bt i (attach_failed rc b0) (c\<lparr>cn_world := w\<rparr>)"] exI [of _ "attach_failed rc b0"]) simp
  next
    case (Some ctx)
    then have f: "rc = 0" "holds g R (?M + codec_owned ctx) w" "codec_wf ctx" "keyed (take (nat nKey) z) ctx" using n(2) by simp_all
    from attach_finish [OF c f(3,4), of env "pg_isOpen (cb_pager b0)"] obtain c' b' where r: "do {
         (_, c1) \<leftarrow> codec_set_btree_to_codec_pagesize env i ctx (put_bt i (sqlcipherPagerSetCodec True (Some ctx) b0) (c\<lparr>cn_world := w\<rparr>));
         b \<leftarrow> db_pBt (aDb c1 ! i);
         let (_, b) = sqlite3BtreeSecureDelete 1 b;
         let b = (if pg_isOpen (cb_pager b0) then snd (sqlite3BtreeSetAutoVacuum SQLITE_DEFAULT_AUTOVACUUM b) else b);
         Some (SQLITE_OK, put_bt i b c1) } = Some (SQLITE_OK, c')" "aDb c' = aDb (put_bt i b' (c\<lparr>cn_world := w\<rparr>))" "db_mutex c' = db_mutex (c\<lparr>cn_world := w\<rparr>)"
        "shared_mutex c' = shared_mutex (c\<lparr>cn_world := w\<rparr>)" "cn_world c' = cn_world (c\<lparr>cn_world := w\<rparr>)"
        "attached env b0 (take (nat nKey) z) b'" "bt_owned b' = codec_owned ctx"
      by (elim exE conjE) (rule that)
    then have "attach_codec dbg env p i (Some z) nKey c = Some (0, c')" unfolding run Some using f(1) by simp
    then show ?thesis using r f(2) False at ad by (intro exI [of _ 0] exI [of _ c'] exI [of _ b']) simp
  qed
qed

lemma attach_run:
  assumes "sqlcipher_init l" "i < length (aDb c)" "db_pBt (aDb c ! i) = Some b" "0 < nKey" "nat nKey \<le> length z"
    and "provider_ok p" "\<not> bit (default_flags g) 3" "holds g R (K + conn_owned c) (cn_world c)"
  shows "\<exists>rc c' b'. sqlcipherCodecAttach dbg l env p (Some c) (int i) (Some z) nKey = Some (rc, Some c')
    \<and> db_mutex c' = db_mutex c \<and> shared_mutex c' = shared_mutex c \<and> holds g R (K + conn_owned c') (cn_world c') \<and> aDb c' = aDb (put_bt i b' c)
    \<and> (if codec_kept dbg b then rc = SQLITE_OK \<and> b' = b else if rc = SQLITE_OK then attached env b (take (nat nKey) z) b' else attach_refused rc b')"
proof -
  define x where "x = (if cb_sharable b then if sqlcipher_mutex l SQLCIPHER_MUTEX_SHAREDCACHE = None then 0 else 1 else 0 :: int)"
  define c0 where "c0 = c\<lparr>db_mutex := db_mutex c + 1, shared_mutex := shared_mutex c + x\<rparr>"
  have c0: "i < length (aDb c0)" "db_pBt (aDb c0 ! i) = Some b" "holds g R (K + conn_owned c0) (cn_world c0)"
    using assms(2,3,8) by (simp_all add: c0_def conn_owned_def)
  obtain rc c1 b1 where r: "attach_codec dbg env p i (Some z) nKey c0 = Some (rc, c1)" "aDb c1 = aDb (put_bt i b1 c0)" "db_mutex c1 = db_mutex c0"
      "shared_mutex c1 = shared_mutex c0" "holds g R (K + conn_rest i c0 + bt_owned b1) (cn_world c1)"
      "if codec_kept dbg b then rc = SQLITE_OK \<and> b1 = b else if rc = SQLITE_OK then attached env b (take (nat nKey) z) b1 else attach_refused rc b1"
    using attach_codec_run [OF c0 assms(6,7,4,5)] by blast
  define c' where "c' = c1\<lparr>shared_mutex := shared_mutex c1 - x, db_mutex := db_mutex c1 - 1\<rparr>"
  have run: "sqlcipherCodecAttach dbg l env p (Some c) (int i) (Some z) nKey = Some (rc, Some c')"
    using assms(1-4) r(1) by (simp add: sqlcipherCodecAttach_def c'_def c0_def x_def)
  have f: "aDb c' = aDb (put_bt i b1 c)" "db_mutex c' = db_mutex c" "shared_mutex c' = shared_mutex c" "cn_world c' = cn_world c1"
    using r(2-4) by (simp_all add: c'_def c0_def put_bt_def)
  have "conn_owned c' = conn_rest i c + bt_owned b1" using f(1) conn_owned_put [OF assms(2), of b1] by (simp add: conn_owned_def)
  then have h: "holds g R (K + conn_owned c') (cn_world c')" using r(5) f(4) by (simp add: c0_def add.assoc)
  then show ?thesis using run f(1-3) r(6) by (intro exI [of _ rc] exI [of _ c'] exI [of _ b1] conjI) simp_all
qed

section \<open>Rekeying\<close>

text \<open>
  What the pager promises: each call returns, the memory it takes or gives back is that of the
  context, and a call that succeeds leaves the context well formed; a commit does so in any case.
\<close>

definition pager_runs :: "rekey_env \<Rightarrow> bool" where
  "pager_runs env \<longleftrightarrow> (\<forall>g. triple g codec_wf (re_begin env) codec_wf \<and> (\<forall>p. triple g codec_wf (re_get env p) codec_wf \<and> triple g codec_wf (re_write env p) codec_wf)
     \<and> triple g codec_wf (\<lambda>ctx w. map_option (\<lambda>(_, x). (SQLITE_OK, x)) (re_commit env ctx w)) codec_wf \<and> triple g (\<lambda>_. True) (re_rollback env) (\<lambda>_. True))"

text \<open>The calls for pages done, and for the page that failed.\<close>

definition page_range :: "nat \<Rightarrow> nat \<Rightarrow> u32 list" where
  "page_range a b = map word_of_nat [a..<b]"

definition pages_done :: "u32 \<Rightarrow> u32 list \<Rightarrow> pager_op list" where
  "pages_done sj ps = concat (map (\<lambda>p. [Op_Get p SQLITE_OK, Op_Write p SQLITE_OK, Op_Unref p]) (filter (\<lambda>p. p \<noteq> sj) ps))"

definition page_failed :: "u32 \<Rightarrow> rc \<Rightarrow> pager_op list \<Rightarrow> bool" where
  "page_failed p rc ops \<longleftrightarrow> ops = [Op_Get p rc] \<or> ops = [Op_Get p SQLITE_OK, Op_Write p rc]"

lemma pages_done_Cons: "pages_done sj (p # ps) = (if p = sj then [] else [Op_Get p SQLITE_OK, Op_Write p SQLITE_OK, Op_Unref p]) @ pages_done sj ps"
  by (simp add: pages_done_def)

lemma page_range_Cons: "a < b \<Longrightarrow> page_range a b = word_of_nat a # page_range (Suc a) b"
  by (simp add: page_range_def upt_conv_Cons)

lemma rekey_page_run:
  assumes "pager_runs env" "codec_wf ctx" "holds g R (M + codec_owned ctx) w"
  shows "\<exists>rc ctx' w' o'. rekey_page env p (ctx, w, ops) = Some (rc, ctx', w', ops @ o') \<and> holds g R (M + codec_owned ctx') w'
    \<and> (if rc = SQLITE_OK then codec_wf ctx' \<and> o' = [Op_Get p SQLITE_OK, Op_Write p SQLITE_OK, Op_Unref p] else page_failed p rc o')"
proof -
  have t: "triple g codec_wf (re_get env p) codec_wf" "triple g codec_wf (re_write env p) codec_wf" using assms(1) by (simp_all add: pager_runs_def)
  obtain e x w1 where 1: "re_get env p ctx w = Some (e, x, w1)" "holds g R (M + codec_owned x) w1" "e = 0 \<longrightarrow> codec_wf x"
    using tripleD [OF t(1) assms(2,3)] by blast
  show ?thesis
  proof (cases "e = 0")
    case False
    then show ?thesis using 1 by (intro exI [of _ e] exI [of _ x] exI [of _ w1] exI [of _ "[Op_Get p e]"]) (simp add: rekey_page_def page_failed_def)
  next
    case True
    obtain e2 x2 w2 where 2: "re_write env p x w1 = Some (e2, x2, w2)" "holds g R (M + codec_owned x2) w2" "e2 = 0 \<longrightarrow> codec_wf x2"
      using tripleD [OF t(2) _ 1(2)] 1(3) True by blast
    show ?thesis using 1 2 True
      by (intro exI [of _ e2] exI [of _ x2] exI [of _ w2] exI [of _ "[Op_Get p 0, Op_Write p e2] @ (if e2 = 0 then [Op_Unref p] else [])"])
        (simp add: rekey_page_def page_failed_def)
  qed
qed

lemma rekey_loop_run:
  assumes "pager_runs env" "n \<noteq> - 1" "unat pgno \<le> Suc (unat n)" "codec_wf ctx" "holds g R (M + codec_owned ctx) w"
  shows "\<exists>rc ctx' w' o'. rekey_loop env pg n pgno SQLITE_OK (ctx, w, ops) = Some (rc, ctx', w', ops @ o') \<and> holds g R (M + codec_owned ctx') w'
    \<and> (if rc = SQLITE_OK then codec_wf ctx' \<and> o' = pages_done (pg_lckPgno pg) (page_range (unat pgno) (Suc (unat n)))
       else \<exists>k f. unat pgno \<le> unat k \<and> k \<le> n \<and> o' = pages_done (pg_lckPgno pg) (page_range (unat pgno) (unat k)) @ f \<and> page_failed k rc f)"
  using assms(3-5)
proof (induction "Suc (unat n) - unat pgno" arbitrary: pgno ctx w ops)
  case 0
  then have "\<not> pgno \<le> n" by (simp add: word_le_nat_alt)
  moreover have "page_range (unat pgno) (Suc (unat n)) = []" using 0(1) by (simp add: page_range_def)
  ultimately show ?case using 0(3,4) by (subst rekey_loop.simps) (simp add: pages_done_def)
next
  case (Suc d)
  let ?sj = "pg_lckPgno pg"
  have le: "unat pgno \<le> unat n" "pgno \<le> n" using Suc(2) by (simp_all add: word_le_nat_alt)
  have "n < - 1" using assms(2) word_n1_ge [of n] by (simp add: order_le_less)
  then have "unat n < 2 ^ 32 - 1" by (simp add: word_less_nat_alt unsigned_minus_1_eq_mask mask_eq_exp_minus_1)
  then have up: "unat (pgno + 1) = Suc (unat pgno)" using le(1) by (simp add: unat_word_ariths)
  have d: "d = Suc (unat n) - unat (pgno + 1)" "unat (pgno + 1) \<le> Suc (unat n)" using Suc(2) le up by simp_all
  have pr: "page_range (unat pgno) b = pgno # page_range (unat (pgno + 1)) b" if "unat pgno < b" for b
    using page_range_Cons [OF that] up by simp
  define page where "page = (if \<not> sqlite3pager_is_sj_pgno pg pgno then rekey_page env pgno (ctx, w, ops) else Some (SQLITE_OK, ctx, w, ops))"
  obtain rc x w1 o1 where p: "page = Some (rc, x, w1, ops @ o1)" "holds g R (M + codec_owned x) w1"
      "if rc = 0 then codec_wf x \<and> o1 = pages_done ?sj [pgno] else page_failed pgno rc o1"
    using rekey_page_run [OF assms(1) Suc(4,5), of pgno ops] Suc(4,5)
    by (cases "?sj = pgno") (auto simp: page_def sqlite3pager_is_sj_pgno_def pages_done_def)
  have step: "rekey_loop env pg n pgno 0 (ctx, w, ops) = rekey_loop env pg n (pgno + 1) rc (x, w1, ops @ o1)"
    using le(2) p(1) unfolding page_def by (subst rekey_loop.simps) simp
  show ?case
  proof (cases "rc = 0")
    case False
    then have "rekey_loop env pg n (pgno + 1) rc (x, w1, ops @ o1) = Some (rc, x, w1, ops @ o1)" by (subst rekey_loop.simps) simp
    moreover have "page_range (unat pgno) (unat pgno) = []" by (simp add: page_range_def)
    ultimately show ?thesis using step False p(2,3) le
      by (intro exI [of _ rc] exI [of _ x] exI [of _ w1] exI [of _ o1]) (auto simp: pages_done_def intro!: exI [of _ pgno])
  next
    case True
    then have wf: "codec_wf x" "o1 = pages_done ?sj [pgno]" using p(3) by simp_all
    obtain e x2 w2 o2 where r: "rekey_loop env pg n (pgno + 1) 0 (x, w1, ops @ o1) = Some (e, x2, w2, (ops @ o1) @ o2)" "holds g R (M + codec_owned x2) w2"
        "if e = 0 then codec_wf x2 \<and> o2 = pages_done ?sj (page_range (unat (pgno + 1)) (Suc (unat n)))
         else \<exists>k f. unat (pgno + 1) \<le> unat k \<and> k \<le> n \<and> o2 = pages_done ?sj (page_range (unat (pgno + 1)) (unat k)) @ f \<and> page_failed k e f"
      using Suc(1) [OF d(1,2) wf(1) p(2), of "ops @ o1"] by blast
    have cons: "pages_done ?sj [pgno] @ pages_done ?sj ps = pages_done ?sj (pgno # ps)" for ps by (simp add: pages_done_def)
    have "if e = 0 then codec_wf x2 \<and> o1 @ o2 = pages_done ?sj (page_range (unat pgno) (Suc (unat n)))
         else \<exists>k f. unat pgno \<le> unat k \<and> k \<le> n \<and> o1 @ o2 = pages_done ?sj (page_range (unat pgno) (unat k)) @ f \<and> page_failed k e f"
    proof (cases "e = 0")
      case True
      then show ?thesis using r(3) wf(2) le(1) pr [of "Suc (unat n)"] cons by simp
    next
      case False
      then obtain k f where k: "unat (pgno + 1) \<le> unat k" "k \<le> n" "o2 = pages_done ?sj (page_range (unat (pgno + 1)) (unat k)) @ f" "page_failed k e f"
        using r(3) by auto
      then have "o1 @ o2 = pages_done ?sj (page_range (unat pgno) (unat k)) @ f" using wf(2) cons pr [of "unat k"] up by (simp flip: append_assoc)
      moreover have "unat pgno \<le> unat k" using k(1) up by simp
      ultimately show ?thesis using False k(2,4) by auto
    qed
    then show ?thesis using step True r(1,2)
      by (intro exI [of _ e] exI [of _ x2] exI [of _ w2] exI [of _ "o1 @ o2"]) simp
  qed
qed

text \<open>The calls of a whole change of key, for \<open>n\<close> pages of which \<open>sj\<close> is skipped.\<close>

definition rekey_trace :: "u32 \<Rightarrow> nat \<Rightarrow> rc \<Rightarrow> pager_op list \<Rightarrow> bool" where
  "rekey_trace sj n rc ops \<longleftrightarrow>
     (if rc = SQLITE_OK then \<exists>e. ops = Op_BeginTrans SQLITE_OK # pages_done sj (page_range 1 (Suc n)) @ [Op_Commit e]
      else ops = [Op_BeginTrans rc]
        \<or> (\<exists>k f. 1 \<le> unat k \<and> unat k \<le> n \<and> ops = Op_BeginTrans SQLITE_OK # pages_done sj (page_range 1 (unat k)) @ f @ [Op_Rollback] \<and> page_failed k rc f))"

text \<open>The context comes from copying the write context over the read context, and they are the same unless memory ran out.\<close>

definition copied_to_read :: "codec_ctx \<Rightarrow> world \<Rightarrow> bool" where
  "copied_to_read ctx w \<longleftrightarrow> (\<exists>x w0 e. sqlcipher_codec_key_copy x CIPHER_WRITE_CTX w0 = Some (e, ctx, w)
     \<and> (e \<noteq> SQLITE_NOMEM \<longrightarrow> codec_wf ctx \<and> (\<exists>r t. read_ctx ctx = Some r \<and> write_ctx ctx = Some t \<and> same_material t r)))"

lemma key_copy_run:
  assumes "codec_wf ctx" "holds g R (M + codec_owned ctx) w"
  shows "\<exists>e ctx' w'. sqlcipher_codec_key_copy ctx CIPHER_WRITE_CTX w = Some (e, ctx', w') \<and> holds g R (M + codec_owned ctx') w'
    \<and> copied_to_read ctx' w'"
proof -
  obtain r t where c: "read_ctx ctx = Some r" "write_ctx ctx = Some t" "cipher_wf (key_sz ctx) r" "cipher_wf (key_sz ctx) t"
    using assms(1) by (auto simp: codec_wf_def ciphers_wf_def)
  let ?N = "M + codec_owned (ctx\<lparr>read_ctx := None\<rparr>)"
  have "holds g R (?N + cipher_owned (key_sz ctx) (Some r)) w" using assms(2) unfolding codec_owned_read [OF c(1)] by (simp only: add.assoc)
  from holds_copy [OF this c(3,4)] obtain e r' w' where s: "sqlcipher_cipher_ctx_copy ctx r t w = Some (e, r', w')"
      "holds g R (?N + cipher_owned (key_sz ctx) (Some r')) w'" "e = 0 \<or> e = 7" "e = 0 \<longrightarrow> cipher_wf (key_sz ctx) r' \<and> same_material t r'" by blast
  have "sqlcipher_codec_key_copy ctx CIPHER_WRITE_CTX w = Some (e, ctx\<lparr>read_ctx := Some r'\<rparr>, w')"
    using c(1,2) s(1) by (simp add: sqlcipher_codec_key_copy_def CIPHER_WRITE_CTX_def CIPHER_READ_CTX_def)
  moreover have "holds g R (M + codec_owned (ctx\<lparr>read_ctx := Some r'\<rparr>)) w'" using s(2) unfolding owned_read_update by (simp only: add.assoc)
  moreover have "e \<noteq> 7 \<longrightarrow> codec_wf (ctx\<lparr>read_ctx := Some r'\<rparr>) \<and> same_material t r'" using s(3,4) codec_wf_read [OF assms(1)] by auto
  ultimately have "copied_to_read (ctx\<lparr>read_ctx := Some r'\<rparr>) w'" using c(2) unfolding copied_to_read_def by (intro exI [of _ ctx] exI [of _ w] exI [of _ e]) auto
  then show ?thesis using \<open>sqlcipher_codec_key_copy ctx CIPHER_WRITE_CTX w = Some (e, ctx\<lparr>read_ctx := Some r'\<rparr>, w')\<close>
      \<open>holds g R (M + codec_owned (ctx\<lparr>read_ctx := Some r'\<rparr>)) w'\<close> by blast
qed

lemma rekey_pages_run:
  assumes "pager_runs env" "re_pagecount env mod 2 ^ 32 \<noteq> 2 ^ 32 - 1" "codec_wf ctx" "holds g R (M + codec_owned ctx) w"
  shows "\<exists>rc ctx' w' ops. rekey_pages env pg ctx w = Some (rc, ctx', w', ops) \<and> holds g R (M + codec_owned ctx') w'
    \<and> rekey_trace (pg_lckPgno pg) (nat (re_pagecount env mod 2 ^ 32)) rc ops \<and> (rc = SQLITE_OK \<longrightarrow> copied_to_read ctx' w')"
proof -
  let ?n = "word_of_int (re_pagecount env) :: u32"
  have un: "unat ?n = nat (re_pagecount env mod 2 ^ 32)" by (simp add: nat_mod_distrib unat_eq_nat_uint uint_word_of_int take_bit_eq_mod)
  have "?n \<noteq> - 1"
  proof
    assume "?n = - 1"
    then have "uint ?n = uint (- 1 :: u32)" by simp
    then show False using assms(2) by (simp add: uint_word_of_int take_bit_eq_mod unsigned_minus_1_eq_mask mask_eq_exp_minus_1)
  qed
  note loop = rekey_loop_run [OF assms(1) this, of 1, unfolded unat_1]
  have tb: "triple g codec_wf (re_begin env) codec_wf" "triple g codec_wf (\<lambda>ctx w. map_option (\<lambda>(_, x). (SQLITE_OK, x)) (re_commit env ctx w)) codec_wf"
      "triple g (\<lambda>_. True) (re_rollback env) (\<lambda>_. True)"
    using assms(1) by (simp_all add: pager_runs_def)
  obtain e x w1 where b: "re_begin env ctx w = Some (e, x, w1)" "holds g R (M + codec_owned x) w1" "e = 0 \<longrightarrow> codec_wf x"
    using tripleD [OF tb(1) assms(3,4)] by blast
  show ?thesis
  proof (cases "e = 0")
    case False
    then show ?thesis using b by (intro exI [of _ e] exI [of _ x] exI [of _ w1] exI [of _ "[Op_BeginTrans e]"]) (simp add: rekey_pages_def rekey_trace_def)
  next
    case True
    have "1 \<le> Suc (unat ?n)" "codec_wf x" using b(3) True by simp_all
    from loop [OF this b(2), of pg "[Op_BeginTrans 0]"] obtain rc x2 w2 o2 where l: "rekey_loop env pg ?n 1 0 (x, w1, [Op_BeginTrans 0]) = Some (rc, x2, w2, [Op_BeginTrans 0] @ o2)" "holds g R (M + codec_owned x2) w2"
        "if rc = 0 then codec_wf x2 \<and> o2 = pages_done (pg_lckPgno pg) (page_range 1 (Suc (unat ?n)))
         else \<exists>k f. 1 \<le> unat k \<and> k \<le> ?n \<and> o2 = pages_done (pg_lckPgno pg) (page_range 1 (unat k)) @ f \<and> page_failed k rc f"
      by (elim exE conjE) (rule that)
    show ?thesis
    proof (cases "rc = 0")
      case ok: True
      obtain d x3 w3 where c: "map_option (\<lambda>(_, x). (SQLITE_OK, x)) (re_commit env x2 w2) = Some (d, x3, w3)" "holds g R (M + codec_owned x3) w3" "d = 0 \<longrightarrow> codec_wf x3"
        using tripleD [OF tb(2) _ l(2)] l(3) ok by auto
      then obtain d' where d: "re_commit env x2 w2 = Some (d', x3, w3)" "codec_wf x3" by auto
      obtain y x4 w4 where k: "sqlcipher_codec_key_copy x3 CIPHER_WRITE_CTX w3 = Some (y, x4, w4)" "holds g R (M + codec_owned x4) w4" "copied_to_read x4 w4"
        using key_copy_run [OF d(2) c(2)] by blast
      have "rekey_trace (pg_lckPgno pg) (nat (re_pagecount env mod 2 ^ 32)) 0 ([Op_BeginTrans 0] @ o2 @ [Op_Commit d'])"
        using l(3) ok un by (auto simp: rekey_trace_def)
      then show ?thesis using b(1) True l(1) ok d(1) k
        by (intro exI [of _ 0] exI [of _ x4] exI [of _ w4] exI [of _ "[Op_BeginTrans 0] @ o2 @ [Op_Commit d']"]) (auto simp: rekey_pages_def)
    next
      case bad: False
      obtain d x3 w3 where c: "re_rollback env x2 w2 = Some (d, x3, w3)" "holds g R (M + codec_owned x3) w3" using tripleD [OF tb(3) TrueI l(2)] by blast
      obtain k f where kf: "1 \<le> unat k" "k \<le> ?n" "o2 = pages_done (pg_lckPgno pg) (page_range 1 (unat k)) @ f" "page_failed k rc f" using l(3) bad by auto
      have "unat k \<le> nat (re_pagecount env mod 2 ^ 32)" using kf(2) un by (simp add: word_le_nat_alt)
      then have "rekey_trace (pg_lckPgno pg) (nat (re_pagecount env mod 2 ^ 32)) rc ([Op_BeginTrans 0] @ o2 @ [Op_Rollback])"
        using kf bad unfolding rekey_trace_def by auto
      then show ?thesis using b(1) True l(1) bad c
        by (intro exI [of _ rc] exI [of _ x3] exI [of _ w3] exI [of _ "[Op_BeginTrans 0] @ o2 @ [Op_Rollback]"]) (auto simp: rekey_pages_def)
    qed
  qed
qed

lemma set_pass_write_run:
  assumes "codec_wf ctx" "holds g R (M + codec_owned ctx) w" "nat nKey \<le> length z" "sqlcipher_codec_ctx_set_pass ctx (Some z) nKey CIPHER_WRITE_CTX w = Some (SQLITE_OK, ctx', w')"
  shows "codec_wf ctx' \<and> holds g R (M + codec_owned ctx') w'"
proof -
  obtain t where t: "write_ctx ctx = Some t" "cipher_wf (key_sz ctx) t" using assms(1) by (auto simp: codec_wf_def ciphers_wf_def)
  let ?N = "M + codec_owned (ctx\<lparr>write_ctx := None\<rparr>)"
  have h: "holds g R (?N + cipher_owned (key_sz ctx) (Some t)) w" using assms(2) unfolding codec_owned_write [OF t(1)] by (simp only: add.assoc)
  obtain rc c' w1 where s: "sqlcipher_cipher_ctx_set_pass t (Some z) nKey w = Some (rc, c', w1)" "holds g R (?N + cipher_owned (key_sz ctx) (Some c')) w1"
      "rc = 0 \<longrightarrow> cipher_wf (key_sz ctx) c'"
    by (rule holds_set_pass [OF h t(2), of "Some z" nKey], use assms(3) in simp, erule (1) that, blast)
  have "rc = 0 \<and> ctx' = ctx\<lparr>write_ctx := Some (c'\<lparr>derive_key := 1\<rparr>)\<rparr> \<and> w' = w1"
    using assms(4) t(1) s(1) by (auto simp: sqlcipher_codec_ctx_set_pass_def CIPHER_WRITE_CTX_def Let_def split: if_splits)
  moreover have "cipher_owned (key_sz ctx) (Some (c'\<lparr>derive_key := 1\<rparr>)) = cipher_owned (key_sz ctx) (Some c')" by (simp add: cipher_owned_def)
  moreover have "cipher_wf (key_sz ctx) (c'\<lparr>derive_key := 1\<rparr>) = cipher_wf (key_sz ctx) c'" by (simp add: cipher_wf_def)
  ultimately show ?thesis using s(2,3) codec_wf_write [OF assms(1)] unfolding owned_write_update by (simp add: owned_write_update add.assoc)
qed

lemma rekey_db_run:
  assumes i: "sqlcipher_find_db_index (Some c) zDb = int i" "i < length (aDb c)" "db_pBt (aDb c ! i) = Some b" "sqlcipherPagerGetCodec b = Some ctx" "codec_wf ctx"
    and h: "holds g R (conn_owned c) (cn_world c)" and k: "nat nKey \<le> length z" "sqlcipher_codec_ctx_set_pass ctx (Some z) nKey CIPHER_WRITE_CTX (cn_world c) = Some (SQLITE_OK, ctx1, w1)"
    and p: "pager_runs env" "re_pagecount env mod 2 ^ 32 \<noteq> 2 ^ 32 - 1"
  shows "\<exists>rc c' b' ctx' ops. rekey_db env zDb (Some z) nKey c = Some (rc, c') \<and> db_mutex c' = db_mutex c \<and> holds g R (conn_owned c') (cn_world c')
    \<and> db_pBt (aDb c' ! i) = Some b' \<and> sqlcipherPagerGetCodec b' = Some ctx' \<and> pg_ops (cb_pager b') = pg_ops (cb_pager b) @ ops
    \<and> rekey_trace (pg_lckPgno (cb_pager b)) (nat (re_pagecount env mod 2 ^ 32)) rc ops \<and> (rc = SQLITE_OK \<longrightarrow> copied_to_read ctx' (cn_world c'))"
proof -
  let ?M = "conn_rest i c"
  have "holds g R (?M + codec_owned ctx) (cn_world c)" using h i(4) conn_owned_at [OF i(2,3)] by (simp add: bt_owned_def sqlcipherPagerGetCodec_def)
  note s = set_pass_write_run [OF i(5) this k]
  define b1 where "b1 = b\<lparr>cb_pager := (cb_pager b)\<lparr>pg_codec := Some ctx1\<rparr>\<rparr>"
  define c1 where "c1 = put_bt i b1 (c\<lparr>cn_world := w1\<rparr>)"
  have set: "codec_set_pass_key i (Some z) nKey CIPHER_WRITE_CTX c = Some (0, c1)" using i(3,4) k(2) by (simp add: codec_set_pass_key_def b1_def c1_def)
  have f: "db_pBt (aDb c1 ! i) = Some b1" "sqlcipherPagerGetCodec b1 = Some ctx1" "cn_world c1 = w1" using i(2) by (simp_all add: c1_def b1_def sqlcipherPagerGetCodec_def)
  obtain rc x w ops where r: "rekey_pages env (cb_pager b1) ctx1 w1 = Some (rc, x, w, ops)" "holds g R (?M + codec_owned x) w"
      "rekey_trace (pg_lckPgno (cb_pager b1)) (nat (re_pagecount env mod 2 ^ 32)) rc ops" "rc = 0 \<longrightarrow> copied_to_read x w"
    using rekey_pages_run [OF p, of ctx1 g R ?M w1 "cb_pager b1"] s by blast
  define b2 where "b2 = b1\<lparr>cb_pager := (cb_pager b1)\<lparr>pg_codec := Some x, pg_ops := pg_ops (cb_pager b1) @ ops\<rparr>\<rparr>"
  define c2 where "c2 = put_bt i b2 (c1\<lparr>cn_world := w\<rparr>)"
  have "rekey_db env zDb (Some z) nKey c = Some (rc, c2)"
    using i set f r(1) by (simp add: rekey_db_def c2_def b2_def)
  moreover have "conn_owned c2 = ?M + codec_owned x" using i(2) conn_owned_put [of i "c1\<lparr>cn_world := w\<rparr>" b2] by (simp add: c2_def c1_def b2_def bt_owned_def)
  ultimately show ?thesis using r i(2)
    by (intro exI [of _ rc] exI [of _ c2] exI [of _ b2] exI [of _ x] exI [of _ ops]) (simp add: c2_def c1_def b2_def b1_def sqlcipherPagerGetCodec_def)
qed

section \<open>Handing a key over\<close>

lemma get_key_run:
  assumes "i < length (aDb c)" "Option.bind (db_pBt (aDb c ! i)) sqlcipherPagerGetCodec = Some ctx" "codec_wf ctx" "read_ctx ctx = Some r"
    "derive_key r \<noteq> 0 \<or> store_pass ctx = 1" "contents (pass r) = Some z" "holds g R (conn_owned c) (cn_world c)"
  shows "\<exists>x n w'. sqlcipherCodecGetKey (Some c) (int i) = Some (x, n, Some (c\<lparr>cn_world := w'\<rparr>)) \<and> holds g R (ob n x + conn_owned c) w'
    \<and> (x = None \<and> n = 0 \<or> contents x = Some z \<and> n = int (length z) \<and> n > 0)"
proof -
  obtain a where p: "pass r = Some (a, z)" using assms(6) by (cases "pass r") auto
  have "cipher_wf (key_sz ctx) r" using assms(3,4) by (auto simp: codec_wf_def ciphers_wf_def)
  then have l: "0 < pass_sz r" "length z = nat (pass_sz r)" using p by (simp_all add: cipher_wf_def)
  obtain x w where m: "buf_malloc (pass_sz r) (cn_world c) = Some (x, w)" "holds g R (conn_owned c + ob (pass_sz r) x) w"
      "x = None \<or> (\<exists>a. x = Some (a, replicate (nat (pass_sz r)) 0))"
    using holds_buf_malloc [OF assms(7)] by blast
  have run: "sqlcipherCodecGetKey (Some c) (int i) = (case x of None \<Rightarrow> Some (None, 0, Some (c\<lparr>cn_world := w\<rparr>))
      | Some (a, d) \<Rightarrow> Some (Some (a, memcpy_at d 0 (take (nat (pass_sz r)) z)), pass_sz r, Some (c\<lparr>cn_world := w\<rparr>)))"
    using assms(1,2,4,5) m(1) p by (simp add: sqlcipherCodecGetKey_def split: option.split)
  show ?thesis
  proof (cases x)
    case None
    then show ?thesis using run m(2) by (intro exI [of _ None] exI [of _ 0] exI [of _ w]) simp
  next
    case (Some y)
    then obtain b where y: "x = Some (b, replicate (nat (pass_sz r)) 0)" using m(3) by auto
    have "memcpy_at (replicate (nat (pass_sz r)) 0) 0 (take (nat (pass_sz r)) z) = z" using l by (simp add: memcpy_at_def)
    then show ?thesis using run m(2) y l
      by (intro exI [of _ "Some (b, z)"] exI [of _ "pass_sz r"] exI [of _ w]) (simp add: ac_simps)
  qed
qed

section \<open>An instance\<close>

definition demo_rich :: world where
  "demo_rich = demo_held\<lparr>w_heap := (w_heap demo_held)\<lparr>sys_malloc := demo_malloc_sys\<rparr>\<rparr>"

definition demo_pager :: "codec_ctx option \<Rightarrow> pager" where
  "demo_pager x = \<lparr>pg_xCodec = True, pg_codec = x, pg_memDb = False, pg_eState = PAGER_OPEN, pg_errCode = SQLITE_OK, pg_isOpen = True,
     pg_pageSize = 4096, pg_nReserve = 96, pg_dbSize = 0, pg_lckPgno = 262145, pg_ops = []\<rparr>"

definition demo_bt :: "codec_ctx option \<Rightarrow> conn_bt" where
  "demo_bt x = \<lparr>cb_sharable = False, cb_pageSize = 4096, cb_usableSize = 4000, cb_nReserveWanted = 96, cb_incrVacuum = 0,
     cb_tree = demo_btree, cb_pager = demo_pager x\<rparr>"

definition demo_conn :: conn where
  "demo_conn = \<lparr>aDb = [\<lparr>zDbSName = Some (str ''main''), db_pBt = Some (demo_bt (Some demo_codec))\<rparr>,
                      \<lparr>zDbSName = Some (str ''aux''), db_pBt = Some (demo_bt None)\<rparr>],
     db_mutex = 0, shared_mutex = 0, nextPagesize = 4096, cn_world = demo_rich\<rparr>"

definition demo_pager_env :: pager_env where
  "demo_pager_env = \<lparr>pe_refs = 0, pe_filesize = (SQLITE_OK, 0), pe_pagemalloc = True, pe_pcache = SQLITE_OK\<rparr>"

definition demo_rekey_env :: rekey_env where
  "demo_rekey_env = \<lparr>re_begin = (\<lambda>ctx w. Some (SQLITE_OK, ctx, w)), re_pagecount = 3, re_get = (\<lambda>p ctx w. Some (SQLITE_OK, ctx, w)),
     re_write = (\<lambda>p ctx w. Some (SQLITE_OK, ctx, w)), re_commit = (\<lambda>ctx w. Some (SQLITE_OK, ctx, w)), re_rollback = (\<lambda>ctx w. Some (SQLITE_OK, ctx, w))\<rparr>"

lemma heap_inv_sys_malloc: "heap_inv h \<Longrightarrow> sys_malloc_ok f \<Longrightarrow> heap_inv (h\<lparr>sys_malloc := f\<rparr>) \<and> live (h\<lparr>sys_malloc := f\<rparr>) = live h"
  by (simp add: heap_inv_def heap_inv_of_def heap_view_def region_inv_def live_def)

lemma demo_rich_holds: "holds demo_rich {} (codec_owned demo_codec) demo_rich"
proof -
  obtain h n where h: "demo_held = demo_held\<lparr>w_heap := h, w_calls := n\<rparr>" "heap_inv h" "owns (live h) {} (codec_owned demo_codec)"
    using demo_held_holds unfolding holds_def by blast
  from h(1) have "w_heap demo_held = h" by (metis select_convs(1) world.select_convs(1) world.surjective world.update_convs(1,2))
  then show ?thesis using h(2,3) heap_inv_sys_malloc [of h demo_malloc_sys] demo_malloc_sys_ok unfolding holds_def demo_rich_def
    by (intro exI [of _ "h\<lparr>sys_malloc := demo_malloc_sys\<rparr>"] exI [of _ "w_calls demo_held"]) simp
qed

lemma demo_conn_facts:
  "holds demo_rich {} (conn_owned demo_conn) (cn_world demo_conn)" "length (aDb demo_conn) = 2" "db_pBt (aDb demo_conn ! 0) = Some (demo_bt (Some demo_codec))"
  "db_pBt (aDb demo_conn ! 1) = Some (demo_bt None)" "sqlcipherPagerGetCodec (demo_bt x) = x" "\<not> bit (default_flags demo_rich) 3"
  "sqlcipher_init (demo_lib\<lparr>sqlcipher_init := True\<rparr>)"
  using demo_rich_holds by (simp_all add: demo_conn_def conn_owned_def db_owned_def bt_owned_def demo_bt_def demo_pager_def sqlcipherPagerGetCodec_def
      demo_rich_def demo_held_def demo_world_def DEFAULT_CIPHER_FLAGS_def bit_or_iff flag_simps)

lemma demo_set_pass: "\<exists>ctx1 w1. sqlcipher_codec_ctx_set_pass demo_codec (Some [9, 9, 9]) 3 CIPHER_WRITE_CTX demo_rich = Some (SQLITE_OK, ctx1, w1)"
proof -
  have t: "write_ctx demo_codec = Some (demo_cipher 8192)" "pass (demo_cipher 8192) = Some (8320, [1, 2, 3])" "pass_sz (demo_cipher 8192) = 3"
    by (simp_all add: demo_codec_def demo_cipher_def)
  have u: "u64_size 3 = 3" by (simp add: u64_size_def)
  have ru: "SQLCIPHER_PRIVATE_HEAP_ROUNDUP 3 = 8" by (simp add: SQLCIPHER_PRIVATE_HEAP_ROUNDUP_def SQLCIPHER_PRIVATE_HEAP_ALIGNMENT_def)
  let ?h = "w_heap demo_rich"
  have ph: "private_heap ?h = None" "sys_malloc ?h = demo_malloc_sys" "sys_live ?h = map_of demo_blocks" by (simp_all add: demo_rich_def demo_held_def)
  define h1 where "h1 = sqlcipher_internal_free 8320 3 ?h"
  have h1: "private_heap h1 = None" "sys_malloc h1 = demo_malloc_sys" "finite (dom (sys_live h1))"
    using ph by (simp_all add: h1_def internal_free_frame finite_dom_map_of)
  have f: "w_free 8320 3 demo_rich = Some (demo_rich\<lparr>w_heap := h1\<rparr>)"
    using ph u by (simp add: w_free_def sqlcipher_free_def free_find.simps h1_def)
  obtain q where q: "demo_malloc_sys (sys_calls h1) (sys_live h1) 8 = Some q" using h1(3) by (simp add: demo_malloc_sys_def)
  have "\<exists>h2. sqlcipher_malloc 3 h1 = Some (Some q, h2)"
    using h1 q ru by (simp add: sqlcipher_malloc_def malloc_find.simps SQLITE_MAX_LENGTH_def sqlcipher_internal_malloc_def sqlite3_malloc64_def Let_def)
  then obtain h2 where "sqlcipher_malloc 3 h1 = Some (Some q, h2)" by blast
  then have m: "buf_malloc 3 (demo_rich\<lparr>w_heap := h1\<rparr>) = Some (Some (q, replicate 3 0), demo_rich\<lparr>w_heap := h2\<rparr>)"
    using u by (simp add: buf_malloc_def w_malloc_def numeral_3_eq_3)
  show ?thesis using t f m
    by (simp add: sqlcipher_codec_ctx_set_pass_def sqlcipher_cipher_ctx_set_pass_def buf_free_def CIPHER_WRITE_CTX_def Let_def)
qed

lemma demo_pager_runs: "pager_runs demo_rekey_env"
  by (simp add: pager_runs_def demo_rekey_env_def triple_def)

section \<open>Properties\<close>

text \<open>
  C36: Keying a database returns with both mutexes as they were, every block of memory accounted for
  and the other databases untouched. A codec whose key was used, or on a shared cache, stays as it is.
  Otherwise success leaves a well-formed context on the pager that holds exactly the
  given passphrase, not yet derived, with secure deletion on and encryption on unless the
  database is in memory; failure leaves no codec, the error recorded, and the database read-only or its pager in the error state.
\<close>

theorem attach_outcome:
  assumes "sqlcipher_init l" "i < length (aDb c)" "db_pBt (aDb c ! i) = Some b" "0 < nKey" "nat nKey \<le> length z"
    and "provider_ok p" "\<not> bit (default_flags g) 3" "holds g R (conn_owned c) (cn_world c)"
  shows "\<exists>rc c' b'. sqlcipherCodecAttach dbg l env p (Some c) (int i) (Some z) nKey = Some (rc, Some c')
    \<and> db_mutex c' = db_mutex c \<and> shared_mutex c' = shared_mutex c \<and> holds g R (conn_owned c') (cn_world c')
    \<and> length (aDb c') = length (aDb c) \<and> (\<forall>j. j \<noteq> i \<longrightarrow> aDb c' ! j = aDb c ! j) \<and> db_pBt (aDb c' ! i) = Some b'
    \<and> (if codec_kept dbg b then rc = SQLITE_OK \<and> b' = b
       else if rc = SQLITE_OK then
         \<exists>ctx. sqlcipherPagerGetCodec b' = Some ctx \<and> codec_wf ctx \<and> keyed (take (nat nKey) z) ctx
           \<and> pg_xCodec (cb_pager b') = (\<not> pg_memDb (cb_pager b)) \<and> bit (bt_btsFlags (get_tree b')) 2
       else sqlcipherPagerGetCodec b' = None \<and> bt_errCode (get_tree b') = rc
         \<and> (bit (bt_btsFlags (get_tree b')) 0 \<or> pg_errCode (cb_pager b') = rc \<and> pg_eState (cb_pager b') = PAGER_ERROR))"
proof -
  have "holds g R ({#} + conn_owned c) (cn_world c)" using assms(8) by simp
  from attach_run [OF assms(1-7) this] obtain rc c' b' where r: "sqlcipherCodecAttach dbg l env p (Some c) (int i) (Some z) nKey = Some (rc, Some c')"
      "db_mutex c' = db_mutex c" "shared_mutex c' = shared_mutex c" "holds g R ({#} + conn_owned c') (cn_world c')" "aDb c' = aDb (put_bt i b' c)"
      "if codec_kept dbg b then rc = SQLITE_OK \<and> b' = b else if rc = SQLITE_OK then attached env b (take (nat nKey) z) b' else attach_refused rc b'" by blast
  have "if codec_kept dbg b then rc = SQLITE_OK \<and> b' = b
       else if rc = SQLITE_OK then
         \<exists>ctx. sqlcipherPagerGetCodec b' = Some ctx \<and> codec_wf ctx \<and> keyed (take (nat nKey) z) ctx
           \<and> pg_xCodec (cb_pager b') = (\<not> pg_memDb (cb_pager b)) \<and> bit (bt_btsFlags (get_tree b')) 2
       else sqlcipherPagerGetCodec b' = None \<and> bt_errCode (get_tree b') = rc
         \<and> (bit (bt_btsFlags (get_tree b')) 0 \<or> pg_errCode (cb_pager b') = rc \<and> pg_eState (cb_pager b') = PAGER_ERROR)"
    using r(6) unfolding attached_def attach_refused_def by (simp split: if_splits) blast
  then show ?thesis using r(1-5) assms(2) by (intro exI [of _ rc] exI [of _ c'] exI [of _ b'] conjI) simp_all
qed

theorem attach_outcome_witness:
  "\<exists>rc c'. sqlcipherCodecAttach True (demo_lib\<lparr>sqlcipher_init := True\<rparr>) demo_pager_env demo_provider (Some demo_conn) 1 (Some [7, 8]) 2 = Some (rc, Some c')
     \<and> db_mutex c' = db_mutex demo_conn \<and> (rc = SQLITE_OK \<longrightarrow> (\<exists>b' ctx. db_pBt (aDb c' ! 1) = Some b' \<and> sqlcipherPagerGetCodec b' = Some ctx \<and> keyed [7, 8] ctx))"
proof -
  have "\<not> codec_kept True (demo_bt None)" using demo_conn_facts(5) [of None] by (simp add: codec_kept_def)
  then show ?thesis
    using attach_outcome [OF demo_conn_facts(7) _ demo_conn_facts(4) _ _ demo_provider_ok demo_conn_facts(6,1), of 2 "[7, 8]" True demo_pager_env] demo_conn_facts(2)
    by (force split: if_splits)
qed







text \<open>Without a key the change of key is refused, but the database mutex is left although it was never entered.\<close>

lemma rekey_without_key_leaves_mutex:
  assumes "sqlcipher_init l" "key_len pKey nKey = Some n" "pKey = None \<or> n \<le> 0"
  shows "sqlite3_rekey_v2 l env (Some c) zDb pKey nKey = Some (SQLITE_MISUSE, Some (c\<lparr>db_mutex := db_mutex c - 1\<rparr>))"
  using assms by (auto simp: sqlite3_rekey_v2_def)

end
