(* ===== verification/Spec2Isabelle.thy ===== *)
theory Spec2Isabelle
  imports SC_Prelude SC_Xoshiro SC_Bytes SC_Heap SC_HeapList SC_Allocator SC_Provider
    SC_CodecCtx SC_CodecLife SC_CodecSettings SC_Page SC_Strings SC_KeyDerive SC_KeySpec SC_Codec SC_Varint
    SC_Int64
    SC_Decimal
    SC_Bitvec
    SC_Lifecycle
    SC_Keying
begin

text \<open>SQLCipher: a model of the encryption layer.\<close>

end
